(* ===== verification/Prelude.thy ===== *)
theory Prelude
  imports Main "HOL-Library.Word" "HOL-Library.Sublist"
begin

text \<open>
  Shared vocabulary of the development: machine integer types, the results of operations
  that C++ leaves undefined, the standard-library primitives the sources lean on
  (vector resize, memcpy at an offset), and the collections of simplification rules the
  component theories fill.
\<close>

section \<open>Machine types\<close>

type_synonym u8 = "8 word"
type_synonym u32 = "32 word"
type_synonym u64 = "64 word"
type_synonym size_t = "64 word"

section \<open>Undefined behaviour and other faults as values\<close>

text \<open>
  Where the source would execute undefined behaviour (reading an empty deque, copying out of
  a vector's bounds, running a handler of a destroyed object), call \<open>std::terminate\<close>, fail an
  assertion or throw, the model returns \<open>Inl\<close> of the fault; \<open>Blocked\<close> is a call that does not
  return because it waits for something that does not happen.
\<close>

datatype fault =
    EmptyDeque
  | OutOfBounds
  | NullDeref
  | AssertFailed
  | UseAfterFree
  | IteratorInvalidated
  | Blocked
  | Terminated
  | Fatal
  | Thrown string

type_synonym 'a result = "fault + 'a"

definition rbind :: "'a result \<Rightarrow> ('a \<Rightarrow> 'b result) \<Rightarrow> 'b result" where
  "rbind r f = (case r of Inl e \<Rightarrow> Inl e | Inr a \<Rightarrow> f a)"

lemma rbind_simps [simp]:
  "rbind (Inl e) f = Inl e"
  "rbind (Inr a) f = f a"
  by (simp_all add: rbind_def)

lemma rbind_Inr_conv: "rbind r f = Inr b \<longleftrightarrow> (\<exists>a. r = Inr a \<and> f a = Inr b)"
  by (cases r) auto

lemma rbind_InrE [elim!]:
  assumes "rbind r f = Inr b"
  obtains a where "r = Inr a" and "f a = Inr b"
  using assms by (auto simp: rbind_Inr_conv)

text \<open>Running a list of events through a fallible step stops at the first fault.\<close>

fun run_events :: "('e \<Rightarrow> 's \<Rightarrow> 's result) \<Rightarrow> 'e list \<Rightarrow> 's \<Rightarrow> 's result" where
  "run_events f [] s = Inr s"
| "run_events f (e # es) s = rbind (f e s) (run_events f es)"

lemma run_events_append:
  "run_events f (es @ fs) s = rbind (run_events f es s) (run_events f fs)"
proof (induction es arbitrary: s)
  case (Cons e es)
  then show ?case by (cases "f e s") simp_all
qed simp

text \<open>The invariant rule for runs: the step keeps the invariant and never faults under it.\<close>

lemma run_events_inv:
  assumes "\<And>e s. I s \<Longrightarrow> \<exists>s'. f e s = Inr s' \<and> I s'" and "I s"
  shows "\<exists>s'. run_events f es s = Inr s' \<and> I s'"
  using assms(2)
proof (induction es arbitrary: s)
  case (Cons e es)
  from assms(1) [OF Cons.prems] obtain s1 where s1: "f e s = Inr s1" "I s1" by blast
  with Cons.IH [OF s1(2)] show ?case by simp
qed simp

text \<open>A result that is a permitted fault or a value with a property, and the rules that carry it
  through a composition and a run.\<close>

definition outcome :: "fault set \<Rightarrow> ('a \<Rightarrow> bool) \<Rightarrow> 'a result \<Rightarrow> bool" where
  "outcome F I r = (case r of Inl t \<Rightarrow> t \<in> F | Inr a \<Rightarrow> I a)"

lemma outcome_simps [simp]: "outcome F I (Inl t) = (t \<in> F)" "outcome F I (Inr a) = I a"
  by (simp_all add: outcome_def)

lemma outcome_mono: "outcome F I r \<Longrightarrow> F \<subseteq> G \<Longrightarrow> (\<And>a. I a \<Longrightarrow> J a) \<Longrightarrow> outcome G J r"
  by (cases r) auto

lemma outcome_rbind:
  "outcome F I r \<Longrightarrow> (\<And>a. I a \<Longrightarrow> outcome F J (f a)) \<Longrightarrow> outcome F J (rbind r f)"
  by (cases r) auto

lemma outcome_Inr: "\<exists>a. r = Inr a \<and> I a \<Longrightarrow> outcome F I r"
  by auto

lemma run_events_outcome:
  assumes "\<And>e s. I s \<Longrightarrow> outcome F I (f e s)" and "I s"
  shows "outcome F I (run_events f es s)"
  using assms(2) by (induction es arbitrary: s) (auto intro!: outcome_rbind assms(1))

section \<open>Vectors and memory blocks\<close>

text \<open>\<open>std::vector::resize(n)\<close> on bytes: truncate, or append value-initialised elements.\<close>

definition vec_resize :: "nat \<Rightarrow> u8 list \<Rightarrow> u8 list" where
  "vec_resize n xs = take n xs @ replicate (n - length xs) 0"

text \<open>\<open>memcpy(v.data() + i, src, n)\<close>, with \<open>src\<close> the \<open>n\<close> bytes copied.\<close>

definition memcpy_at :: "nat \<Rightarrow> 'a list \<Rightarrow> 'a list \<Rightarrow> 'a list" where
  "memcpy_at i src xs = take i xs @ src @ drop (i + length src) xs"

lemma length_vec_resize [simp]: "length (vec_resize n xs) = n"
  by (simp add: vec_resize_def)

lemma vec_resize_shrink: "n \<le> length xs \<Longrightarrow> vec_resize n xs = take n xs"
  by (simp add: vec_resize_def)

lemma length_memcpy_at [simp]:
  "i + length src \<le> length xs \<Longrightarrow> length (memcpy_at i src xs) = length xs"
  by (simp add: memcpy_at_def)

lemma memcpy_at_resize:
  "memcpy_at (length xs) src (vec_resize (length xs + length src) xs) = xs @ src"
  by (simp add: memcpy_at_def vec_resize_def)

section \<open>Lists\<close>

lemma remove1_Cons_eq [simp]: "remove1 x (x # xs) = xs"
  by simp

lemma take_drop_length_append [simp]:
  "take (length xs) (xs @ ys) = xs" "drop (length xs) (xs @ ys) = ys"
  by simp_all

lemma count_list_distinct: "distinct xs \<Longrightarrow> count_list xs x = (if x \<in> set xs then 1 else 0)"
  by (induction xs) auto

lemma last_n_append:
  assumes "length xs \<le> n"
  shows "drop (length (ys @ xs) - n) (ys @ xs) = drop (length ys + length xs - n) ys @ xs"
  using assms by simp

lemma drop_snoc_window:
  assumes "n \<ge> 1"
  shows "drop (length (drop (length xs - n) xs @ [x]) - n) (drop (length xs - n) xs @ [x])
       = drop (length (xs @ [x]) - n) (xs @ [x])"
proof (cases "length xs < n")
  case True
  then show ?thesis by simp
next
  case False
  then have "length (drop (length xs - n) xs @ [x]) - n = 1" by simp
  moreover have "length (xs @ [x]) - n = Suc (length xs - n)"
    using False by simp
  ultimately show ?thesis
    using assms False by (simp add: drop_Suc drop_tl)
qed

end
