(* ===== verification/TsQueue.thy ===== *)
theory TsQueue
  imports Prelude
begin

text \<open>
  \<open>src/src/network/NetCommon/net_tsqueue.hpp\<close>, the operations: every method takes
  \<open>muxQueue\<close> for its whole body, so each is one atomic step on the deque. Reading or popping an
  empty \<open>std::deque\<close> is undefined behaviour. The blocking \<open>wait\<close> is in theory \<open>TsQueueWait\<close>.
\<close>

section \<open>State and operations\<close>

record 'a tsqueue =
  deqQueue :: "'a list"

definition new_tsqueue :: "'a tsqueue" where
  "new_tsqueue = \<lparr>deqQueue = []\<rparr>"

definition front :: "'a tsqueue \<Rightarrow> 'a result" where
  "front q = (case deqQueue q of [] \<Rightarrow> Inl EmptyDeque | x # _ \<Rightarrow> Inr x)"

definition back_q :: "'a tsqueue \<Rightarrow> 'a result" where
  "back_q q = (if deqQueue q = [] then Inl EmptyDeque else Inr (last (deqQueue q)))"

definition push_back :: "'a \<Rightarrow> 'a tsqueue \<Rightarrow> 'a tsqueue" where
  "push_back item q = q\<lparr>deqQueue := deqQueue q @ [item]\<rparr>"

definition push_front :: "'a \<Rightarrow> 'a tsqueue \<Rightarrow> 'a tsqueue" where
  "push_front item q = q\<lparr>deqQueue := item # deqQueue q\<rparr>"

definition empty :: "'a tsqueue \<Rightarrow> bool" where
  "empty q \<longleftrightarrow> deqQueue q = []"

definition count :: "'a tsqueue \<Rightarrow> size_t" where
  "count q = word_of_nat (length (deqQueue q))"

definition clear :: "'a tsqueue \<Rightarrow> 'a tsqueue" where
  "clear q = q\<lparr>deqQueue := []\<rparr>"

definition pop_front :: "'a tsqueue \<Rightarrow> ('a \<times> 'a tsqueue) result" where
  "pop_front q = (case deqQueue q of
       [] \<Rightarrow> Inl EmptyDeque
     | t # ts \<Rightarrow> Inr (t, q\<lparr>deqQueue := ts\<rparr>))"

definition pop_back :: "'a tsqueue \<Rightarrow> ('a \<times> 'a tsqueue) result" where
  "pop_back q =
     (if deqQueue q = [] then Inl EmptyDeque
      else Inr (last (deqQueue q), q\<lparr>deqQueue := butlast (deqQueue q)\<rparr>))"

section \<open>The queue interface\<close>

text \<open>
  What the connection, the client and the server rely on: a first-in first-out queue seen as
  the list of its items.
\<close>

locale fifo =
  fixes items :: "'q \<Rightarrow> 'a list"
    and enq :: "'a \<Rightarrow> 'q \<Rightarrow> 'q"
    and deq :: "'q \<Rightarrow> ('a \<times> 'q) result"
    and is_empty :: "'q \<Rightarrow> bool"
  assumes items_enq: "items (enq x q) = items q @ [x]"
    and deq_empty: "items q = [] \<Longrightarrow> deq q = Inl EmptyDeque"
    and deq_Cons: "items q = x # xs \<Longrightarrow> \<exists>q'. deq q = Inr (x, q') \<and> items q' = xs"
    and is_empty_iff: "is_empty q \<longleftrightarrow> items q = []"
begin

text \<open>The consumer's loop: take up to \<open>n\<close> items while there are any.\<close>

primrec drain :: "nat \<Rightarrow> 'q \<Rightarrow> ('a list \<times> 'q) result" where
  "drain 0 q = Inr ([], q)"
| "drain (Suc n) q =
     (if is_empty q then Inr ([], q)
      else rbind (deq q) (\<lambda>(x, q'). rbind (drain n q') (\<lambda>(xs, q''). Inr (x # xs, q''))))"

lemma deq_guarded: "\<not> is_empty q \<Longrightarrow> \<exists>x q'. deq q = Inr (x, q') \<and> items q = x # items q'"
  using deq_Cons by (cases "items q") (fastforce simp: is_empty_iff)+

lemma drain_takes: "\<exists>q'. drain n q = Inr (take n (items q), q') \<and> items q' = drop n (items q)"
proof (induction n arbitrary: q)
  case (Suc n)
  show ?case
  proof (cases "is_empty q")
    case True
    moreover from True have "items q = []" by (simp add: is_empty_iff)
    ultimately show ?thesis by simp
  next
    case False
    with deq_guarded obtain x q1 where "deq q = Inr (x, q1)" "items q = x # items q1" by blast
    with False Suc.IH [of q1] show ?thesis by auto
  qed
qed simp

lemma items_fold_enq: "items (fold enq xs q) = items q @ xs"
  by (induction xs arbitrary: q) (simp_all add: items_enq)

lemma produced_then_drained:
  assumes "items q = []"
  shows "\<exists>q'. drain (length xs) (fold enq xs q) = Inr (xs, q') \<and> items q' = []"
  using drain_takes [of "length xs" "fold enq xs q"] assms by (simp add: items_fold_enq)

end

text \<open>A double-ended queue is a queue whose ends can also be used the other way round.\<close>

locale double_ended = fifo items enq deq is_empty
  for items :: "'q \<Rightarrow> 'a list" and enq and deq and is_empty +
  fixes enq_front :: "'a \<Rightarrow> 'q \<Rightarrow> 'q"
    and deq_back :: "'q \<Rightarrow> ('a \<times> 'q) result"
  assumes items_enq_front: "items (enq_front x q) = x # items q"
    and deq_back_empty: "items q = [] \<Longrightarrow> deq_back q = Inl EmptyDeque"
    and deq_back_snoc: "items q = xs @ [x] \<Longrightarrow> \<exists>q'. deq_back q = Inr (x, q') \<and> items q' = xs"
begin

lemma deq_enq_front: "\<exists>q'. deq (enq_front x q) = Inr (x, q') \<and> items q' = items q"
  using deq_Cons items_enq_front by simp

lemma deq_back_enq: "\<exists>q'. deq_back (enq x q) = Inr (x, q') \<and> items q' = items q"
  using deq_back_snoc items_enq by simp

end

lemmas tsqueue_defs = new_tsqueue_def front_def back_q_def push_back_def push_front_def empty_def
  count_def clear_def pop_front_def pop_back_def

interpretation tsq: fifo deqQueue push_back pop_front empty
  by unfold_locales (simp_all add: tsqueue_defs)

interpretation tsdeq: double_ended deqQueue push_back pop_front empty push_front pop_back
  by unfold_locales (simp_all add: tsqueue_defs)

lemma tsqueue_items_simps [simp]:
  "deqQueue new_tsqueue = []"
  "deqQueue (push_back x q) = deqQueue q @ [x]"
  "deqQueue (push_front x q) = x # deqQueue q"
  "deqQueue (clear q) = []"
  by (simp_all add: tsqueue_defs)

lemma front_push_back [simp]:
  "deqQueue q = x # xs \<Longrightarrow> front (push_back y q) = Inr x"
  by (simp add: tsqueue_defs)

lemma tsqueue_eqI: "deqQueue (q :: 'a tsqueue) = deqQueue q' \<Longrightarrow> q = q'"
  by simp

section \<open>Properties\<close>

text \<open>The queue is first-in first-out: the items a producer pushes at the back are popped
  from the front in the same order, none lost or duplicated, and the queue is empty again.\<close>

lemma tsqueue_fifo:
  "\<exists>q'. tsq.drain (length xs) (fold push_back xs new_tsqueue) = Inr (xs, q') \<and> empty q'"
  using tsq.produced_then_drained [of new_tsqueue xs] by (auto simp: tsq.is_empty_iff)

text \<open>Each accessor and each pop is undefined on an empty queue and only there; guarded by
  \<open>empty\<close> (as every caller guards them) they return the item at their end, and the number of
  items \<open>count\<close> reports goes down by one with a pop.\<close>

lemma tsqueue_guarded:
  "empty q = (front q = Inl EmptyDeque) \<and> empty q = (back_q q = Inl EmptyDeque)
   \<and> empty q = (pop_front q = Inl EmptyDeque) \<and> empty q = (pop_back q = Inl EmptyDeque)
   \<and> (\<not> empty q) = (\<exists>x q'. pop_front q = Inr (x, q') \<and> front q = Inr x
      \<and> q = push_front x q' \<and> count q' = count q - 1)
   \<and> (\<not> empty q) = (\<exists>x q'. pop_back q = Inr (x, q') \<and> back_q q = Inr x
      \<and> q = push_back x q' \<and> count q' = count q - 1)"
proof (intro conjI)
  obtain xs where q: "q = \<lparr>deqQueue = xs\<rparr>" by (cases q) simp
  show "empty q = (front q = Inl EmptyDeque)" "empty q = (back_q q = Inl EmptyDeque)"
    "empty q = (pop_front q = Inl EmptyDeque)" "empty q = (pop_back q = Inl EmptyDeque)"
    by (auto simp: tsqueue_defs split: list.splits)
  show "(\<not> empty q) = (\<exists>x q'. pop_front q = Inr (x, q') \<and> front q = Inr x
      \<and> q = push_front x q' \<and> count q' = count q - 1)"
    by (cases xs) (simp_all add: q tsqueue_defs)
  show "(\<not> empty q) = (\<exists>x q'. pop_back q = Inr (x, q') \<and> back_q q = Inr x
      \<and> q = push_back x q' \<and> count q' = count q - 1)"
    by (cases xs rule: rev_cases) (simp_all add: q tsqueue_defs)
qed

end
