(* ===== verification/TsQueueWait.thy ===== *)
theory TsQueueWait
  imports TsQueue
begin

text \<open>
  \<open>tsqueue::wait\<close>, \<open>push_back\<close> and \<open>pop_front\<close> of \<open>net_tsqueue.hpp\<close> with their two mutexes
  and the condition variable, interleaved: any number of producers (the I/O handlers, running
  \<open>push_back\<close>) and one consumer (the thread of \<open>server_interface::Update\<close>, running \<open>wait\<close>, then
  testing \<open>empty\<close> and calling \<open>pop_front\<close>). Every lock, unlock, test and notification is a
  step of its own. A condition variable releases its mutex and starts waiting in one step, and
  may wake up spuriously.
\<close>

section \<open>Threads and locks\<close>

datatype thread = Consumer | Producer nat

text \<open>Where a producer is inside \<open>push_back(item)\<close>.\<close>

datatype 'a ppc =
    PIdle
  | PLocked 'a     \<comment> \<open>holds \<open>muxQueue\<close>\<close>
  | PPushed        \<comment> \<open>item emplaced, still holds \<open>muxQueue\<close>\<close>
  | PBoth          \<comment> \<open>holds both mutexes, about to notify\<close>
  | PNotified      \<comment> \<open>notified, holds both mutexes\<close>
  | PReleasing     \<comment> \<open>released \<open>muxBlocking\<close>, holds \<open>muxQueue\<close>\<close>

text \<open>Where the consumer is: in \<open>wait\<close>, or after it, popping while the queue is not empty.\<close>

datatype cpc =
    CTest          \<comment> \<open>about to call \<open>empty()\<close>\<close>
  | CTesting       \<comment> \<open>inside \<open>empty()\<close>, holds \<open>muxQueue\<close>\<close>
  | CFound         \<comment> \<open>\<open>empty()\<close> returned false\<close>
  | CEmpty         \<comment> \<open>\<open>empty()\<close> returned true\<close>
  | CBlocking      \<comment> \<open>holds \<open>muxBlocking\<close>, about to call \<open>cvBlocking.wait\<close>\<close>
  | CWaiting       \<comment> \<open>asleep in \<open>cvBlocking.wait\<close>\<close>
  | CWoken         \<comment> \<open>woken, needs \<open>muxBlocking\<close> back\<close>
  | CRelocked      \<comment> \<open>\<open>wait\<close> returned, holds \<open>muxBlocking\<close> until the end of the loop body\<close>
  | CPopping       \<comment> \<open>inside \<open>pop_front()\<close>, holds \<open>muxQueue\<close>\<close>

record 'a sync_state =
  queue :: "'a tsqueue"
  muxQueue :: "thread option"
  muxBlocking :: "thread option"
  consumer :: cpc
  producers :: "nat \<Rightarrow> 'a ppc"
  popped_empty :: bool   \<comment> \<open>a pop ran on an empty deque\<close>

definition sync_init :: "'a sync_state" where
  "sync_init = \<lparr>queue = new_tsqueue, muxQueue = None, muxBlocking = None,
     consumer = CTest, producers = (\<lambda>_. PIdle), popped_empty = False\<rparr>"

section \<open>Steps\<close>

definition set_producer :: "nat \<Rightarrow> 'a ppc \<Rightarrow> 'a sync_state \<Rightarrow> 'a sync_state" where
  "set_producer i p s = s\<lparr>producers := (producers s)(i := p)\<rparr>"

text \<open>The body of \<open>push_back\<close>, one step at a time. \<open>None\<close> means the thread blocks here.\<close>

fun producer_next :: "nat \<Rightarrow> 'a ppc \<Rightarrow> 'a sync_state \<Rightarrow> 'a sync_state option" where
  "producer_next i PIdle s = None"
| "producer_next i (PLocked item) s =
     Some (set_producer i PPushed (s\<lparr>queue := push_back item (queue s)\<rparr>))"
| "producer_next i PPushed s =
     (if muxBlocking s = None
      then Some (set_producer i PBoth (s\<lparr>muxBlocking := Some (Producer i)\<rparr>)) else None)"
| "producer_next i PBoth s =
     Some (set_producer i PNotified
       (if consumer s = CWaiting then s\<lparr>consumer := CWoken\<rparr> else s))"
| "producer_next i PNotified s = Some (set_producer i PReleasing (s\<lparr>muxBlocking := None\<rparr>))"
| "producer_next i PReleasing s = Some (set_producer i PIdle (s\<lparr>muxQueue := None\<rparr>))"

text \<open>The consumer: \<open>wait\<close>'s loop, then \<open>pop_front\<close> once \<open>empty()\<close> was false.\<close>

fun consumer_next :: "cpc \<Rightarrow> 'a sync_state \<Rightarrow> 'a sync_state option" where
  "consumer_next CTest s =
     (if muxQueue s = None
      then Some (s\<lparr>consumer := CTesting, muxQueue := Some Consumer\<rparr>) else None)"
| "consumer_next CTesting s =
     Some (s\<lparr>consumer := (if empty (queue s) then CEmpty else CFound), muxQueue := None\<rparr>)"
| "consumer_next CEmpty s =
     (if muxBlocking s = None
      then Some (s\<lparr>consumer := CBlocking, muxBlocking := Some Consumer\<rparr>) else None)"
| "consumer_next CBlocking s = Some (s\<lparr>consumer := CWaiting, muxBlocking := None\<rparr>)"
| "consumer_next CWaiting s = None"
| "consumer_next CWoken s =
     (if muxBlocking s = None
      then Some (s\<lparr>consumer := CRelocked, muxBlocking := Some Consumer\<rparr>) else None)"
| "consumer_next CRelocked s = Some (s\<lparr>consumer := CTest, muxBlocking := None\<rparr>)"
| "consumer_next CFound s =
     (if muxQueue s = None
      then Some (s\<lparr>consumer := CPopping, muxQueue := Some Consumer\<rparr>) else None)"
| "consumer_next CPopping s =
     Some (case pop_front (queue s) of
         Inl _ \<Rightarrow> s\<lparr>consumer := CTest, muxQueue := None, popped_empty := True\<rparr>
       | Inr (_, q) \<Rightarrow> s\<lparr>consumer := CTest, muxQueue := None, queue := q\<rparr>)"

text \<open>
  A step: a producer starts a call of \<open>push_back\<close> (takes \<open>muxQueue\<close>), a thread goes on, or the
  wait ends spuriously.
\<close>

inductive sync_step :: "'a sync_state \<Rightarrow> 'a sync_state \<Rightarrow> bool" where
  start_push: "producers s i = PIdle \<Longrightarrow> muxQueue s = None \<Longrightarrow>
     sync_step s (set_producer i (PLocked item) (s\<lparr>muxQueue := Some (Producer i)\<rparr>))"
| producer: "producer_next i (producers s i) s = Some s' \<Longrightarrow> sync_step s s'"
| consumer: "consumer_next (consumer s) s = Some s' \<Longrightarrow> sync_step s s'"
| spurious: "consumer s = CWaiting \<Longrightarrow> sync_step s (s\<lparr>consumer := CWoken\<rparr>)"

inductive sync_reachable :: "'a sync_state \<Rightarrow> bool" where
  sync_start: "sync_reachable sync_init"
| sync_next: "sync_reachable s \<Longrightarrow> sync_step s s' \<Longrightarrow> sync_reachable s'"

section \<open>The locking invariant\<close>

fun holds_queue :: "'a ppc \<Rightarrow> bool" where
  "holds_queue PIdle = False"
| "holds_queue _ = True"

fun holds_blocking :: "'a ppc \<Rightarrow> bool" where
  "holds_blocking PBoth = True"
| "holds_blocking PNotified = True"
| "holds_blocking _ = False"

lemma holds_queue_iff: "holds_queue p \<longleftrightarrow> p \<noteq> PIdle"
  by (cases p) simp_all

lemma holds_blocking_queue: "holds_blocking p \<Longrightarrow> holds_queue p"
  by (cases p) simp_all

text \<open>
  Each mutex is held by the thread that is at a place where it holds it; split into the four
  combinations of mutex and kind of thread, so that each step touches few of them.
\<close>

definition queue_lock_inv :: "thread option \<Rightarrow> (nat \<Rightarrow> 'a ppc) \<Rightarrow> cpc \<Rightarrow> bool" where
  "queue_lock_inv mq ps c \<longleftrightarrow>
     (\<forall>i. holds_queue (ps i) \<longleftrightarrow> mq = Some (Producer i)) \<and>
     (c \<in> {CTesting, CPopping} \<longleftrightarrow> mq = Some Consumer)"

definition blocking_lock_inv :: "thread option \<Rightarrow> (nat \<Rightarrow> 'a ppc) \<Rightarrow> cpc \<Rightarrow> bool" where
  "blocking_lock_inv mb ps c \<longleftrightarrow>
     (\<forall>i. holds_blocking (ps i) \<longleftrightarrow> mb = Some (Producer i)) \<and>
     (c \<in> {CBlocking, CRelocked} \<longleftrightarrow> mb = Some Consumer)"

definition pop_inv :: "'a sync_state \<Rightarrow> bool" where
  "pop_inv s \<longleftrightarrow> (consumer s \<in> {CFound, CPopping} \<longrightarrow> deqQueue (queue s) \<noteq> []) \<and> \<not> popped_empty s"

definition sync_inv :: "'a sync_state \<Rightarrow> bool" where
  "sync_inv s \<longleftrightarrow>
     queue_lock_inv (muxQueue s) (producers s) (consumer s) \<and>
     blocking_lock_inv (muxBlocking s) (producers s) (consumer s) \<and> pop_inv s"

lemma queue_lock_upd:
  assumes "queue_lock_inv mq ps c"
  shows "holds_queue (ps i) = holds_queue p \<Longrightarrow> queue_lock_inv mq (ps(i := p)) c"
    and "mq = None \<Longrightarrow> holds_queue p \<Longrightarrow> queue_lock_inv (Some (Producer i)) (ps(i := p)) c"
    and "mq = Some (Producer i) \<Longrightarrow> \<not> holds_queue p \<Longrightarrow> queue_lock_inv None (ps(i := p)) c"
    and "mq = None \<Longrightarrow> c' \<in> {CTesting, CPopping} \<Longrightarrow> queue_lock_inv (Some Consumer) ps c'"
    and "mq = Some Consumer \<Longrightarrow> c' \<notin> {CTesting, CPopping} \<Longrightarrow> queue_lock_inv None ps c'"
    and "c \<notin> {CTesting, CPopping} \<Longrightarrow> c' \<notin> {CTesting, CPopping} \<Longrightarrow> queue_lock_inv mq ps c'"
  using assms unfolding queue_lock_inv_def by auto

lemma blocking_lock_upd:
  assumes "blocking_lock_inv mb ps c"
  shows "holds_blocking (ps i) = holds_blocking p \<Longrightarrow> blocking_lock_inv mb (ps(i := p)) c"
    and "mb = None \<Longrightarrow> holds_blocking p \<Longrightarrow> blocking_lock_inv (Some (Producer i)) (ps(i := p)) c"
    and "mb = Some (Producer i) \<Longrightarrow> \<not> holds_blocking p \<Longrightarrow> blocking_lock_inv None (ps(i := p)) c"
    and "mb = None \<Longrightarrow> c' \<in> {CBlocking, CRelocked} \<Longrightarrow> blocking_lock_inv (Some Consumer) ps c'"
    and "mb = Some Consumer \<Longrightarrow> c' \<notin> {CBlocking, CRelocked} \<Longrightarrow> blocking_lock_inv None ps c'"
    and "c \<notin> {CBlocking, CRelocked} \<Longrightarrow> c' \<notin> {CBlocking, CRelocked} \<Longrightarrow> blocking_lock_inv mb ps c'"
  using assms unfolding blocking_lock_inv_def by auto

lemma queue_lock_producer: "queue_lock_inv mq ps c \<Longrightarrow> holds_queue (ps i) \<longleftrightarrow> mq = Some (Producer i)"
  by (simp add: queue_lock_inv_def)

lemma blocking_lock_producer:
  "blocking_lock_inv mb ps c \<Longrightarrow> holds_blocking (ps i) \<longleftrightarrow> mb = Some (Producer i)"
  by (simp add: blocking_lock_inv_def)

lemma queue_lock_consumer: "queue_lock_inv mq ps c \<Longrightarrow> c \<in> {CTesting, CPopping} \<longleftrightarrow> mq = Some Consumer"
  by (simp add: queue_lock_inv_def)

lemma blocking_lock_consumer:
  "blocking_lock_inv mb ps c \<Longrightarrow> c \<in> {CBlocking, CRelocked} \<longleftrightarrow> mb = Some Consumer"
  by (simp add: blocking_lock_inv_def)

lemma sync_inv_init: "sync_inv sync_init"
  by (simp add: sync_inv_def queue_lock_inv_def blocking_lock_inv_def pop_inv_def sync_init_def)

lemma producer_next_inv:
  assumes inv: "sync_inv s" and s': "producer_next i (producers s i) s = Some s'"
  shows "sync_inv s'"
proof -
  let ?p = "producers s i"
  have q: "queue_lock_inv (muxQueue s) (producers s) (consumer s)"
    and b: "blocking_lock_inv (muxBlocking s) (producers s) (consumer s)" and pop: "pop_inv s"
    using inv by (simp_all add: sync_inv_def)
  have wq: "consumer s = CWaiting \<Longrightarrow> queue_lock_inv (muxQueue s) (producers s) CWoken"
    by (rule queue_lock_upd(6) [OF q]) simp_all
  have wb: "consumer s = CWaiting \<Longrightarrow> blocking_lock_inv (muxBlocking s) (producers s) CWoken"
    by (rule blocking_lock_upd(6) [OF b]) simp_all
  note qi = queue_lock_producer [OF q, of i] and bi = blocking_lock_producer [OF b, of i]
  show ?thesis
  proof (cases ?p)
    case PIdle
    with s' show ?thesis by simp
  next
    case (PLocked x)
    have "queue_lock_inv (muxQueue s) ((producers s)(i := PPushed)) (consumer s)"
      "blocking_lock_inv (muxBlocking s) ((producers s)(i := PPushed)) (consumer s)"
      by (rule queue_lock_upd(1) [OF q] blocking_lock_upd(1) [OF b]; simp add: PLocked)+
    with s' pop PLocked show ?thesis by (auto simp: sync_inv_def pop_inv_def set_producer_def)
  next
    case PPushed
    have "queue_lock_inv (muxQueue s) ((producers s)(i := PBoth)) (consumer s)"
      by (rule queue_lock_upd(1) [OF q]) (simp add: PPushed)
    moreover have "muxBlocking s = None \<Longrightarrow>
        blocking_lock_inv (Some (Producer i)) ((producers s)(i := PBoth)) (consumer s)"
      by (rule blocking_lock_upd(2) [OF b]) simp_all
    ultimately show ?thesis using s' pop PPushed
      by (auto simp: sync_inv_def pop_inv_def set_producer_def split: if_splits)
  next
    case PBoth
    have *: "queue_lock_inv (muxQueue s) ((producers s)(i := PNotified)) c \<and>
        blocking_lock_inv (muxBlocking s) ((producers s)(i := PNotified)) c"
      if "queue_lock_inv (muxQueue s) (producers s) c" "blocking_lock_inv (muxBlocking s) (producers s) c" for c
      using queue_lock_upd(1) [OF that(1), of i PNotified] blocking_lock_upd(1) [OF that(2), of i PNotified]
      by (simp add: PBoth)
    show ?thesis
    proof (cases "consumer s = CWaiting")
      case True
      then show ?thesis using * [OF wq wb] s' pop PBoth
        by (auto simp: sync_inv_def pop_inv_def set_producer_def)
    next
      case False
      then show ?thesis using * [OF q b] s' pop PBoth
        by (auto simp: sync_inv_def pop_inv_def set_producer_def)
    qed
  next
    case PNotified
    have "queue_lock_inv (muxQueue s) ((producers s)(i := PReleasing)) (consumer s)"
      by (rule queue_lock_upd(1) [OF q]) (simp add: PNotified)
    moreover have "blocking_lock_inv None ((producers s)(i := PReleasing)) (consumer s)"
      by (rule blocking_lock_upd(3) [OF b]) (use bi PNotified in simp_all)
    ultimately show ?thesis using s' pop PNotified
      by (auto simp: sync_inv_def pop_inv_def set_producer_def)
  next
    case PReleasing
    have "queue_lock_inv None ((producers s)(i := PIdle)) (consumer s)"
      by (rule queue_lock_upd(3) [OF q]) (use qi PReleasing in simp_all)
    moreover have "blocking_lock_inv (muxBlocking s) ((producers s)(i := PIdle)) (consumer s)"
      by (rule blocking_lock_upd(1) [OF b]) (simp add: PReleasing)
    ultimately show ?thesis using s' pop PReleasing
      by (auto simp: sync_inv_def pop_inv_def set_producer_def)
  qed
qed

lemma consumer_next_inv:
  assumes inv: "sync_inv s" and s': "consumer_next (consumer s) s = Some s'"
  shows "sync_inv s'"
proof -
  have q: "queue_lock_inv (muxQueue s) (producers s) (consumer s)"
    and b: "blocking_lock_inv (muxBlocking s) (producers s) (consumer s)" and pop: "pop_inv s"
    using inv by (simp_all add: sync_inv_def)
  note qc = queue_lock_consumer [OF q] and bc = blocking_lock_consumer [OF b]
  show ?thesis
  proof (cases "consumer s = CPopping")
    case True
    then obtain x q1 where "pop_front (queue s) = Inr (x, q1)"
      using pop tsq.deq_guarded [of "queue s"] by (auto simp: pop_inv_def empty_def)
    with True s' pop qc show ?thesis
      by (auto simp: sync_inv_def pop_inv_def
          intro!: queue_lock_upd(5) [OF q] blocking_lock_upd(6) [OF b])
  next
    case False
    with s' pop qc bc show ?thesis
      by (cases "consumer s")
        (auto simp: sync_inv_def pop_inv_def empty_def split: if_splits
          intro!: queue_lock_upd(4-6) [OF q] blocking_lock_upd(4-6) [OF b])
  qed
qed

lemma sync_step_inv: "sync_step s s' \<Longrightarrow> sync_inv s \<Longrightarrow> sync_inv s'"
proof (induction rule: sync_step.induct)
  case (start_push s i item)
  then show ?case
    by (auto simp: sync_inv_def pop_inv_def set_producer_def intro: queue_lock_upd(2) blocking_lock_upd(1))
next
  case (spurious s)
  then show ?case
    by (auto simp: sync_inv_def pop_inv_def intro: queue_lock_upd(6) blocking_lock_upd(6))
qed (auto intro: producer_next_inv consumer_next_inv)

lemma sync_reachable_inv: "sync_reachable s \<Longrightarrow> sync_inv s"
  by (induction rule: sync_reachable.induct) (auto intro: sync_inv_init sync_step_inv)

section \<open>Executing a schedule\<close>

datatype 'a move = StartPush nat 'a | GoProducer nat | GoConsumer

fun do_move :: "'a move \<Rightarrow> 'a sync_state \<Rightarrow> 'a sync_state option" where
  "do_move (StartPush i x) s =
     (if muxQueue s = None \<and> (case producers s i of PIdle \<Rightarrow> True | _ \<Rightarrow> False)
      then Some (set_producer i (PLocked x) (s\<lparr>muxQueue := Some (Producer i)\<rparr>)) else None)"
| "do_move (GoProducer i) s = producer_next i (producers s i) s"
| "do_move GoConsumer s = consumer_next (consumer s) s"

fun do_moves :: "'a move list \<Rightarrow> 'a sync_state \<Rightarrow> 'a sync_state option" where
  "do_moves [] s = Some s"
| "do_moves (m # ms) s = (case do_move m s of None \<Rightarrow> None | Some s' \<Rightarrow> do_moves ms s')"

lemma do_move_step: "do_move m s = Some s' \<Longrightarrow> sync_step s s'"
  by (cases m) (auto intro: sync_step.intros split: if_splits ppc.splits)

lemma do_moves_reachable: "sync_reachable s \<Longrightarrow> do_moves ms s = Some s' \<Longrightarrow> sync_reachable s'"
proof (induction ms arbitrary: s)
  case (Cons m ms)
  then show ?case by (auto split: option.splits dest: do_move_step intro: sync_next)
qed simp

text \<open>The schedule of a lost wake-up: the item arrives between the test and the wait.\<close>

definition lost_wakeup_moves :: "nat move list" where
  "lost_wakeup_moves = [GoConsumer, GoConsumer, StartPush 0 7, GoProducer 0, GoProducer 0,
     GoProducer 0, GoProducer 0, GoProducer 0, GoConsumer, GoConsumer]"

lemma lost_wakeup_result:
  "\<exists>s. do_moves lost_wakeup_moves sync_init = Some s \<and> consumer s = CWaiting
     \<and> deqQueue (queue s) = [7] \<and> (\<forall>i. producers s i = PIdle)
     \<and> muxQueue s = None \<and> muxBlocking s = None"
  by (simp add: lost_wakeup_moves_def sync_init_def set_producer_def tsqueue_defs)

section \<open>Properties\<close>

text \<open>C14: with one consumer, mutual exclusion holds on both mutexes, \<open>wait\<close> only lets the
  consumer through when there is an item, and the item is still there when it is popped: no
  reachable state has popped an empty deque, whatever the producers do.\<close>

theorem wait_then_pop_is_safe:
  assumes "sync_reachable s"
  shows "\<not> popped_empty s
    \<and> (consumer s \<in> {CFound, CPopping} \<longrightarrow> \<not> empty (queue s))
    \<and> (holds_queue (producers s i) \<and> holds_queue (producers s j) \<longrightarrow> i = j)
    \<and> (holds_blocking (producers s i) \<longrightarrow> consumer s \<notin> {CBlocking, CRelocked, CTesting, CPopping})"
  using sync_reachable_inv [OF assms] holds_blocking_queue [of "producers s i"]
  by (auto simp: sync_inv_def queue_lock_inv_def blocking_lock_inv_def pop_inv_def empty_def)

theorem wait_then_pop_is_safe_witness:
  "\<exists>s :: nat sync_state. sync_reachable s \<and> consumer s = CWaiting \<and> \<not> popped_empty s"
proof -
  obtain s :: "nat sync_state" where s: "do_moves lost_wakeup_moves sync_init = Some s" "consumer s = CWaiting"
    using lost_wakeup_result by blast
  then have "sync_reachable s" by (blast intro: do_moves_reachable sync_start)
  with wait_then_pop_is_safe [OF this] s show ?thesis by blast
qed

text \<open>C40: the two mutexes cannot deadlock: in every reachable state some thread that is inside
  an operation can go on, unless every producer is idle and the consumer sleeps in
  \<open>cvBlocking.wait\<close> (the consumer never holds one mutex while it asks for the other).\<close>

theorem tsqueue_no_deadlock:
  assumes "sync_reachable s"
  shows "(\<exists>i s'. producer_next i (producers s i) s = Some s')
       \<or> (\<exists>s'. consumer_next (consumer s) s = Some s')
       \<or> (consumer s = CWaiting \<and> (\<forall>i. producers s i = PIdle))"
proof -
  have q: "queue_lock_inv (muxQueue s) (producers s) (consumer s)"
    and b: "blocking_lock_inv (muxBlocking s) (producers s) (consumer s)"
    using sync_reachable_inv [OF assms] by (simp_all add: sync_inv_def)
  note qi = queue_lock_producer [OF q] and bi = blocking_lock_producer [OF b]
  show ?thesis
  proof (cases "\<exists>i. producers s i \<noteq> PIdle")
    case True
    then obtain i where i: "producers s i \<noteq> PIdle" by blast
    then have mq: "muxQueue s = Some (Producer i)" using qi [of i] by (simp add: holds_queue_iff)
    show ?thesis
    proof (cases "producers s i = PPushed \<and> muxBlocking s \<noteq> None")
      case False
      with i show ?thesis by (intro disjI1 exI [of _ i]) (cases "producers s i"; auto)
    next
      case True
      then have "muxBlocking s \<noteq> Some (Producer j)" for j
        using bi [of j] qi [of j] mq holds_blocking_queue [of "producers s j"] by auto
      then have "muxBlocking s = Some Consumer" using True by (metis not_Some_eq thread.exhaust)
      then have "consumer s \<in> {CBlocking, CRelocked}" using blocking_lock_consumer [OF b] by simp
      then show ?thesis by auto
    qed
  next
    case False
    then have "muxQueue s \<noteq> Some (Producer i)" "muxBlocking s \<noteq> Some (Producer i)" for i
      using qi [of i] bi [of i] by auto
    then have m: "muxQueue s = None \<or> muxQueue s = Some Consumer"
      "muxBlocking s = None \<or> muxBlocking s = Some Consumer"
      by (metis option.exhaust thread.exhaust)+
    show ?thesis using m False queue_lock_consumer [OF q] blocking_lock_consumer [OF b]
      by (cases "consumer s") auto
  qed
qed

theorem tsqueue_no_deadlock_witness:
  "\<exists>s'. consumer_next (consumer (sync_init :: nat sync_state)) sync_init = Some s'"
  using tsqueue_no_deadlock [OF sync_start, where 'a = nat] by (auto simp: sync_init_def)

text \<open>\<open>wait\<close> can miss its wake-up. The emptiness test and the wait are not under one mutex, so
  an item pushed (and notified) between them leaves the consumer asleep with an item in the
  queue, every producer done and no thread able to go on but for a spurious wake-up or another
  push.\<close>

lemma wait_loses_wakeup:
  "\<exists>s :: nat sync_state. sync_reachable s \<and> consumer s = CWaiting \<and> \<not> empty (queue s)
     \<and> consumer_next (consumer s) s = None
     \<and> (\<forall>i. producers s i = PIdle \<and> producer_next i (producers s i) s = None)"
proof -
  obtain s :: "nat sync_state" where s: "do_moves lost_wakeup_moves sync_init = Some s"
    "consumer s = CWaiting" "deqQueue (queue s) = [7]" "\<forall>i. producers s i = PIdle"
    using lost_wakeup_result by blast
  then have "sync_reachable s" by (blast intro: do_moves_reachable sync_start)
  with s show ?thesis by (intro exI [of _ s]) (simp add: empty_def)
qed

end
