(* ===== verification/Bytes.thy ===== *)
theory Bytes
  imports Prelude
begin

text \<open>
  Object representations: the little-endian bytes of the fixed-width integers the program
  sends over the wire, and the interface of a \<^emph>\<open>plain old data\<close> type, which is all that the
  message buffer of \<open>net_message.hpp\<close> relies on (the \<open>static_assert\<close> on standard layout).
\<close>

section \<open>Little-endian byte strings\<close>

fun nat_le :: "nat \<Rightarrow> nat \<Rightarrow> u8 list" where
  "nat_le 0 x = []"
| "nat_le (Suc n) x = word_of_nat (x mod 256) # nat_le n (x div 256)"

fun le_nat :: "u8 list \<Rightarrow> nat" where
  "le_nat [] = 0"
| "le_nat (b # bs) = unat b + 256 * le_nat bs"

lemma length_nat_le [simp]: "length (nat_le n x) = n"
  by (induction n arbitrary: x) simp_all

lemma unat_u8_mod [simp]: "unat (word_of_nat (x mod 256) :: u8) = x mod 256"
  by (simp add: unat_of_nat)

lemma le_nat_nat_le: "le_nat (nat_le n x) = x mod 256 ^ n"
proof (induction n arbitrary: x)
  case (Suc n)
  have "x mod (256 * 256 ^ n) = 256 * (x div 256 mod 256 ^ n) + x mod 256"
    by (rule mod_mult2_eq)
  with Suc.IH show ?case by simp
qed simp

lemma unat_u8_less: "unat (b :: u8) < 256"
  using unsigned_less [of b, where ?'a = nat] by simp

lemma nat_le_le_nat: "nat_le (length bs) (le_nat bs) = bs"
  by (induction bs) (simp_all add: unat_u8_less)

lemma digit_less: "u < 256 \<Longrightarrow> n < N \<Longrightarrow> u + 256 * n < 256 * (N :: nat)"
  by linarith

lemma le_nat_less: "le_nat bs < 256 ^ length bs"
proof (induction bs)
  case (Cons b bs)
  show ?case using digit_less [OF unat_u8_less Cons.IH] by simp
qed simp

lemma nat_le_0: "nat_le n 0 = replicate n 0"
  by (induction n) simp_all

lemma le_nat_zeros: "le_nat (replicate n 0) = 0"
  by (induction n) simp_all

definition u32_bytes :: "u32 \<Rightarrow> u8 list" where
  "u32_bytes w = nat_le 4 (unat w)"

definition bytes_u32 :: "u8 list \<Rightarrow> u32" where
  "bytes_u32 bs = word_of_nat (le_nat bs)"

definition u64_bytes :: "u64 \<Rightarrow> u8 list" where
  "u64_bytes w = nat_le 8 (unat w)"

definition bytes_u64 :: "u8 list \<Rightarrow> u64" where
  "bytes_u64 bs = word_of_nat (le_nat bs)"

lemma unat_u32_mod: "unat (w :: u32) mod 4294967296 = unat w"
  using unsigned_less [of w, where ?'a = nat] by simp

lemma unat_u64_mod: "unat (w :: u64) mod 18446744073709551616 = unat w"
  using unsigned_less [of w, where ?'a = nat] by simp

lemma length_u32_bytes [simp]: "length (u32_bytes w) = 4"
  by (simp add: u32_bytes_def)

lemma length_u64_bytes [simp]: "length (u64_bytes w) = 8"
  by (simp add: u64_bytes_def)

lemma bytes_u32_bytes [simp]: "bytes_u32 (u32_bytes w) = w"
  by (simp add: bytes_u32_def u32_bytes_def le_nat_nat_le unat_u32_mod)

lemma bytes_u64_bytes [simp]: "bytes_u64 (u64_bytes w) = w"
  by (simp add: bytes_u64_def u64_bytes_def le_nat_nat_le unat_u64_mod)

lemma u32_bytes_bytes:
  assumes "length bs = 4"
  shows "u32_bytes (bytes_u32 bs) = bs"
proof -
  have "le_nat bs < 4294967296" using le_nat_less [of bs] assms by simp
  then have "unat (bytes_u32 bs) = le_nat bs"
    by (simp add: bytes_u32_def unat_of_nat)
  with assms nat_le_le_nat [of bs] show ?thesis by (simp add: u32_bytes_def)
qed

lemma u64_bytes_bytes:
  assumes "length bs = 8"
  shows "u64_bytes (bytes_u64 bs) = bs"
proof -
  have "le_nat bs < 18446744073709551616" using le_nat_less [of bs] assms by simp
  then have "unat (bytes_u64 bs) = le_nat bs"
    by (simp add: bytes_u64_def unat_of_nat)
  with assms nat_le_le_nat [of bs] show ?thesis by (simp add: u64_bytes_def)
qed

section \<open>The interface of a standard-layout type\<close>

locale pod =
  fixes repr :: "'a \<Rightarrow> u8 list"
    and unrepr :: "u8 list \<Rightarrow> 'a"
    and sizeof :: nat
  assumes length_repr: "length (repr x) = sizeof"
    and unrepr_repr: "unrepr (repr x) = x"
    and sizeof_pos: "0 < sizeof"
begin

lemma repr_inject: "repr x = repr y \<longleftrightarrow> x = y"
  by (metis unrepr_repr)

lemma repr_nonempty: "repr x \<noteq> []"
  using length_repr [of x] sizeof_pos by auto

end

interpretation pod_u32: pod u32_bytes bytes_u32 4
  by unfold_locales simp_all

interpretation pod_u64: pod u64_bytes bytes_u64 8
  by unfold_locales simp_all

end
