(* ===== verification/Text.thy ===== *)
theory Text
  imports Prelude "HOL-Library.Char_ord"
begin

text \<open>
  The text conversions of the C and C++ standard libraries the program calls: decimal
  formatting (\<open>std::to_string\<close>, \<open>%d\<close>, stream insertion of integers), padding to a field width
  (\<open>%4d\<close>), and the decimal parsers \<open>atoi\<close> and \<open>stoul\<close>.
\<close>

section \<open>Digits\<close>

definition digit_char :: "nat \<Rightarrow> char" where
  "digit_char d = char_of (48 + d)"

definition is_digit :: "char \<Rightarrow> bool" where
  "is_digit c \<longleftrightarrow> (48 :: nat) \<le> of_char c \<and> of_char c \<le> (57 :: nat)"

definition digit_val :: "char \<Rightarrow> nat" where
  "digit_val c = of_char c - 48"

text \<open>\<open>isspace\<close> in the C locale: space, and the control characters 9 to 13.\<close>

definition is_space :: "char \<Rightarrow> bool" where
  "is_space c \<longleftrightarrow> of_char c = (32 :: nat) \<or> ((9 :: nat) \<le> of_char c \<and> of_char c \<le> (13 :: nat))"

lemma of_char_digit_char [simp]: "d < 10 \<Longrightarrow> of_char (digit_char d) = 48 + d"
  by (simp add: digit_char_def)

lemma is_digit_digit_char [simp]: "d < 10 \<Longrightarrow> is_digit (digit_char d)"
  by (simp add: is_digit_def)

lemma digit_val_digit_char [simp]: "d < 10 \<Longrightarrow> digit_val (digit_char d) = d"
  by (simp add: digit_val_def)

lemma not_space_digit: "is_digit c \<Longrightarrow> \<not> is_space c"
  by (auto simp: is_digit_def is_space_def)

lemma digit_not_sign: "is_digit c \<Longrightarrow> c \<noteq> CHR ''-'' \<and> c \<noteq> CHR ''+''"
  by (auto simp: is_digit_def)

section \<open>Decimal formatting\<close>

fun dec :: "nat \<Rightarrow> string" where
  "dec n = (if n < 10 then [digit_char n] else dec (n div 10) @ [digit_char (n mod 10)])"

declare dec.simps [simp del]

lemma dec_digits: "c \<in> set (dec n) \<Longrightarrow> is_digit c"
proof (induction n rule: dec.induct)
  case (1 n)
  then show ?case by (subst (asm) dec.simps) (auto split: if_splits)
qed

lemma dec_not_Nil [simp]: "dec n \<noteq> []"
  by (subst dec.simps) simp

lemma length_dec_le: "n < 10 ^ k \<Longrightarrow> 0 < k \<Longrightarrow> length (dec n) \<le> k"
proof (induction k arbitrary: n)
  case (Suc k)
  show ?case
  proof (cases "n < 10")
    case True
    then show ?thesis by (subst dec.simps) simp
  next
    case False
    then have "0 < k" using Suc.prems by (cases k) auto
    moreover have "n div 10 < 10 ^ k" using Suc.prems by (simp add: div_less_iff_less_mult mult.commute)
    ultimately have "length (dec (n div 10)) \<le> k" by (intro Suc.IH)
    with False show ?thesis by (subst dec.simps) simp
  qed
qed simp

text \<open>\<open>%d\<close> of a signed value, and \<open>%4d\<close>: right-aligned in a field of width \<open>w\<close>.\<close>

definition dec_int :: "int \<Rightarrow> string" where
  "dec_int i = (if i < 0 then CHR ''-'' # dec (nat (- i)) else dec (nat i))"

definition pad_left :: "nat \<Rightarrow> string \<Rightarrow> string" where
  "pad_left w s = replicate (w - length s) (CHR '' '') @ s"

lemma length_pad_left: "length s \<le> w \<Longrightarrow> length (pad_left w s) = w"
  by (simp add: pad_left_def)

section \<open>Decimal parsing\<close>

text \<open>The digit loop shared by \<open>atoi\<close> and \<open>stoul\<close>: it stops at the first non-digit.\<close>

fun digits_loop :: "nat \<Rightarrow> string \<Rightarrow> nat" where
  "digits_loop acc [] = acc"
| "digits_loop acc (c # cs) =
     (if is_digit c then digits_loop (10 * acc + digit_val c) cs else acc)"

definition skip_spaces :: "string \<Rightarrow> string" where
  "skip_spaces s = dropWhile is_space s"

text \<open>
  \<open>atoi\<close> on a NUL-terminated string given without its terminator: skip white space, read an
  optional sign, then digits. (The range is unbounded here; the callers parse at most four
  characters, far from \<open>INT_MAX\<close>.)
\<close>

definition atoi :: "string \<Rightarrow> int" where
  "atoi s = (case skip_spaces s of
       [] \<Rightarrow> 0
     | c # cs \<Rightarrow>
         if c = CHR ''-'' then - int (digits_loop 0 cs)
         else if c = CHR ''+'' then int (digits_loop 0 cs)
         else int (digits_loop 0 (c # cs)))"

lemma digits_loop_append_digits:
  "(\<forall>c \<in> set ds. is_digit c) \<Longrightarrow>
   digits_loop acc (ds @ rest) = digits_loop (digits_loop acc ds) rest"
  by (induction ds arbitrary: acc) auto

lemma digits_loop_dec: "digits_loop 0 (dec n) = n"
proof (induction n rule: dec.induct)
  case (1 n)
  show ?case
  proof (cases "n < 10")
    case True
    then show ?thesis by (subst dec.simps) simp
  next
    case False
    have "digits_loop 0 (dec (n div 10) @ [digit_char (n mod 10)])
        = digits_loop (digits_loop 0 (dec (n div 10))) [digit_char (n mod 10)]"
      by (intro digits_loop_append_digits) (auto dest: dec_digits)
    also have "\<dots> = n" using 1 False by simp
    finally show ?thesis using False by (subst dec.simps) simp
  qed
qed

lemma skip_spaces_pad_dec [simp]: "skip_spaces (pad_left w (dec n)) = dec n"
proof -
  obtain c cs where d: "dec n = c # cs" by (cases "dec n") simp_all
  then have "is_digit c" using dec_digits [of c n] by simp
  then have "dropWhile is_space (dec n) = dec n" by (simp add: d not_space_digit)
  moreover have "dropWhile is_space (replicate k (CHR '' '') @ dec n) = dropWhile is_space (dec n)" for k
    by (rule dropWhile_append2) (simp add: is_space_def)
  ultimately show ?thesis
    by (simp add: skip_spaces_def pad_left_def)
qed

lemma atoi_pad_dec: "atoi (pad_left w (dec n)) = int n"
proof -
  obtain c cs where d: "dec n = c # cs" by (cases "dec n") simp_all
  then have "is_digit c" using dec_digits [of c n] by simp
  then have "c \<noteq> CHR ''-''" "c \<noteq> CHR ''+''" by (simp_all add: digit_not_sign)
  moreover have "digits_loop 0 (c # cs) = n" using digits_loop_dec [of n] d by simp
  ultimately show ?thesis by (simp only: atoi_def skip_spaces_pad_dec) (simp add: d del: digits_loop.simps)
qed

lemma digits_loop_bound: "digits_loop acc s < (acc + 1) * 10 ^ length s"
proof (induction s arbitrary: acc)
  case (Cons c cs)
  show ?case
  proof (cases "is_digit c")
    case True
    then have "digit_val c < 10" by (auto simp: is_digit_def digit_val_def)
    then have "10 * acc + digit_val c + 1 \<le> 10 * (acc + 1)" by simp
    then have "(10 * acc + digit_val c + 1) * 10 ^ length cs \<le> 10 * (acc + 1) * 10 ^ length cs"
      by (rule mult_le_mono1)
    with Cons.IH [of "10 * acc + digit_val c"]
    have "digits_loop (10 * acc + digit_val c) cs < 10 * (acc + 1) * 10 ^ length cs" by linarith
    with True show ?thesis by (simp add: algebra_simps)
  next
    case False
    have "(1::nat) \<le> 10 ^ length (c # cs)" by simp
    then have "acc + 1 \<le> (acc + 1) * 10 ^ length (c # cs)" by (metis mult.right_neutral mult_le_mono2)
    with False show ?thesis by simp
  qed
qed simp

end
