(* ===== verification/NetMessage.thy ===== *)
theory NetMessage
  imports Bytes Text
begin

text \<open>
  \<open>src/src/network/NetCommon/net_message.hpp\<close>: the message header and body, the operators
  that push and pull plain data at the end of the body, and their printed form. The template
  parameter \<open>T\<close> is the underlying type of the message enum, \<open>uint32_t\<close>, as both programs of
  the repository instantiate it.
\<close>

section \<open>Data\<close>

record message_header =
  header_id :: u32
  header_size :: u32

record message =
  header :: message_header
  body :: "u8 list"

definition default_header :: message_header where
  "default_header = \<lparr>header_id = 0, header_size = 0\<rparr>"

definition default_message :: message where
  "default_message = \<lparr>header = default_header, body = []\<rparr>"

text \<open>\<open>owned_message\<close>: the connection a message came from (\<open>nullptr\<close> is \<open>None\<close>), by its identity.\<close>

record owned_message =
  remote :: "nat option"
  msg :: message

section \<open>Operations\<close>

definition message_size :: "message \<Rightarrow> size_t" where
  "message_size m = of_nat (length (body m))"

definition set_header_size :: "message \<Rightarrow> message" where
  "set_header_size m = m\<lparr>header := (header m)\<lparr>header_size := ucast (message_size m)\<rparr>\<rparr>"

text \<open>\<open>operator <<\<close>: \<open>data\<close> is the object representation of the value pushed.\<close>

definition op_push :: "u8 list \<Rightarrow> message \<Rightarrow> message" where
  "op_push data m =
     (let i = length (body m);
          b = vec_resize (length (body m) + length data) (body m);
          b = memcpy_at i data b
      in set_header_size (m\<lparr>body := b\<rparr>))"

text \<open>
  \<open>operator >>\<close>: \<open>n\<close> is \<open>sizeof(DataType)\<close>. The subtraction is on \<open>size_t\<close> and wraps; the
  \<open>memcpy\<close> that follows reads \<open>n\<close> bytes at that offset, which is undefined outside the vector.
\<close>

definition op_pull :: "nat \<Rightarrow> message \<Rightarrow> (u8 list \<times> message) result" where
  "op_pull n m =
     (let i = unat (message_size m - of_nat n)
      in if i + n \<le> length (body m)
         then Inr (take n (drop i (body m)),
                   set_header_size (m\<lparr>body := vec_resize i (body m)\<rparr>))
         else Inl OutOfBounds)"

definition print_message :: "message \<Rightarrow> string" where
  "print_message m = ''ID: '' @ dec_int (sint (header_id (header m)))
                     @ '' Size: '' @ dec (unat (header_size (header m)))"

definition print_owned_message :: "owned_message \<Rightarrow> string" where
  "print_owned_message om = print_message (msg om)"

section \<open>Bodies and sizes\<close>

lemma ucast_word_of_nat: "(ucast (word_of_nat n :: size_t) :: u32) = word_of_nat n"
  by (simp add: unsigned_of_nat word_of_nat_eq_iff)

lemma set_header_size_simps [simp]:
  "body (set_header_size m) = body m"
  "header_id (header (set_header_size m)) = header_id (header m)"
  "header_size (header (set_header_size m)) = word_of_nat (length (body m))"
  by (simp_all add: set_header_size_def message_size_def ucast_word_of_nat)

lemma body_op_push [simp]: "body (op_push data m) = body m @ data"
  by (simp add: op_push_def memcpy_at_resize Let_def)

lemma header_op_push [simp]:
  "header_id (header (op_push data m)) = header_id (header m)"
  "header_size (header (op_push data m)) = word_of_nat (length (body m) + length data)"
  by (simp_all add: op_push_def memcpy_at_resize Let_def)

text \<open>The header announces the body: what every receiver relies on.\<close>

definition well_sized :: "message \<Rightarrow> bool" where
  "well_sized m \<longleftrightarrow> unat (header_size (header m)) = length (body m)"

lemma well_sized_default [simp]: "well_sized default_message"
  by (simp add: well_sized_def default_message_def default_header_def)

lemma well_sized_op_push:
  assumes "length (body m) + length data < 2 ^ 32"
  shows "well_sized (op_push data m)"
  using assms by (simp add: well_sized_def unat_of_nat flip: of_nat_add)

lemma unat_size_diff:
  fixes n k :: nat
  assumes "n < 2 ^ 64" "k < 2 ^ 64"
  shows "unat (word_of_nat n - word_of_nat k :: size_t) = (if k \<le> n then n - k else 2 ^ 64 + n - k)"
  using assms by (auto simp: unat_sub_if' unat_of_nat)

text \<open>Pulling either returns the last \<open>n\<close> bytes or, exactly when the body is shorter, is undefined.\<close>

lemma op_pull_cases:
  assumes "length (body m) < 2 ^ 64" "0 < n" "n < 2 ^ 64"
  shows "op_pull n m =
    (if n \<le> length (body m)
     then Inr (drop (length (body m) - n) (body m),
               set_header_size (m\<lparr>body := take (length (body m) - n) (body m)\<rparr>))
     else Inl OutOfBounds)"
  using assms
  by (simp add: op_pull_def message_size_def unat_size_diff vec_resize_shrink Let_def)

section \<open>Values on the message stack\<close>

text \<open>
  Whatever the plain type, pushing a value and pulling one of the same type gives the value
  back and leaves the body as it was: the reader of a message pops in the reverse order of
  the writer's pushes.
\<close>

lemma set_header_size_body [simp]:
  "set_header_size ((set_header_size m)\<lparr>body := b\<rparr>) = set_header_size (m\<lparr>body := b\<rparr>)"
  by (cases m, cases "header m") (simp add: set_header_size_def message_size_def)

lemma op_push_eq: "op_push d m = set_header_size (m\<lparr>body := body m @ d\<rparr>)"
  by (simp add: op_push_def memcpy_at_resize Let_def)

lemma op_pull_op_push:
  assumes "length (body m) + length d < 2 ^ 64" "d \<noteq> []"
  shows "op_pull (length d) (op_push d m) = Inr (d, set_header_size m)"
  using assms by (simp add: op_pull_cases)

context pod
begin

lemma pull_push_value:
  assumes "length (body m) + sizeof < 2 ^ 64"
  shows "rbind (op_pull sizeof (op_push (repr x) m)) (\<lambda>(d, m'). Inr (unrepr d, m'))
       = Inr (x, set_header_size m)"
  using assms op_pull_op_push [of m "repr x"] repr_nonempty [of x]
  by (simp add: length_repr unrepr_repr)

end

definition push_all :: "u8 list list \<Rightarrow> message \<Rightarrow> message" where
  "push_all ds m = fold op_push ds m"

fun pull_all :: "nat list \<Rightarrow> message \<Rightarrow> (u8 list list \<times> message) result" where
  "pull_all [] m = Inr ([], m)"
| "pull_all (n # ns) m =
     rbind (op_pull n m) (\<lambda>(d, m'). rbind (pull_all ns m') (\<lambda>(ds, m''). Inr (d # ds, m'')))"

lemma body_push_all [simp]: "body (push_all ds m) = body m @ concat ds"
  by (induction ds arbitrary: m) (simp_all add: push_all_def)

lemma push_all_snoc: "push_all (ds @ [d]) m = op_push d (push_all ds m)"
  by (simp add: push_all_def)

lemma set_header_size_push_all:
  "ds \<noteq> [] \<Longrightarrow> set_header_size (push_all ds m) = push_all ds m"
proof (induction ds rule: rev_induct)
  case (snoc d ds)
  show ?case by (simp add: push_all_snoc op_push_eq set_header_size_def message_size_def)
qed simp

section \<open>Properties\<close>

text \<open>C38: values pushed on a message with \<open>operator <<\<close> come back in the reverse order with
  \<open>operator >>\<close>, the body is left as it was before the pushes, and the header announces it.\<close>

theorem message_values_lifo:
  assumes "length (body m) + length (concat ds) < 2 ^ 64" and "[] \<notin> set ds" and "ds \<noteq> []"
  shows "pull_all (map length (rev ds)) (push_all ds m) = Inr (rev ds, set_header_size m)"
  using assms
proof (induction ds rule: rev_induct)
  case (snoc d ds)
  have pull: "op_pull (length d) (push_all (ds @ [d]) m) = Inr (d, set_header_size (push_all ds m))"
    unfolding push_all_snoc by (rule op_pull_op_push) (use snoc.prems in auto)
  show ?case
  proof (cases "ds = []")
    case True
    then show ?thesis using pull by (simp add: push_all_def)
  next
    case False
    then show ?thesis using pull snoc by (simp add: set_header_size_push_all)
  qed
qed simp

theorem message_values_lifo_witness:
  "pull_all [2, 1] (push_all [[7], [8, 9]] default_message)
     = Inr ([[8, 9], [7]], set_header_size default_message)"
proof -
  have "pull_all (map length (rev [[7 :: u8], [8, 9]])) (push_all [[7], [8, 9]] default_message)
     = Inr (rev [[7], [8, 9]], set_header_size default_message)"
    by (rule message_values_lifo) (simp_all add: default_message_def)
  then show ?thesis by (simp add: numeral_2_eq_2)
qed

text \<open>\<open>operator >>\<close> has no bounds check of its own. It is undefined behaviour exactly when
  the body holds fewer bytes than the value pulled (the \<open>size_t\<close> subtraction wraps and the copy
  starts far outside the vector), and otherwise it shortens the body by the value's size.\<close>

lemma op_pull_undefined_iff:
  assumes "length (body m) < 2 ^ 64" "0 < n" "n < 2 ^ 64"
  shows "(op_pull n m = Inl OutOfBounds) = (length (body m) < n)
    \<and> (\<exists>d m'. op_pull n m = Inr (d, m') \<and> body m = body m' @ d \<and> length d = n)
         = (n \<le> length (body m))"
  using assms by (auto simp: op_pull_cases not_le split: if_splits)

text \<open>The header's 32-bit size field is recomputed on every push; it is the length of the
  body modulo 2^32, so it announces the body exactly as long as the body stays below 4 GiB.\<close>

lemma op_push_size_wraps:
  "unat (header_size (header (op_push d m))) = (length (body m) + length d) mod 2 ^ 32
   \<and> well_sized (op_push d m) = (length (body m) + length d < 2 ^ 32)"
proof (intro conjI)
  show 1: "unat (header_size (header (op_push d m))) = (length (body m) + length d) mod 2 ^ 32"
    by (simp add: unat_of_nat flip: of_nat_add)
  show "well_sized (op_push d m) = (length (body m) + length d < 2 ^ 32)"
    using mod_less_divisor [of "2 ^ 32" "length (body m) + length d"]
    unfolding well_sized_def 1 by (auto simp: mod_eq_self_iff_div_eq_0)
qed

section \<open>Messages stay well sized\<close>

text \<open>A sequence of uses of the two operators, and what it does to a plain list of bytes.\<close>

datatype message_use = Push "u8 list" | Pull nat

fun message_exec :: "message_use \<Rightarrow> message \<Rightarrow> message result" where
  "message_exec (Push d) m = Inr (op_push d m)"
| "message_exec (Pull n) m = rbind (op_pull n m) (\<lambda>(d, m'). Inr m')"

fun bytes_exec :: "message_use \<Rightarrow> u8 list \<Rightarrow> u8 list option" where
  "bytes_exec (Push d) b = Some (b @ d)"
| "bytes_exec (Pull n) b = (if n \<le> length b then Some (take (length b - n) b) else None)"

fun bytes_run :: "message_use list \<Rightarrow> u8 list \<Rightarrow> u8 list option" where
  "bytes_run [] b = Some b"
| "bytes_run (u # us) b = Option.bind (bytes_exec u b) (bytes_run us)"

text \<open>Values have a size, and what is pushed in all stays below 4 GiB.\<close>

fun use_size :: "message_use \<Rightarrow> nat" where
  "use_size (Push d) = length d"
| "use_size (Pull n) = 0"

fun use_ok :: "message_use \<Rightarrow> bool" where
  "use_ok (Push d) = True"
| "use_ok (Pull n) = (0 < n \<and> n < 2 ^ 64)"

lemma well_sized_resized: "length (body m) < 2 ^ 32 \<Longrightarrow> well_sized (set_header_size m)"
  by (simp add: well_sized_def unat_of_nat)

lemma message_exec_ok:
  assumes "well_sized m" "length (body m) + use_size u < 2 ^ 32" "use_ok u"
  shows "case message_exec u m of
      Inl e \<Rightarrow> e = OutOfBounds \<and> bytes_exec u (body m) = None
    | Inr m' \<Rightarrow> well_sized m' \<and> bytes_exec u (body m) = Some (body m') \<and> header_id (header m') = header_id (header m)
        \<and> length (body m') \<le> length (body m) + use_size u"
proof (cases u)
  case (Push d)
  then show ?thesis using assms by (simp add: well_sized_op_push)
next
  case (Pull n)
  have "length (body m) < 2 ^ 32" "length (body m) < 2 ^ 64" "0 < n" "n < 2 ^ 64" using assms Pull by simp_all
  then show ?thesis using Pull by (simp add: op_pull_cases well_sized_resized)
qed

lemma message_run_ok:
  "well_sized m \<Longrightarrow> length (body m) + sum_list (map use_size us) < 2 ^ 32 \<Longrightarrow> \<forall>u \<in> set us. use_ok u \<Longrightarrow>
   case run_events message_exec us m of
      Inl e \<Rightarrow> e = OutOfBounds \<and> bytes_run us (body m) = None
    | Inr m' \<Rightarrow> well_sized m' \<and> bytes_run us (body m) = Some (body m') \<and> header_id (header m') = header_id (header m)"
proof (induction us arbitrary: m)
  case (Cons u us)
  have u: "case message_exec u m of
      Inl e \<Rightarrow> e = OutOfBounds \<and> bytes_exec u (body m) = None
    | Inr m' \<Rightarrow> well_sized m' \<and> bytes_exec u (body m) = Some (body m') \<and> header_id (header m') = header_id (header m)
        \<and> length (body m') \<le> length (body m) + use_size u"
    by (rule message_exec_ok) (use Cons.prems in auto)
  show ?case
  proof (cases "message_exec u m")
    case (Inl e)
    then show ?thesis using u by simp
  next
    case (Inr m1)
    then have "well_sized m1" "length (body m1) + sum_list (map use_size us) < 2 ^ 32" using u Cons.prems by auto
    from Cons.IH [OF this] show ?thesis using Inr u Cons.prems by (auto split: sum.splits)
  qed
qed simp

text \<open>C37: the type of messages. However a message is built and taken apart with \<open>operator <<\<close> and
  \<open>operator >>\<close>, its header announces exactly its body, as every receiver assumes, its identifier is
  untouched, and its body is that of a stack of bytes; the only fault is pulling more than there is.\<close>

theorem messages_announce_their_size:
  assumes "well_sized m" "length (body m) + sum_list (map use_size us) < 2 ^ 32" "\<forall>u \<in> set us. use_ok u"
  shows "case run_events message_exec us m of
      Inl e \<Rightarrow> e = OutOfBounds \<and> bytes_run us (body m) = None
    | Inr m' \<Rightarrow> well_sized m' \<and> bytes_run us (body m) = Some (body m') \<and> header_id (header m') = header_id (header m)"
  by (rule message_run_ok [OF assms])

theorem messages_announce_their_size_witness:
  "\<exists>m. run_events message_exec [Push [1, 2, 3], Pull 2, Push [4]] default_message = Inr m
     \<and> well_sized m \<and> body m = [1, 4]"
proof -
  have "case run_events message_exec [Push [1, 2, 3], Pull 2, Push [4]] default_message of
      Inl e \<Rightarrow> e = OutOfBounds \<and> bytes_run [Push [1, 2, 3], Pull 2, Push [4]] (body default_message) = None
    | Inr m' \<Rightarrow> well_sized m' \<and> bytes_run [Push [1, 2, 3], Pull 2, Push [4]] (body default_message) = Some (body m')
        \<and> header_id (header m') = header_id (header default_message)"
    by (rule messages_announce_their_size) (simp_all add: default_message_def default_header_def well_sized_def)
  then show ?thesis by (auto simp: default_message_def numeral_2_eq_2 numeral_3_eq_3 split: sum.splits)
qed

end
