(* ===== verification/NetConnection.thy ===== *)
theory NetConnection
  imports NetMessage TsQueue
begin

unbundle bit_operations_syntax

text \<open>
  \<open>src/src/network/NetCommon/net_connection.hpp\<close>: one connection object, its handshake, its
  writing chain (\<open>WriteHeader\<close>, \<open>WriteBody\<close>) and its reading chain (\<open>ReadHeader\<close>, \<open>ReadBody\<close>).

  Boost.Asio is not part of the repository. What the code relies on is modelled as data of the
  connection: the operations it has started and whose completion handler has not run yet
  (\<open>pending\<close>), the tasks it has posted on the context (\<open>tasks\<close>, run in the order of the posts) and
  the bytes its socket has accepted (\<open>sent\<close>). Which operation completes next, whether it fails,
  and the bytes it transferred are the environment's choice, an \<open>io_event\<close>; a composed read or
  write that succeeds has transferred its whole buffer.
\<close>

section \<open>State\<close>

datatype owner = OwnerServer | OwnerClient

record socket =
  is_open :: bool
  sent :: "u8 list"

datatype async_op =
    AsyncConnect
  | AsyncWriteHeader "u8 list"
  | AsyncWriteBody "u8 list"
  | AsyncWriteValidation "u8 list"
  | AsyncReadHeader
  | AsyncReadBody nat
  | AsyncReadValidation

datatype task = TaskSend message | TaskClose

text \<open>\<open>this_ptr\<close> is the identity of the object (\<open>this\<close>, \<open>shared_from_this\<close>), \<open>conn_id\<close> its member \<open>id\<close>;
  \<open>m_qMessagesIn\<close> is the owner's queue the object holds a reference to.\<close>

record connection =
  this_ptr :: nat
  m_socket :: socket
  m_qMessagesOut :: "message tsqueue"
  m_qMessagesIn :: "owned_message tsqueue"
  m_msgTemporaryIn :: message
  m_nOwnerType :: owner
  conn_id :: u32
  m_nHandshakeOut :: u64
  m_nHandshakeIn :: u64
  m_nHandshakeCheck :: u64
  tasks :: "task list"
  pending :: "async_op list"

section \<open>The handshake transformation\<close>

definition scramble :: "u64 \<Rightarrow> u64" where
  "scramble nInput =
     (let out = nInput XOR 0xD34E3AB6AF1E0B5F;
          out = drop_bit 4 (out AND 0xF0F0F0F0F0F0F0F0) OR push_bit 4 (out AND 0x0F0F0F0F0F0F0F0F)
      in out XOR 0xB3A5A3CC47EE45FD)"

section \<open>Construction and the public operations\<close>

text \<open>\<open>now\<close> is the count of the system clock at construction; the members not set in the
  constructor have their default initialisers.\<close>

definition new_connection ::
  "owner \<Rightarrow> nat \<Rightarrow> socket \<Rightarrow> owned_message tsqueue \<Rightarrow> u64 \<Rightarrow> connection" where
  "new_connection parent self sock qIn now =
     (let c = \<lparr>this_ptr = self, m_socket = sock, m_qMessagesOut = new_tsqueue, m_qMessagesIn = qIn,
               m_msgTemporaryIn = default_message, m_nOwnerType = parent, conn_id = 0,
               m_nHandshakeOut = 0, m_nHandshakeIn = 0, m_nHandshakeCheck = 0,
               tasks = [], pending = []\<rparr>
      in if parent = OwnerServer
         then c\<lparr>m_nHandshakeOut := now, m_nHandshakeCheck := scramble now\<rparr>
         else c\<lparr>m_nHandshakeIn := 0, m_nHandshakeOut := 0\<rparr>)"

definition start_op :: "async_op \<Rightarrow> connection \<Rightarrow> connection" where
  "start_op op c = c\<lparr>pending := pending c @ [op]\<rparr>"

definition post_task :: "task \<Rightarrow> connection \<Rightarrow> connection" where
  "post_task t c = c\<lparr>tasks := tasks c @ [t]\<rparr>"

definition close_socket :: "connection \<Rightarrow> connection" where
  "close_socket c = c\<lparr>m_socket := (m_socket c)\<lparr>is_open := False\<rparr>\<rparr>"

definition GetID :: "connection \<Rightarrow> u32" where
  "GetID c = conn_id c"

definition IsConnected :: "connection \<Rightarrow> bool" where
  "IsConnected c = is_open (m_socket c)"

definition header_bytes :: "message_header \<Rightarrow> u8 list" where
  "header_bytes h = u32_bytes (header_id h) @ u32_bytes (header_size h)"

definition bytes_header :: "u8 list \<Rightarrow> message_header" where
  "bytes_header bs = \<lparr>header_id = bytes_u32 (take 4 bs), header_size = bytes_u32 (drop 4 bs)\<rparr>"

definition WriteValidation :: "connection \<Rightarrow> connection" where
  "WriteValidation c = start_op (AsyncWriteValidation (u64_bytes (m_nHandshakeOut c))) c"

definition ReadValidation :: "connection \<Rightarrow> connection" where
  "ReadValidation c = start_op AsyncReadValidation c"

definition ReadHeader :: "connection \<Rightarrow> connection" where
  "ReadHeader c = start_op AsyncReadHeader c"

definition ReadBody :: "connection \<Rightarrow> connection" where
  "ReadBody c = start_op (AsyncReadBody (length (body (m_msgTemporaryIn c)))) c"

definition ConnectToClient :: "u32 \<Rightarrow> connection \<Rightarrow> connection" where
  "ConnectToClient uid c =
     (if m_nOwnerType c = OwnerServer then
        if is_open (m_socket c)
        then ReadValidation (WriteValidation (c\<lparr>conn_id := uid\<rparr>))
        else c
      else c)"

text \<open>\<open>opened\<close>: initiating the range connect opened the socket (it does for a non-empty range).\<close>

definition ConnectToServer :: "bool \<Rightarrow> connection \<Rightarrow> connection" where
  "ConnectToServer opened c =
     (if m_nOwnerType c = OwnerClient
      then start_op AsyncConnect (c\<lparr>m_socket := (m_socket c)\<lparr>is_open := opened\<rparr>\<rparr>)
      else c)"

definition conn_Disconnect :: "connection \<Rightarrow> connection" where
  "conn_Disconnect c = (if IsConnected c then post_task TaskClose c else c)"

definition conn_Send :: "message \<Rightarrow> connection \<Rightarrow> connection" where
  "conn_Send m c = post_task (TaskSend m) c"

section \<open>The writing chain\<close>

definition WriteHeader :: "connection \<Rightarrow> connection result" where
  "WriteHeader c =
     rbind (front (m_qMessagesOut c))
       (\<lambda>m. Inr (start_op (AsyncWriteHeader (header_bytes (header m))) c))"

definition WriteBody :: "connection \<Rightarrow> connection result" where
  "WriteBody c = rbind (front (m_qMessagesOut c)) (\<lambda>m. Inr (start_op (AsyncWriteBody (body m)) c))"

text \<open>The end of both write handlers: drop the message written, go on with the next one.\<close>

definition next_message :: "connection \<Rightarrow> connection result" where
  "next_message c =
     rbind (pop_front (m_qMessagesOut c)) (\<lambda>(_, q).
       let c = c\<lparr>m_qMessagesOut := q\<rparr>
       in if \<not> empty q then WriteHeader c else Inr c)"

definition WriteHeader_done :: "bool \<Rightarrow> connection \<Rightarrow> connection result" where
  "WriteHeader_done ec c =
     (if \<not> ec then
        rbind (front (m_qMessagesOut c)) (\<lambda>m.
          if 0 < length (body m) then WriteBody c else next_message c)
      else Inr (close_socket c))"

definition WriteBody_done :: "bool \<Rightarrow> connection \<Rightarrow> connection result" where
  "WriteBody_done ec c = (if \<not> ec then next_message c else Inr (close_socket c))"

text \<open>The task that \<open>Send\<close> posts.\<close>

definition run_send :: "message \<Rightarrow> connection \<Rightarrow> connection result" where
  "run_send m c =
     (let bWritingMessage = (\<not> empty (m_qMessagesOut c));
          c = c\<lparr>m_qMessagesOut := push_back m (m_qMessagesOut c)\<rparr>
      in if \<not> bWritingMessage then WriteHeader c else Inr c)"

section \<open>The reading chain\<close>

definition AddToIncomingMessageQueue :: "connection \<Rightarrow> connection" where
  "AddToIncomingMessageQueue c =
     (let om = (if m_nOwnerType c = OwnerServer
                then \<lparr>remote = Some (this_ptr c), msg = m_msgTemporaryIn c\<rparr>
                else \<lparr>remote = None, msg = m_msgTemporaryIn c\<rparr>)
      in ReadHeader (c\<lparr>m_qMessagesIn := push_back om (m_qMessagesIn c)\<rparr>))"

text \<open>The bytes a read transferred land in its buffer, a part of it only when it failed.\<close>

definition store_header :: "u8 list \<Rightarrow> connection \<Rightarrow> connection" where
  "store_header bs c =
     (let m = m_msgTemporaryIn c
      in c\<lparr>m_msgTemporaryIn := m\<lparr>header := bytes_header (memcpy_at 0 bs (header_bytes (header m)))\<rparr>\<rparr>)"

definition store_body :: "u8 list \<Rightarrow> connection \<Rightarrow> connection" where
  "store_body bs c =
     (let m = m_msgTemporaryIn c
      in c\<lparr>m_msgTemporaryIn := m\<lparr>body := memcpy_at 0 bs (body m)\<rparr>\<rparr>)"

definition store_validation :: "u8 list \<Rightarrow> connection \<Rightarrow> connection" where
  "store_validation bs c =
     c\<lparr>m_nHandshakeIn := bytes_u64 (memcpy_at 0 bs (u64_bytes (m_nHandshakeIn c)))\<rparr>"

definition ReadHeader_done :: "bool \<Rightarrow> connection \<Rightarrow> connection" where
  "ReadHeader_done ec c =
     (if \<not> ec then
        let m = m_msgTemporaryIn c; n = header_size (header m)
        in if 0 < n
           then ReadBody (c\<lparr>m_msgTemporaryIn := m\<lparr>body := vec_resize (unat n) (body m)\<rparr>\<rparr>)
           else AddToIncomingMessageQueue c
      else close_socket c)"

definition ReadBody_done :: "bool \<Rightarrow> connection \<Rightarrow> connection" where
  "ReadBody_done ec c = (if \<not> ec then AddToIncomingMessageQueue c else close_socket c)"

section \<open>The handshake handlers\<close>

definition WriteValidation_done :: "bool \<Rightarrow> connection \<Rightarrow> connection" where
  "WriteValidation_done ec c =
     (if \<not> ec then (if m_nOwnerType c = OwnerClient then ReadHeader c else c)
      else close_socket c)"

text \<open>\<open>OnClientValidated\<close> is a virtual function of the server, a no-op unless overridden.\<close>

definition ReadValidation_done ::
  "(connection \<Rightarrow> connection) \<Rightarrow> bool \<Rightarrow> connection \<Rightarrow> connection" where
  "ReadValidation_done OnClientValidated ec c =
     (if \<not> ec then
        if m_nOwnerType c = OwnerServer then
          if m_nHandshakeIn c = m_nHandshakeCheck c
          then ReadHeader (OnClientValidated c)
          else close_socket c
        else WriteValidation (c\<lparr>m_nHandshakeOut := scramble (m_nHandshakeIn c)\<rparr>)
      else close_socket c)"

definition OnClientValidated_base :: "connection \<Rightarrow> connection" where
  "OnClientValidated_base c = c"

definition Connect_done :: "bool \<Rightarrow> connection \<Rightarrow> connection" where
  "Connect_done ec c = (if \<not> ec then ReadValidation c else c)"

section \<open>Events\<close>

datatype io_event =
    CallSend message
  | CallDisconnect
  | RunTask
  | Complete async_op bool "u8 list"

text \<open>\<open>xs\<close> are the bytes the operation transferred; all of them unless it failed.\<close>

fun transfer_ok :: "async_op \<Rightarrow> bool \<Rightarrow> u8 list \<Rightarrow> bool" where
  "transfer_ok AsyncConnect ec xs = (xs = [])"
| "transfer_ok (AsyncWriteHeader bs) ec xs = (if ec then prefix xs bs else xs = bs)"
| "transfer_ok (AsyncWriteBody bs) ec xs = (if ec then prefix xs bs else xs = bs)"
| "transfer_ok (AsyncWriteValidation bs) ec xs = (if ec then prefix xs bs else xs = bs)"
| "transfer_ok AsyncReadHeader ec xs = (if ec then length xs < 8 else length xs = 8)"
| "transfer_ok (AsyncReadBody n) ec xs = (if ec then length xs < n else length xs = n)"
| "transfer_ok AsyncReadValidation ec xs = (if ec then length xs < 8 else length xs = 8)"

definition sock_accept :: "u8 list \<Rightarrow> connection \<Rightarrow> connection" where
  "sock_accept xs c = c\<lparr>m_socket := (m_socket c)\<lparr>sent := sent (m_socket c) @ xs\<rparr>\<rparr>"

fun complete :: "async_op \<Rightarrow> bool \<Rightarrow> u8 list \<Rightarrow> connection \<Rightarrow> connection result" where
  "complete AsyncConnect ec xs c = Inr (Connect_done ec c)"
| "complete (AsyncWriteHeader bs) ec xs c = WriteHeader_done ec (sock_accept xs c)"
| "complete (AsyncWriteBody bs) ec xs c = WriteBody_done ec (sock_accept xs c)"
| "complete (AsyncWriteValidation bs) ec xs c = Inr (WriteValidation_done ec (sock_accept xs c))"
| "complete AsyncReadHeader ec xs c = Inr (ReadHeader_done ec (store_header xs c))"
| "complete (AsyncReadBody n) ec xs c = Inr (ReadBody_done ec (store_body xs c))"
| "complete AsyncReadValidation ec xs c =
     Inr (ReadValidation_done OnClientValidated_base ec (store_validation xs c))"

fun run_task :: "task \<Rightarrow> connection \<Rightarrow> connection result" where
  "run_task (TaskSend m) c = run_send m c"
| "run_task TaskClose c = Inr (close_socket c)"

text \<open>One event; an event that is not enabled leaves the connection as it is.\<close>

fun conn_exec :: "io_event \<Rightarrow> connection \<Rightarrow> connection result" where
  "conn_exec (CallSend m) c = Inr (conn_Send m c)"
| "conn_exec CallDisconnect c = Inr (conn_Disconnect c)"
| "conn_exec RunTask c =
     (case tasks c of [] \<Rightarrow> Inr c | t # ts \<Rightarrow> run_task t (c\<lparr>tasks := ts\<rparr>))"
| "conn_exec (Complete op ec xs) c =
     (if op \<in> set (pending c) \<and> transfer_ok op ec xs
      then complete op ec xs (c\<lparr>pending := remove1 op (pending c)\<rparr>)
      else Inr c)"

text \<open>The events that the thread running the context executes, and when they are enabled.\<close>

fun is_handler :: "io_event \<Rightarrow> bool" where
  "is_handler RunTask = True"
| "is_handler (Complete _ _ _) = True"
| "is_handler _ = False"

fun enabled :: "io_event \<Rightarrow> connection \<Rightarrow> bool" where
  "enabled RunTask c = (tasks c \<noteq> [])"
| "enabled (Complete op ec xs) c = (op \<in> set (pending c) \<and> transfer_ok op ec xs)"
| "enabled _ c = True"

lemma not_enabled: "\<not> enabled e c \<Longrightarrow> conn_exec e c = Inr c"
  by (cases e) auto

abbreviation conn_run :: "io_event list \<Rightarrow> connection \<Rightarrow> connection result" where
  "conn_run \<equiv> run_events conn_exec"

section \<open>Simplification\<close>

lemmas start_defs = start_op_def post_task_def close_socket_def sock_accept_def
  WriteValidation_def ReadValidation_def ReadHeader_def ReadBody_def

lemmas store_defs = store_header_def store_body_def store_validation_def

lemmas read_done_defs = ReadHeader_done_def ReadBody_done_def ReadValidation_done_def
  WriteValidation_done_def Connect_done_def AddToIncomingMessageQueue_def OnClientValidated_base_def

lemmas write_done_defs = WriteHeader_done_def WriteBody_done_def next_message_def run_send_def
  WriteHeader_def WriteBody_def

lemmas call_defs = conn_Send_def conn_Disconnect_def IsConnected_def

lemma length_header_bytes [simp]: "length (header_bytes h) = 8"
  by (simp add: header_bytes_def)

lemma bytes_header_bytes [simp]: "bytes_header (header_bytes h) = h"
  by (simp add: header_bytes_def bytes_header_def)

lemma store_header_full:
  "length bs = 8 \<Longrightarrow> store_header bs c =
     c\<lparr>m_msgTemporaryIn := (m_msgTemporaryIn c)\<lparr>header := bytes_header bs\<rparr>\<rparr>"
  by (simp add: store_header_def memcpy_at_def)

lemma store_body_full:
  "length bs = length (body (m_msgTemporaryIn c)) \<Longrightarrow> store_body bs c =
     c\<lparr>m_msgTemporaryIn := (m_msgTemporaryIn c)\<lparr>body := bs\<rparr>\<rparr>"
  by (simp add: store_body_def memcpy_at_def)

lemma store_validation_full:
  "length bs = 8 \<Longrightarrow> store_validation bs c = c\<lparr>m_nHandshakeIn := bytes_u64 bs\<rparr>"
  by (simp add: store_validation_def memcpy_at_def)

end
