(* ===== verification/NetHandshake.thy ===== *)
theory NetHandshake
  imports NetConnection
begin

unbundle bit_operations_syntax

text \<open>
  The validation handshake of \<open>net_connection.hpp\<close>: \<open>scramble\<close> is a bijection, so exactly one
  answer passes, and no message of a client that has not given it reaches the server.
\<close>

section \<open>scramble is invertible\<close>

definition swap_nibbles :: "u64 \<Rightarrow> u64" where
  "swap_nibbles w = drop_bit 4 (w AND 0xF0F0F0F0F0F0F0F0) OR push_bit 4 (w AND 0x0F0F0F0F0F0F0F0F)"

definition unscramble :: "u64 \<Rightarrow> u64" where
  "unscramble y = swap_nibbles (y XOR 0xB3A5A3CC47EE45FD) XOR 0xD34E3AB6AF1E0B5F"

text \<open>The two masks select the high and the low half of every byte.\<close>

lemma masks_below_64:
  "list_all (\<lambda>n. bit (0x0F0F0F0F0F0F0F0F :: int) n = (n mod 8 < 4)) [0..<64]"
  "list_all (\<lambda>n. bit (0xF0F0F0F0F0F0F0F0 :: int) n = (4 \<le> n mod 8)) [0..<64]"
proof -
  have upt: "[0..<64] = 0 # 1 # [2..<64]" by (simp add: upt_conv_Cons)
  show "list_all (\<lambda>n. bit (0x0F0F0F0F0F0F0F0F :: int) n = (n mod 8 < 4)) [0..<64]"
    "list_all (\<lambda>n. bit (0xF0F0F0F0F0F0F0F0 :: int) n = (4 \<le> n mod 8)) [0..<64]"
    unfolding upt by simp_all
qed

lemma list_all_upt: "list_all P [0..<k] \<Longrightarrow> n < k \<Longrightarrow> P n"
  by (simp add: list_all_iff)

lemma bit_and_low_mask: "bit (w AND 0x0F0F0F0F0F0F0F0F :: u64) n \<longleftrightarrow> bit w n \<and> n mod 8 < 4"
proof (cases "n < 64")
  case True
  from list_all_upt [OF masks_below_64(1) True] True show ?thesis
    by (simp only: bit_and_iff bit_numeral_word_iff) simp
next
  case False
  then show ?thesis using bit_imp_le_length [of w n] by (auto simp: bit_and_iff)
qed

lemma bit_and_high_mask: "bit (w AND 0xF0F0F0F0F0F0F0F0 :: u64) n \<longleftrightarrow> bit w n \<and> 4 \<le> n mod 8"
proof (cases "n < 64")
  case True
  from list_all_upt [OF masks_below_64(2) True] True show ?thesis
    by (simp only: bit_and_iff bit_numeral_word_iff) simp
next
  case False
  then show ?thesis using bit_imp_le_length [of w n] by (auto simp: bit_and_iff)
qed

lemma low_half:
  assumes "n mod 8 < 4" "n < (64 :: nat)"
  shows "n + 4 < 64" "(n + 4) mod 8 = n mod 8 + 4"
proof -
  have "n div 8 < 8" using assms(2) by (simp add: div_less_iff_less_mult)
  with assms(1) div_mult_mod_eq [of n 8] show "n + 4 < 64" by linarith
  have "(n + 4) mod 8 = (n mod 8 + 4) mod 8" by (simp add: mod_add_left_eq)
  with assms(1) show "(n + 4) mod 8 = n mod 8 + 4" by simp
qed

lemma minus_half:
  assumes "(4 :: nat) \<le> n"
  shows "(n - 4) mod 8 < 4 \<longleftrightarrow> \<not> n mod 8 < 4"
proof -
  obtain m where "n = m + 4" using assms by (metis le_add_diff_inverse2)
  moreover have "m mod 8 < 4 \<longleftrightarrow> \<not> (m + 4) mod 8 < 4" by presburger
  ultimately show ?thesis by simp
qed

lemma high_half:
  assumes "\<not> n mod 8 < (4 :: nat)"
  shows "4 \<le> n" "(n - 4) mod 8 < 4"
proof -
  show n: "4 \<le> n" using assms mod_less_eq_dividend [of n 8] by linarith
  show "(n - 4) mod 8 < 4" using minus_half [OF n] assms by simp
qed

lemma bit_swap_nibbles:
  assumes n: "n < 64"
  shows "bit (swap_nibbles w) n = (if n mod 8 < 4 then bit w (n + 4) else bit w (n - 4))"
proof -
  have "bit (swap_nibbles w) n \<longleftrightarrow>
      bit w (n + 4) \<and> 4 \<le> (n + 4) mod 8 \<or> 4 \<le> n \<and> bit w (n - 4) \<and> (n - 4) mod 8 < 4"
    unfolding swap_nibbles_def bit_or_iff bit_drop_bit_eq bit_push_bit_iff comp_apply
      bit_and_low_mask bit_and_high_mask
    using n by (auto simp: add.commute)
  moreover have "4 \<le> (n + 4) mod 8 \<longleftrightarrow> n mod 8 < 4" by presburger
  ultimately show ?thesis using high_half(1) [of n] minus_half [of n] by auto
qed

lemma swap_nibbles_swap_nibbles [simp]: "swap_nibbles (swap_nibbles w) = w"
proof (rule bit_word_eqI)
  fix n assume "n < LENGTH(64)"
  then have n: "n < 64" by simp
  show "bit (swap_nibbles (swap_nibbles w)) n = bit w n"
  proof (cases "n mod 8 < 4")
    case True
    with low_half [OF True n] n show ?thesis by (simp add: bit_swap_nibbles)
  next
    case False
    with high_half [OF False] n show ?thesis by (simp add: bit_swap_nibbles)
  qed
qed

lemma scramble_eq: "scramble w = swap_nibbles (w XOR 0xD34E3AB6AF1E0B5F) XOR 0xB3A5A3CC47EE45FD"
  by (simp add: scramble_def swap_nibbles_def Let_def)

lemma xor_cancel_right [simp]: "(a XOR b) XOR b = (a :: u64)"
  by (simp add: xor.assoc)

lemma scramble_unscramble [simp]: "scramble (unscramble y) = y"
  by (simp add: scramble_eq unscramble_def)

lemma unscramble_scramble [simp]: "unscramble (scramble w) = w"
  by (simp add: scramble_eq unscramble_def)

lemma scramble_inject: "scramble a = scramble b \<longleftrightarrow> a = b"
  by (metis unscramble_scramble)

section \<open>The gate before the first message\<close>

definition accepting :: "nat \<Rightarrow> owned_message tsqueue \<Rightarrow> u64 \<Rightarrow> u32 \<Rightarrow> connection" where
  "accepting self q now uid =
     ConnectToClient uid (new_connection OwnerServer self \<lparr>is_open = True, sent = []\<rparr> q now)"

definition connecting :: "nat \<Rightarrow> owned_message tsqueue \<Rightarrow> connection" where
  "connecting self q =
     ConnectToServer True (new_connection OwnerClient self \<lparr>is_open = False, sent = []\<rparr> q 0)"

lemmas opening_defs = accepting_def connecting_def ConnectToClient_def ConnectToServer_def
  new_connection_def start_defs Let_def

text \<open>What holds of a server's connection as long as its peer has not given the right answer.\<close>

definition gated :: "u64 \<Rightarrow> owned_message tsqueue \<Rightarrow> connection \<Rightarrow> bool" where
  "gated now q c \<longleftrightarrow> m_nOwnerType c = OwnerServer \<and> m_nHandshakeCheck c = scramble now
     \<and> m_qMessagesIn c = q
     \<and> (\<forall>op \<in> set (pending c). op \<noteq> AsyncReadHeader \<and> op \<noteq> AsyncConnect \<and> (\<forall>n. op \<noteq> AsyncReadBody n))"

lemma gated_accepting: "gated now q (accepting self q now uid)"
  by (simp add: gated_def opening_defs)

lemma gated_owner: "gated now q c \<Longrightarrow> m_nOwnerType c = OwnerServer"
  by (simp add: gated_def)

lemma gated_check: "gated now q c \<Longrightarrow> m_nHandshakeCheck c = scramble now"
  by (simp add: gated_def)

lemma gated_not_pending:
  "gated now q c \<Longrightarrow> op \<in> set (pending c) \<Longrightarrow>
   op \<noteq> AsyncReadHeader \<and> op \<noteq> AsyncConnect \<and> op \<noteq> AsyncReadBody n"
  by (auto simp: gated_def)

lemma owner_sock_accept [simp]: "m_nOwnerType (sock_accept xs c) = m_nOwnerType c"
  by (simp add: sock_accept_def)

lemma gated_remove: "gated now q c \<Longrightarrow> gated now q (c\<lparr>pending := remove1 op (pending c)\<rparr>)"
  using set_remove1_subset [of op "pending c"] by (auto simp: gated_def)

lemma gated_frame [simp]:
  "gated now q (close_socket c) = gated now q c"
  "gated now q (sock_accept xs c) = gated now q c"
  "gated now q (store_validation xs c) = gated now q c"
  "gated now q (post_task t c) = gated now q c"
  "gated now q (c\<lparr>m_qMessagesOut := x\<rparr>) = gated now q c"
  "gated now q (c\<lparr>tasks := ts\<rparr>) = gated now q c"
  "gated now q (start_op (AsyncWriteHeader bs) c) = gated now q c"
  "gated now q (start_op (AsyncWriteBody bs) c) = gated now q c"
  by (auto simp: gated_def start_defs store_defs)

lemma gated_WriteHeader: "WriteHeader c = Inr c' \<Longrightarrow> gated now q c' = gated now q c"
  by (auto simp: WriteHeader_def)

lemma gated_WriteBody: "WriteBody c = Inr c' \<Longrightarrow> gated now q c' = gated now q c"
  by (auto simp: WriteBody_def)

lemma gated_next_message: "next_message c = Inr c' \<Longrightarrow> gated now q c' = gated now q c"
  by (auto simp: next_message_def Let_def dest!: gated_WriteHeader [where now = now and q = q] split: if_splits)

lemma gated_run_task: "run_task t c = Inr c' \<Longrightarrow> gated now q c' = gated now q c"
  by (cases t) (auto simp: run_send_def Let_def dest!: gated_WriteHeader [where now = now and q = q] split: if_splits)

lemma gated_write_done:
  "WriteHeader_done ec c = Inr c' \<Longrightarrow> gated now q c' = gated now q c"
  "WriteBody_done ec c = Inr c' \<Longrightarrow> gated now q c' = gated now q c"
  by (auto simp: WriteHeader_done_def WriteBody_done_def
      dest!: gated_WriteBody [where now = now and q = q] gated_next_message [where now = now and q = q] split: if_splits)

lemma gated_ReadValidation_done:
  assumes g: "gated now q c" and tr: "transfer_ok AsyncReadValidation ec xs"
    and wrong: "\<not> (\<not> ec \<and> xs = u64_bytes (scramble now))"
  shows "gated now q (ReadValidation_done f ec (store_validation xs c))"
proof (cases ec)
  case True
  with g show ?thesis by (simp add: ReadValidation_done_def)
next
  case False
  then have "length xs = 8" "xs \<noteq> u64_bytes (scramble now)" using tr wrong by auto
  then have "bytes_u64 xs \<noteq> scramble now" by (metis u64_bytes_bytes)
  moreover have "gated now q (c\<lparr>m_nHandshakeIn := w\<rparr>)" for w using g by (simp add: gated_def)
  ultimately show ?thesis using False \<open>length xs = 8\<close> gated_owner [OF g] gated_check [OF g]
    by (simp add: ReadValidation_done_def store_validation_full)
qed

lemma gated_exec:
  assumes g: "gated now q c" and ex: "conn_exec e c = Inr c'"
    and wrong: "e \<noteq> Complete AsyncReadValidation False (u64_bytes (scramble now))"
  shows "gated now q c'"
proof (cases e)
  case (Complete op ec xs)
  show ?thesis
  proof (cases "op \<in> set (pending c) \<and> transfer_ok op ec xs")
    case True
    let ?c = "c\<lparr>pending := remove1 op (pending c)\<rparr>"
    have g': "gated now q ?c" using g by (rule gated_remove)
    have ex': "complete op ec xs ?c = Inr c'" using ex True Complete by simp
    show ?thesis
    proof (cases "op = AsyncReadValidation")
      case rv: True
      have "gated now q (ReadValidation_done OnClientValidated_base ec (store_validation xs ?c))"
        by (rule gated_ReadValidation_done) (use g' True rv wrong Complete in auto)
      then show ?thesis using ex' rv by simp
    next
      case False
      then show ?thesis
        using ex' g' gated_not_pending [OF g, of op] gated_owner [OF g] True
        by (cases op)
          (auto simp: WriteValidation_done_def dest!: gated_write_done [where now = now and q = q])
    qed
  next
    case False
    then show ?thesis using g ex Complete by auto
  qed
next
  case RunTask
  then show ?thesis using g ex
    by (auto split: list.splits dest!: gated_run_task [where now = now and q = q])
qed (use g ex in \<open>auto simp: call_defs\<close>)

lemma gated_run:
  "gated now q c \<Longrightarrow> conn_run es c = Inr c' \<Longrightarrow>
   Complete AsyncReadValidation False (u64_bytes (scramble now)) \<notin> set es \<Longrightarrow> gated now q c'"
proof (induction es arbitrary: c)
  case (Cons e es)
  then obtain c1 where c1: "conn_exec e c = Inr c1" "conn_run es c1 = Inr c'"
    by (auto simp: rbind_Inr_conv)
  have "gated now q c1" using gated_exec [OF Cons.prems(1) c1(1)] Cons.prems(3) by auto
  with Cons.IH c1(2) Cons.prems(3) show ?case by simp
qed simp

section \<open>Properties\<close>

text \<open>\<open>scramble\<close> is a bijection of the 64-bit values: every challenge has exactly one valid
  answer, and a peer that has not applied the transformation cannot pass by chance twice.\<close>

lemma scramble_bijective: "bij scramble \<and> scramble (unscramble y) = y \<and> unscramble (scramble w) = w"
proof (intro conjI)
  show "bij scramble"
  proof (rule bijI)
    show "inj scramble" by (rule injI) (simp add: scramble_inject)
    show "surj scramble" by (rule surjI [of scramble unscramble]) simp
  qed
qed simp_all

text \<open>C4: no message before validation. Whatever the peer sends, whatever fails and whatever the
  server sends meanwhile, a server connection that has not read the answer \<open>scramble now\<close> to its
  challenge has delivered nothing to the server's incoming queue and is not reading messages.\<close>

theorem unvalidated_client_cannot_deliver:
  assumes "conn_run es (accepting self q now uid) = Inr c"
    and "Complete AsyncReadValidation False (u64_bytes (scramble now)) \<notin> set es"
  shows "m_qMessagesIn c = q \<and> AsyncReadHeader \<notin> set (pending c) \<and> AsyncReadBody n \<notin> set (pending c)"
  using gated_run [OF gated_accepting assms] by (auto simp: gated_def)

theorem unvalidated_client_cannot_deliver_witness:
  "\<exists>c. conn_run [Complete AsyncReadValidation False (u64_bytes 5)] (accepting 1 new_tsqueue 7 10000) = Inr c
     \<and> m_qMessagesIn c = new_tsqueue"
proof -
  let ?es = "[Complete AsyncReadValidation False (u64_bytes 5)]"
  obtain c where c: "conn_run ?es (accepting 1 new_tsqueue 7 10000) = Inr c"
    by (simp add: opening_defs)
  have "u64_bytes 5 \<noteq> u64_bytes (scramble 7)"
    by (simp add: pod_u64.repr_inject scramble_def)
  then show ?thesis using unvalidated_client_cannot_deliver [OF c] c by auto
qed


text \<open>A server connection that reads any eight bytes other than the expected answer closes its
  socket and starts no further operation.\<close>

lemma wrong_answer_disconnects:
  assumes "length xs = 8" "xs \<noteq> u64_bytes (scramble now)"
  shows "\<exists>c. conn_exec (Complete AsyncReadValidation False xs) (accepting self q now uid) = Inr c
     \<and> \<not> IsConnected c \<and> pending c = [AsyncWriteValidation (u64_bytes now)]"
proof -
  have "bytes_u64 xs \<noteq> scramble now" using assms by (metis u64_bytes_bytes)
  then show ?thesis using assms(1)
    by (simp add: opening_defs read_done_defs store_validation_full IsConnected_def)
qed

end
