(* ===== verification/WritePump.thy ===== *)
theory WritePump
  imports Prelude
begin

text \<open>
  The contract of an outgoing message queue driven by asynchronous writes, shared by
  \<open>connection\<close> (\<open>net_connection.hpp\<close>), \<open>chat_session\<close> (\<open>server.cpp\<close>) and \<open>chat_client\<close>
  (\<open>client.cpp\<close>): submitting a \<open>valid\<close> message appends to the queue and starts a write only when none is in
  progress; the completion of the front message's write drops it and starts the next.
\<close>

locale write_pump =
  fixes valid :: "'m \<Rightarrow> bool"
    and queued :: "'s \<Rightarrow> 'm list"
    and ready :: "'s \<Rightarrow> bool"
    and submit :: "'m \<Rightarrow> 's \<Rightarrow> 's result"
    and written :: "'s \<Rightarrow> 's result"
  assumes submit_ready: "ready s \<Longrightarrow> valid m \<Longrightarrow> \<exists>s'. submit m s = Inr s' \<and> ready s' \<and> queued s' = queued s @ [m]"
    and written_ready: "ready s \<Longrightarrow> queued s = m # ms \<Longrightarrow>
      \<exists>s'. written s = Inr s' \<and> ready s' \<and> queued s' = ms"
begin

text \<open>A schedule: \<open>Some m\<close> submits \<open>m\<close>, \<open>None\<close> completes a write if one is in progress. The
  messages written come out as a list.\<close>

primrec pump :: "'m option list \<Rightarrow> 's \<Rightarrow> ('m list \<times> 's) result" where
  "pump [] s = Inr ([], s)"
| "pump (e # es) s =
     (case e of
        Some m \<Rightarrow> rbind (submit m s) (pump es)
      | None \<Rightarrow> (case queued s of
            [] \<Rightarrow> pump es s
          | m # _ \<Rightarrow> rbind (written s) (\<lambda>s'. rbind (pump es s') (\<lambda>(out, s''). Inr (m # out, s'')))))"

primrec submitted :: "'m option list \<Rightarrow> 'm list" where
  "submitted [] = []"
| "submitted (e # es) = (case e of Some m \<Rightarrow> m # submitted es | None \<Rightarrow> submitted es)"

lemma pump_fifo:
  assumes "ready s" "\<forall>m \<in> set (submitted es). valid m"
  shows "\<exists>out s'. pump es s = Inr (out, s') \<and> ready s' \<and> out @ queued s' = queued s @ submitted es"
  using assms
proof (induction es arbitrary: s)
  case (Cons e es)
  show ?case
  proof (cases e)
    case (Some m)
    from submit_ready [OF Cons.prems(1), of m] Cons.prems(2) Some obtain s1
      where s1: "submit m s = Inr s1" "ready s1" "queued s1 = queued s @ [m]" by auto
    from Cons.IH [OF s1(2)] show ?thesis using s1 Some Cons.prems(2) by auto
  next
    case None
    show ?thesis
    proof (cases "queued s")
      case Nil
      from Cons.IH [OF Cons.prems(1)] show ?thesis using None Nil Cons.prems(2) by simp
    next
      case q: (Cons m ms)
      from written_ready [OF Cons.prems(1) q] obtain s1
        where s1: "written s = Inr s1" "ready s1" "queued s1 = ms" by blast
      from Cons.IH [OF s1(2)] show ?thesis using s1 None q Cons.prems(2) by auto
    qed
  qed
qed simp

lemma pump_drains:
  assumes "ready s"
  shows "\<exists>s'. pump (replicate (length (queued s)) None) s = Inr (queued s, s') \<and> ready s' \<and> queued s' = []"
  using assms
proof (induction "queued s" arbitrary: s)
  case Nil
  from Nil.hyps [symmetric] Nil.prems show ?case by simp
next
  case (Cons m ms)
  note q = Cons.hyps(2) [symmetric]
  from written_ready [OF Cons.prems q] obtain s1
    where s1: "written s = Inr s1" "ready s1" "queued s1 = ms" by blast
  from Cons.hyps(1) [OF s1(3) [symmetric] s1(2)] show ?case
    using s1 q by auto
qed

end

end
