(* ===== verification/NetWriter.thy ===== *)
theory NetWriter
  imports NetHandshake WritePump
begin

text \<open>
  The writing chain of \<open>net_connection.hpp\<close>: the invariant between the outgoing queue and the
  write in progress, that no handler reads an empty queue, and that the bytes on the socket are
  the frames of the messages sent, in order.
\<close>

section \<open>Frames and the write in progress\<close>

definition frame :: "message \<Rightarrow> u8 list" where
  "frame m = header_bytes (header m) @ body m"

definition frames :: "message list \<Rightarrow> u8 list" where
  "frames ms = concat (map frame ms)"

lemma frames_simps [simp]:
  "frames [] = []" "frames (m # ms) = frame m @ frames ms" "frames (ms @ ns) = frames ms @ frames ns"
  by (simp_all add: frames_def)

fun is_data_write :: "async_op \<Rightarrow> bool" where
  "is_data_write (AsyncWriteHeader _) = True"
| "is_data_write (AsyncWriteBody _) = True"
| "is_data_write _ = False"

definition data_writes :: "connection \<Rightarrow> async_op list" where
  "data_writes c = filter is_data_write (pending c)"

definition outgoing :: "connection \<Rightarrow> message list" where
  "outgoing c = deqQueue (m_qMessagesOut c)"

fun write_matches :: "message list \<Rightarrow> async_op list \<Rightarrow> bool" where
  "write_matches [] ops = (ops = [])"
| "write_matches (m # ms) ops =
     (ops = [AsyncWriteHeader (header_bytes (header m))] \<or> ops = [AsyncWriteBody (body m)] \<and> body m \<noteq> [])"

text \<open>One write is in progress exactly when the queue is not empty, and it writes a part of the
  front message; or a write has failed, the socket is closed and nothing more is written.\<close>

definition pump_ok :: "connection \<Rightarrow> bool" where
  "pump_ok c \<longleftrightarrow> write_matches (outgoing c) (data_writes c)"

definition pump_dead :: "connection \<Rightarrow> bool" where
  "pump_dead c \<longleftrightarrow> data_writes c = [] \<and> outgoing c \<noteq> [] \<and> \<not> is_open (m_socket c)"

definition pump_inv :: "connection \<Rightarrow> bool" where
  "pump_inv c \<longleftrightarrow> pump_ok c \<or> pump_dead c"

fun owed :: "message list \<Rightarrow> async_op list \<Rightarrow> u8 list" where
  "owed [] ops = []"
| "owed (m # ms) (AsyncWriteBody b # _) = b @ frames ms"
| "owed (m # ms) _ = frame m @ frames ms"

definition backlog :: "connection \<Rightarrow> u8 list" where
  "backlog c = owed (outgoing c) (data_writes c)"

section \<open>Views\<close>

lemma view_start [simp]:
  "outgoing (start_op op c) = outgoing c"
  "data_writes (start_op op c) = data_writes c @ (if is_data_write op then [op] else [])"
  "m_socket (start_op op c) = m_socket c" "tasks (start_op op c) = tasks c"
  "m_nOwnerType (start_op op c) = m_nOwnerType c" "pending (start_op op c) = pending c @ [op]"
  by (simp_all add: start_op_def outgoing_def data_writes_def)

lemma view_close [simp]:
  "outgoing (close_socket c) = outgoing c" "data_writes (close_socket c) = data_writes c"
  "sent (m_socket (close_socket c)) = sent (m_socket c)" "\<not> is_open (m_socket (close_socket c))"
  "tasks (close_socket c) = tasks c" "pending (close_socket c) = pending c"
  "m_nOwnerType (close_socket c) = m_nOwnerType c"
  by (simp_all add: close_socket_def outgoing_def data_writes_def)

lemma view_accept [simp]:
  "outgoing (sock_accept xs c) = outgoing c" "data_writes (sock_accept xs c) = data_writes c"
  "sent (m_socket (sock_accept xs c)) = sent (m_socket c) @ xs"
  "is_open (m_socket (sock_accept xs c)) = is_open (m_socket c)"
  "tasks (sock_accept xs c) = tasks c" "pending (sock_accept xs c) = pending c"
  "m_nOwnerType (sock_accept xs c) = m_nOwnerType c" "m_qMessagesOut (sock_accept xs c) = m_qMessagesOut c"
  by (simp_all add: sock_accept_def outgoing_def data_writes_def)

lemma view_updates [simp]:
  "outgoing (c\<lparr>m_qMessagesOut := q\<rparr>) = deqQueue q" "data_writes (c\<lparr>m_qMessagesOut := q\<rparr>) = data_writes c"
  "outgoing (c\<lparr>tasks := ts\<rparr>) = outgoing c" "data_writes (c\<lparr>tasks := ts\<rparr>) = data_writes c"
  "outgoing (c\<lparr>pending := ops\<rparr>) = outgoing c" "data_writes (c\<lparr>pending := ops\<rparr>) = filter is_data_write ops"
  "outgoing (c\<lparr>m_msgTemporaryIn := m\<rparr>) = outgoing c" "data_writes (c\<lparr>m_msgTemporaryIn := m\<rparr>) = data_writes c"
  "outgoing (c\<lparr>m_qMessagesIn := qi\<rparr>) = outgoing c" "data_writes (c\<lparr>m_qMessagesIn := qi\<rparr>) = data_writes c"
  "outgoing (c\<lparr>m_nHandshakeIn := w\<rparr>) = outgoing c" "data_writes (c\<lparr>m_nHandshakeIn := w\<rparr>) = data_writes c"
  "outgoing (c\<lparr>m_nHandshakeOut := w\<rparr>) = outgoing c" "data_writes (c\<lparr>m_nHandshakeOut := w\<rparr>) = data_writes c"
  by (simp_all add: outgoing_def data_writes_def)

lemma filter_pending [simp]: "filter is_data_write (pending c) = data_writes c"
  by (simp add: data_writes_def)

section \<open>The handlers on a queue in order\<close>

lemma WriteHeader_eq:
  "WriteHeader c = (case outgoing c of [] \<Rightarrow> Inl EmptyDeque
     | m # _ \<Rightarrow> Inr (start_op (AsyncWriteHeader (header_bytes (header m))) c))"
  by (simp add: WriteHeader_def front_def outgoing_def split: list.split)

lemma WriteBody_eq:
  "WriteBody c = (case outgoing c of [] \<Rightarrow> Inl EmptyDeque
     | m # _ \<Rightarrow> Inr (start_op (AsyncWriteBody (body m)) c))"
  by (simp add: WriteBody_def front_def outgoing_def split: list.split)

lemma next_message_eq:
  "next_message c = (case outgoing c of [] \<Rightarrow> Inl EmptyDeque
     | m # ms \<Rightarrow> (let c' = c\<lparr>m_qMessagesOut := (m_qMessagesOut c)\<lparr>deqQueue := ms\<rparr>\<rparr>
        in case ms of [] \<Rightarrow> Inr c'
           | m' # _ \<Rightarrow> Inr (start_op (AsyncWriteHeader (header_bytes (header m'))) c')))"
  by (simp add: next_message_def pop_front_def outgoing_def WriteHeader_def front_def empty_def Let_def
      split: list.split)

lemma WriteHeader_done_eq:
  "WriteHeader_done False c = (case outgoing c of [] \<Rightarrow> Inl EmptyDeque
     | m # _ \<Rightarrow> if body m \<noteq> [] then WriteBody c else next_message c)"
  by (simp add: WriteHeader_done_def front_def outgoing_def split: list.split)

lemma run_send_eq:
  "run_send m c = (let c' = c\<lparr>m_qMessagesOut := push_back m (m_qMessagesOut c)\<rparr>
     in if outgoing c = [] then Inr (start_op (AsyncWriteHeader (header_bytes (header m))) c') else Inr c')"
  by (simp add: run_send_def empty_def outgoing_def WriteHeader_def front_def Let_def)

lemma deqQueue_outgoing [simp]: "deqQueue (m_qMessagesOut c) = outgoing c"
  by (simp add: outgoing_def)

text \<open>What the writing chain never touches.\<close>

definition other_ops :: "connection \<Rightarrow> async_op list" where
  "other_ops c = filter (\<lambda>op. \<not> is_data_write op) (pending c)"

definition same_rest :: "connection \<Rightarrow> connection \<Rightarrow> bool" where
  "same_rest c c' \<longleftrightarrow> other_ops c' = other_ops c \<and> tasks c' = tasks c \<and> m_nOwnerType c' = m_nOwnerType c
     \<and> is_open (m_socket c') = is_open (m_socket c)"

lemma other_ops_start [simp]:
  "other_ops (start_op op c) = other_ops c @ (if is_data_write op then [] else [op])"
  by (simp add: other_ops_def)

lemma other_ops_updates [simp]:
  "other_ops (c\<lparr>m_qMessagesOut := q\<rparr>) = other_ops c" "other_ops (c\<lparr>tasks := ts\<rparr>) = other_ops c"
  "other_ops (c\<lparr>m_msgTemporaryIn := m\<rparr>) = other_ops c" "other_ops (c\<lparr>m_qMessagesIn := qi\<rparr>) = other_ops c"
  "other_ops (c\<lparr>m_nHandshakeIn := w\<rparr>) = other_ops c" "other_ops (c\<lparr>m_nHandshakeOut := w\<rparr>) = other_ops c"
  "other_ops (sock_accept xs c) = other_ops c" "other_ops (close_socket c) = other_ops c"
  by (simp_all add: other_ops_def)

section \<open>One step of the chain\<close>

text \<open>A message submitted while the chain is in order, or after a failure.\<close>

lemma run_send_ok:
  assumes "pump_ok c"
  shows "\<exists>c'. run_send m c = Inr c' \<and> pump_ok c' \<and> outgoing c' = outgoing c @ [m]
     \<and> backlog c' = backlog c @ frame m \<and> sent (m_socket c') = sent (m_socket c) \<and> same_rest c c'"
proof (cases "outgoing c")
  case Nil
  then show ?thesis using assms
    by (simp add: run_send_eq pump_ok_def backlog_def Let_def same_rest_def)
next
  case (Cons m0 ms)
  then show ?thesis using assms
    by (auto simp: run_send_eq pump_ok_def backlog_def Let_def same_rest_def)
qed

lemma run_send_dead:
  assumes "pump_dead c"
  shows "\<exists>c'. run_send m c = Inr c' \<and> pump_dead c' \<and> sent (m_socket c') = sent (m_socket c) \<and> same_rest c c'"
  using assms by (auto simp: run_send_eq pump_dead_def Let_def same_rest_def)

text \<open>The end of the front message: its last byte is written, the next header goes out.\<close>

lemma next_message_ok:
  assumes "outgoing c = m # ms" "data_writes c = []"
  shows "\<exists>c'. next_message c = Inr c' \<and> pump_ok c' \<and> outgoing c' = ms \<and> backlog c' = frames ms
     \<and> sent (m_socket c') = sent (m_socket c) \<and> same_rest c c'"
  using assms by (cases ms) (simp_all add: next_message_eq pump_ok_def backlog_def Let_def same_rest_def)

text \<open>A write completes. \<open>c\<close> is the connection with the operation taken off \<open>pending\<close>.\<close>

lemma WriteHeader_done_ok:
  assumes "outgoing c = m # ms" "data_writes c = []"
  shows "\<exists>c'. WriteHeader_done False c = Inr c' \<and> pump_ok c' \<and> backlog c' = body m @ frames ms
     \<and> outgoing c' = (if body m = [] then ms else m # ms)
     \<and> sent (m_socket c') = sent (m_socket c) \<and> same_rest c c'"
proof (cases "body m = []")
  case True
  then show ?thesis using next_message_ok [OF assms] assms by (auto simp: WriteHeader_done_eq)
next
  case False
  then show ?thesis using assms
    by (simp add: WriteHeader_done_eq WriteBody_eq pump_ok_def backlog_def same_rest_def)
qed

lemma remove_data_write:
  "data_writes c = [op] \<Longrightarrow> data_writes (c\<lparr>pending := remove1 op (pending c)\<rparr>) = []"
  by (simp add: filter_remove1)

lemma remove_other:
  "\<not> is_data_write op \<Longrightarrow> data_writes (c\<lparr>pending := remove1 op (pending c)\<rparr>) = data_writes c"
proof -
  assume "\<not> is_data_write op"
  then have "op \<notin> set (data_writes c)" by (simp add: data_writes_def del: filter_pending)
  then show ?thesis by (simp add: filter_remove1 remove1_idem)
qed

lemma other_ops_remove:
  "other_ops (c\<lparr>pending := remove1 op (pending c)\<rparr>) = remove1 op (other_ops c)"
proof (cases "is_data_write op")
  case True
  then have "op \<notin> set (other_ops c)" by (simp add: other_ops_def)
  with True show ?thesis by (simp add: other_ops_def filter_remove1 remove1_idem)
qed (simp add: other_ops_def filter_remove1)

lemma other_ops_remove_data:
  "is_data_write op \<Longrightarrow> other_ops (c\<lparr>pending := remove1 op (pending c)\<rparr>) = other_ops c"
  unfolding other_ops_remove by (simp add: other_ops_def remove1_idem)

lemma pending_data_write:
  "pump_ok c \<Longrightarrow> op \<in> set (pending c) \<Longrightarrow> is_data_write op \<Longrightarrow> data_writes c = [op] \<and> outgoing c \<noteq> []"
proof -
  assume "pump_ok c" and op: "op \<in> set (pending c)" "is_data_write op"
  then have "op \<in> set (data_writes c)" by (simp add: data_writes_def del: filter_pending)
  with \<open>pump_ok c\<close> show ?thesis by (cases "outgoing c") (auto simp: pump_ok_def)
qed

lemma dead_no_data_write: "pump_dead c \<Longrightarrow> op \<in> set (pending c) \<Longrightarrow> \<not> is_data_write op"
  by (auto simp: pump_dead_def data_writes_def filter_empty_conv simp del: filter_pending)

text \<open>Completion of a data write, in order or failed.\<close>

lemma complete_data_write:
  assumes ok: "pump_ok c" and op: "op \<in> set (pending c)" "is_data_write op" and tr: "transfer_ok op ec xs"
  shows "\<exists>c'. complete op ec xs (c\<lparr>pending := remove1 op (pending c)\<rparr>) = Inr c'
     \<and> other_ops c' = other_ops c \<and> tasks c' = tasks c \<and> m_nOwnerType c' = m_nOwnerType c
     \<and> sent (m_socket c') = sent (m_socket c) @ xs
     \<and> (if ec then pump_dead c' \<and> prefix xs (backlog c)
        else pump_ok c' \<and> backlog c = xs @ backlog c')"
proof -
  let ?c = "sock_accept xs (c\<lparr>pending := remove1 op (pending c)\<rparr>)"
  from pending_data_write [OF ok op] obtain m ms
    where dw: "data_writes c = [op]" and out: "outgoing c = m # ms" by (cases "outgoing c") auto
  note rm = remove_data_write [OF dw] and oth = other_ops_remove_data [OF op(2), of c]
  show ?thesis
  proof (cases op)
    case (AsyncWriteHeader hb)
    have hb: "hb = header_bytes (header m)" using ok dw out AsyncWriteHeader by (simp add: pump_ok_def)
    have bl: "backlog c = hb @ body m @ frames ms" using dw out AsyncWriteHeader hb
      by (simp add: backlog_def frame_def)
    show ?thesis
    proof (cases ec)
      case True
      then show ?thesis using tr rm oth out bl AsyncWriteHeader
        by (auto simp: WriteHeader_done_def pump_dead_def intro: prefix_prefix)
    next
      case False
      have "outgoing ?c = m # ms" "data_writes ?c = []" using out rm by simp_all
      from WriteHeader_done_ok [OF this] show ?thesis using False tr bl oth AsyncWriteHeader
        by (auto simp: same_rest_def)
    qed
  next
    case (AsyncWriteBody b)
    have b: "b = body m" using ok dw out AsyncWriteBody by (simp add: pump_ok_def)
    have bl: "backlog c = b @ frames ms" using dw out AsyncWriteBody by (simp add: backlog_def)
    show ?thesis
    proof (cases ec)
      case True
      then show ?thesis using tr rm oth out bl AsyncWriteBody
        by (auto simp: WriteBody_done_def pump_dead_def intro: prefix_prefix)
    next
      case False
      have "outgoing ?c = m # ms" "data_writes ?c = []" using out rm by simp_all
      from next_message_ok [OF this] show ?thesis using False tr bl oth AsyncWriteBody
        by (auto simp: WriteBody_done_def same_rest_def)
    qed
  qed (use op in simp_all)
qed

section \<open>Every event keeps the chain in order\<close>

definition sends_of :: "io_event \<Rightarrow> message list" where
  "sends_of e = (case e of CallSend m \<Rightarrow> [m] | _ \<Rightarrow> [])"

definition sends :: "io_event list \<Rightarrow> message list" where
  "sends es = concat (map sends_of es)"

lemma sends_simps [simp]: "sends [] = []" "sends (e # es) = sends_of e @ sends es"
  by (simp_all add: sends_def)

fun task_sends :: "task list \<Rightarrow> message list" where
  "task_sends [] = []"
| "task_sends (TaskSend m # ts) = m # task_sends ts"
| "task_sends (TaskClose # ts) = task_sends ts"

lemma task_sends_append [simp]: "task_sends (ts @ us) = task_sends ts @ task_sends us"
  by (induction ts rule: task_sends.induct) simp_all

definition posted :: "connection \<Rightarrow> message list" where
  "posted c = task_sends (tasks c)"

text \<open>An operation other than a data write: it leaves queue and data writes alone.\<close>

lemma complete_other:
  assumes "\<not> is_data_write op"
  shows "\<exists>c'. complete op ec xs c = Inr c' \<and> outgoing c' = outgoing c \<and> data_writes c' = data_writes c
     \<and> tasks c' = tasks c
     \<and> (is_open (m_socket c') \<longrightarrow> is_open (m_socket c))
     \<and> sent (m_socket c') = sent (m_socket c) @ (case op of AsyncWriteValidation _ \<Rightarrow> xs | _ \<Rightarrow> [])"
proof (cases op)
  case AsyncReadHeader
  then show ?thesis
    by (simp add: ReadHeader_done_def store_header_def ReadBody_def AddToIncomingMessageQueue_def
        ReadHeader_def Let_def)
next
  case (AsyncReadBody n)
  then show ?thesis
    by (simp add: ReadBody_done_def store_body_def AddToIncomingMessageQueue_def ReadHeader_def Let_def)
next
  case AsyncReadValidation
  then show ?thesis
    by (simp add: ReadValidation_done_def store_validation_def OnClientValidated_base_def ReadHeader_def
        WriteValidation_def)
qed (use assms in \<open>simp_all add: Connect_done_def WriteValidation_done_def ReadValidation_def ReadHeader_def\<close>)

lemma pump_inv_view:
  assumes "pump_inv c" "outgoing c' = outgoing c" "data_writes c' = data_writes c"
    "is_open (m_socket c') \<longrightarrow> is_open (m_socket c)"
  shows "pump_inv c'"
  using assms by (auto simp: pump_inv_def pump_ok_def pump_dead_def)

text \<open>The writing chain never faults, whatever completes, fails or is called.\<close>

lemma pump_inv_exec:
  assumes "pump_inv c"
  shows "\<exists>c'. conn_exec e c = Inr c' \<and> pump_inv c'"
proof (cases e)
  case (CallSend m)
  then show ?thesis using pump_inv_view [OF assms] by (simp add: conn_Send_def post_task_def)
next
  case CallDisconnect
  then show ?thesis using pump_inv_view [OF assms]
    by (simp add: conn_Disconnect_def post_task_def IsConnected_def assms)
next
  case RunTask
  show ?thesis
  proof (cases "tasks c")
    case Nil
    then show ?thesis using RunTask assms by simp
  next
    case (Cons t ts)
    let ?c = "c\<lparr>tasks := ts\<rparr>"
    have inv: "pump_inv ?c" by (rule pump_inv_view [OF assms]) simp_all
    show ?thesis
    proof (cases t)
      case (TaskSend m)
      then show ?thesis using RunTask Cons inv run_send_ok [of ?c m] run_send_dead [of ?c m]
        by (auto simp: pump_inv_def)
    next
      case TaskClose
      then show ?thesis using RunTask Cons pump_inv_view [OF inv, of "close_socket ?c"] by simp
    qed
  qed
next
  case (Complete op ec xs)
  show ?thesis
  proof (cases "op \<in> set (pending c) \<and> transfer_ok op ec xs")
    case False
    then show ?thesis using Complete assms by auto
  next
    case True
    show ?thesis
    proof (cases "is_data_write op")
      case True
      then have "pump_ok c" using assms \<open>op \<in> _ \<and> _\<close> dead_no_data_write [of c op] by (auto simp: pump_inv_def)
      from complete_data_write [OF this _ True] \<open>op \<in> _ \<and> _\<close> obtain c'
        where "complete op ec xs (c\<lparr>pending := remove1 op (pending c)\<rparr>) = Inr c'"
          "if ec then pump_dead c' \<and> prefix xs (backlog c) else pump_ok c' \<and> backlog c = xs @ backlog c'"
        by blast
      then show ?thesis using Complete \<open>op \<in> _ \<and> _\<close> by (auto simp: pump_inv_def split: if_splits)
    next
      case False
      let ?c = "c\<lparr>pending := remove1 op (pending c)\<rparr>"
      from complete_other [OF False, of ec xs ?c] obtain c'
        where c': "complete op ec xs ?c = Inr c'" "outgoing c' = outgoing c" "data_writes c' = data_writes c"
          "is_open (m_socket c') \<longrightarrow> is_open (m_socket c)"
        using remove_other [OF False, of c] by auto
      then show ?thesis using Complete True pump_inv_view [OF assms c'(2-4)] by auto
    qed
  qed
qed

lemma pump_ok_new:
  "pump_ok (accepting self q now uid)" "pump_ok (connecting self q)"
  by (auto simp: pump_ok_def outgoing_def data_writes_def opening_defs
      simp del: filter_pending deqQueue_outgoing)

section \<open>The byte stream\<close>

text \<open>After the handshake: no validation write is in progress or can still be started.\<close>

definition data_phase :: "connection \<Rightarrow> bool" where
  "data_phase c \<longleftrightarrow> (\<forall>op \<in> set (other_ops c).
     (\<forall>bs. op \<noteq> AsyncWriteValidation bs)
     \<and> (m_nOwnerType c = OwnerClient \<longrightarrow> op \<noteq> AsyncReadValidation \<and> op \<noteq> AsyncConnect))"

lemma data_phase_view:
  "data_phase c \<Longrightarrow> set (other_ops c') \<subseteq> set (other_ops c) \<Longrightarrow> m_nOwnerType c' = m_nOwnerType c \<Longrightarrow>
   data_phase c'"
  by (auto simp: data_phase_def)

lemma data_phase_op:
  assumes "data_phase c" "op \<in> set (pending c)"
  shows "op \<noteq> AsyncWriteValidation bs"
    and "m_nOwnerType c = OwnerClient \<Longrightarrow> op \<noteq> AsyncReadValidation \<and> op \<noteq> AsyncConnect"
proof -
  have "is_data_write op \<or> op \<in> set (other_ops c)" using assms(2) by (auto simp: other_ops_def)
  with assms(1) show "op \<noteq> AsyncWriteValidation bs"
    and "m_nOwnerType c = OwnerClient \<Longrightarrow> op \<noteq> AsyncReadValidation \<and> op \<noteq> AsyncConnect"
    unfolding data_phase_def by (metis is_data_write.simps)+
qed

lemma data_phase_frame [simp]:
  "data_phase (start_op AsyncReadHeader c) = data_phase c"
  "data_phase (start_op (AsyncReadBody n) c) = data_phase c"
  "data_phase (close_socket c) = data_phase c"
  "data_phase (c\<lparr>m_msgTemporaryIn := m\<rparr>) = data_phase c"
  "data_phase (c\<lparr>m_qMessagesIn := q\<rparr>) = data_phase c"
  "data_phase (c\<lparr>m_nHandshakeIn := w\<rparr>) = data_phase c"
  "data_phase (c\<lparr>tasks := ts\<rparr>) = data_phase c"
  by (auto simp: data_phase_def)

lemma complete_phase:
  assumes "data_phase c" "op \<in> set (pending c)" "\<not> is_data_write op"
    and "complete op ec xs (c\<lparr>pending := remove1 op (pending c)\<rparr>) = Inr c'"
  shows "data_phase c'"
proof -
  let ?c = "c\<lparr>pending := remove1 op (pending c)\<rparr>"
  have ph: "data_phase ?c"
    by (rule data_phase_view [OF assms(1)]) (simp_all add: other_ops_remove set_remove1_subset)
  have own: "m_nOwnerType c = OwnerServer \<or> m_nOwnerType c = OwnerClient" by (cases "m_nOwnerType c") auto
  show ?thesis
  proof (cases op)
    case AsyncConnect
    then have "m_nOwnerType c = OwnerServer" using data_phase_op(2) [OF assms(1,2)] own by auto
    then show ?thesis using ph assms(4) AsyncConnect
      by (auto simp: Connect_done_def ReadValidation_def data_phase_def split: if_splits)
  next
    case AsyncReadHeader
    then show ?thesis using ph assms(4)
      by (auto simp: ReadHeader_done_def store_header_def ReadBody_def AddToIncomingMessageQueue_def
          ReadHeader_def Let_def split: if_splits)
  next
    case (AsyncReadBody n)
    then show ?thesis using ph assms(4)
      by (auto simp: ReadBody_done_def store_body_def AddToIncomingMessageQueue_def ReadHeader_def Let_def
          split: if_splits)
  next
    case AsyncReadValidation
    then have "m_nOwnerType c = OwnerServer" using data_phase_op(2) [OF assms(1,2)] own by auto
    then show ?thesis using ph assms(4) AsyncReadValidation
      by (auto simp: ReadValidation_done_def store_validation_def OnClientValidated_base_def ReadHeader_def
          split: if_splits)
  qed (use assms(3) data_phase_op(1) [OF assms(1,2)] in auto)
qed

text \<open>\<open>Stream c S\<close>: the socket has accepted a prefix of \<open>S\<close>, and as long as no write has failed
  the rest of \<open>S\<close> is what the chain and the posted tasks still have to write.\<close>

definition Stream :: "connection \<Rightarrow> u8 list \<Rightarrow> bool" where
  "Stream c S \<longleftrightarrow> pump_inv c \<and> prefix (sent (m_socket c)) S
     \<and> (pump_ok c \<longrightarrow> sent (m_socket c) @ backlog c @ frames (posted c) = S)"

lemma not_ok_and_dead: "pump_ok c \<Longrightarrow> \<not> pump_dead c"
  by (cases "outgoing c") (auto simp: pump_ok_def pump_dead_def)

lemma Stream_dead: "pump_dead c \<Longrightarrow> Stream c S \<longleftrightarrow> prefix (sent (m_socket c)) S"
  using not_ok_and_dead [of c] by (auto simp: Stream_def pump_inv_def)

lemma Stream_ok: "pump_ok c \<Longrightarrow> Stream c S \<longleftrightarrow> sent (m_socket c) @ backlog c @ frames (posted c) = S"
  by (auto simp: Stream_def pump_inv_def)

lemma Stream_view:
  assumes "Stream c S" "outgoing c' = outgoing c" "data_writes c' = data_writes c"
    "sent (m_socket c') = sent (m_socket c)" "is_open (m_socket c') \<longrightarrow> is_open (m_socket c)"
    "posted c' = posted c @ ms"
  shows "Stream c' (S @ frames ms)"
proof -
  have "pump_inv c'" using assms pump_inv_view [of c c'] by (simp add: Stream_def)
  moreover have "prefix (sent (m_socket c')) (S @ frames ms)"
    using assms(1,4) by (simp add: Stream_def)
  moreover have "pump_ok c' = pump_ok c" "backlog c' = backlog c"
    using assms(2,3) by (simp_all add: pump_ok_def backlog_def)
  ultimately show ?thesis using assms(1,4,6) by (auto simp: Stream_def)
qed

lemma Stream_exec:
  assumes st: "Stream c S" and ph: "data_phase c" and ex: "conn_exec e c = Inr c'"
  shows "Stream c' (S @ frames (sends_of e)) \<and> data_phase c'"
proof (cases e)
  case (CallSend m)
  with ex have c': "c' = post_task (TaskSend m) c" by (simp add: conn_Send_def)
  then show ?thesis using Stream_view [OF st, of c' "[m]"] data_phase_view [OF ph, of c'] CallSend
    by (simp add: post_task_def posted_def sends_of_def)
next
  case CallDisconnect
  show ?thesis
  proof (cases "is_open (m_socket c)")
    case True
    then have c': "c' = post_task TaskClose c"
      using ex CallDisconnect by (simp add: conn_Disconnect_def IsConnected_def)
    then show ?thesis using Stream_view [OF st, of c' "[]"] data_phase_view [OF ph, of c'] CallDisconnect
      by (simp add: post_task_def posted_def sends_of_def)
  next
    case False
    then show ?thesis using ex st ph CallDisconnect
      by (simp add: conn_Disconnect_def IsConnected_def sends_of_def)
  qed
next
  case RunTask
  show ?thesis
  proof (cases "tasks c")
    case Nil
    then show ?thesis using RunTask ex st ph by (simp add: sends_of_def)
  next
    case (Cons t ts)
    let ?c = "c\<lparr>tasks := ts\<rparr>"
    have ph': "data_phase ?c" using ph by simp
    show ?thesis
    proof (cases t)
      case (TaskSend m)
      have ex': "run_send m ?c = Inr c'" using ex RunTask Cons TaskSend by simp
      have po: "posted c = m # posted ?c" using Cons TaskSend by (simp add: posted_def)
      consider "pump_ok ?c" "pump_ok c" | "pump_dead ?c" "pump_dead c"
        using st by (auto simp: Stream_def pump_inv_def pump_ok_def pump_dead_def)
      then show ?thesis
      proof cases
        case 1
        from run_send_ok [OF 1(1), of m] ex' show ?thesis
          using st ph' po 1 RunTask
          by (auto simp: Stream_ok sends_of_def same_rest_def posted_def backlog_def
              intro: data_phase_view [OF ph'])
      next
        case 2
        from run_send_dead [OF 2(1), of m] ex' show ?thesis
          using st ph' 2 RunTask
          by (auto simp: Stream_dead sends_of_def same_rest_def intro: data_phase_view [OF ph'])
      qed
    next
      case TaskClose
      then have "c' = close_socket ?c" using ex RunTask Cons by simp
      then show ?thesis using Stream_view [OF st, of c' "[]"] ph' RunTask Cons TaskClose
        by (simp add: sends_of_def posted_def)
    qed
  qed
next
  case (Complete op ec xs)
  show ?thesis
  proof (cases "op \<in> set (pending c) \<and> transfer_ok op ec xs")
    case False
    then show ?thesis using ex Complete st ph by (auto simp: sends_of_def)
  next
    case True
    then have ex': "complete op ec xs (c\<lparr>pending := remove1 op (pending c)\<rparr>) = Inr c'"
      using ex Complete by simp
    show ?thesis
    proof (cases "is_data_write op")
      case dw: True
      have ok: "pump_ok c" using st True dw dead_no_data_write [of c op] by (auto simp: Stream_def pump_inv_def)
      have S: "sent (m_socket c) @ backlog c @ frames (posted c) = S" using st ok by (simp add: Stream_ok)
      from complete_data_write [OF ok _ dw] True ex'
      have c': "other_ops c' = other_ops c" "tasks c' = tasks c" "m_nOwnerType c' = m_nOwnerType c"
        "sent (m_socket c') = sent (m_socket c) @ xs"
        "if ec then pump_dead c' \<and> prefix xs (backlog c) else pump_ok c' \<and> backlog c = xs @ backlog c'"
        by fastforce+
      have "data_phase c'" using data_phase_view [OF ph, of c'] c'(1,3) by simp
      moreover have "Stream c' S"
      proof (cases ec)
        case True
        then show ?thesis using c' S [symmetric] by (auto simp: Stream_dead prefix_def)
      next
        case False
        then show ?thesis using c' S by (auto simp: Stream_ok posted_def)
      qed
      ultimately show ?thesis using Complete by (simp add: sends_of_def)
    next
      case False
      let ?c = "c\<lparr>pending := remove1 op (pending c)\<rparr>"
      have "(case op of AsyncWriteValidation _ \<Rightarrow> xs | _ \<Rightarrow> []) = []"
        using data_phase_op(1) [OF ph, of op] True by (auto split: async_op.split)
      with complete_other [OF False, of ec xs ?c] ex'
      have "outgoing c' = outgoing c" "data_writes c' = data_writes c" "tasks c' = tasks c"
        "is_open (m_socket c') \<longrightarrow> is_open (m_socket c)" "sent (m_socket c') = sent (m_socket c)"
        using remove_other [OF False, of c] by auto
      moreover have "data_phase c'" using complete_phase [OF ph _ False ex'] True by blast
      ultimately show ?thesis using Stream_view [OF st, of c' "[]"] Complete
        by (simp add: sends_of_def posted_def)
    qed
  qed
qed

lemma Stream_run:
  "Stream c S \<Longrightarrow> data_phase c \<Longrightarrow> conn_run es c = Inr c' \<Longrightarrow>
   Stream c' (S @ frames (sends es)) \<and> data_phase c'"
proof (induction es arbitrary: c S)
  case (Cons e es)
  from Cons.prems(3) obtain c1 where c1: "conn_exec e c = Inr c1" "conn_run es c1 = Inr c'"
    by (auto simp: rbind_Inr_conv)
  note st = Stream_exec [OF Cons.prems(1,2) c1(1)]
  from Cons.IH [OF st [THEN conjunct1] st [THEN conjunct2] c1(2)] show ?case by simp
qed simp

lemma pump_inv_run: "pump_inv c \<Longrightarrow> \<exists>c'. conn_run es c = Inr c' \<and> pump_inv c'"
  by (rule run_events_inv) (use pump_inv_exec in blast)+

section \<open>The chain as a write pump\<close>

text \<open>A whole message written: its header, then its body unless that is empty.\<close>

definition whole_write :: "message \<Rightarrow> io_event list" where
  "whole_write m =
     Complete (AsyncWriteHeader (header_bytes (header m))) False (header_bytes (header m))
     # (if body m = [] then [] else [Complete (AsyncWriteBody (body m)) False (body m)])"

definition conn_written :: "connection \<Rightarrow> connection result" where
  "conn_written c = (case outgoing c of [] \<Rightarrow> Inr c | m # _ \<Rightarrow> conn_run (whole_write m) c)"

text \<open>Between two messages: the write in progress, if any, is a header.\<close>

fun at_header :: "message list \<Rightarrow> async_op list \<Rightarrow> bool" where
  "at_header [] ops = (ops = [])"
| "at_header (m # ms) ops = (ops = [AsyncWriteHeader (header_bytes (header m))])"

definition conn_ready :: "connection \<Rightarrow> bool" where
  "conn_ready c \<longleftrightarrow> at_header (outgoing c) (data_writes c)"

lemma ready_ok: "conn_ready c \<Longrightarrow> pump_ok c"
  by (cases "outgoing c") (auto simp: conn_ready_def pump_ok_def)

lemma next_message_ready:
  assumes "outgoing c = m # ms" "data_writes c = []"
  shows "\<exists>c'. next_message c = Inr c' \<and> conn_ready c' \<and> outgoing c' = ms"
  using assms by (cases ms) (simp_all add: next_message_eq conn_ready_def Let_def)

lemma exec_write_header:
  assumes "conn_ready c" "outgoing c = m # ms"
  shows "\<exists>c1. conn_exec (Complete (AsyncWriteHeader (header_bytes (header m))) False (header_bytes (header m))) c = Inr c1
    \<and> outgoing c1 = (if body m = [] then ms else m # ms)
    \<and> (if body m = [] then conn_ready c1 else data_writes c1 = [AsyncWriteBody (body m)])"
proof -
  let ?op = "AsyncWriteHeader (header_bytes (header m))"
  let ?c = "sock_accept (header_bytes (header m)) (c\<lparr>pending := remove1 ?op (pending c)\<rparr>)"
  have dw: "data_writes c = [?op]" using assms by (simp add: conn_ready_def)
  then have "?op \<in> set (data_writes c)" by simp
  then have op: "?op \<in> set (pending c)" by (simp add: data_writes_def del: filter_pending)
  have c: "outgoing ?c = m # ms" "data_writes ?c = []" using assms(2) remove_data_write [OF dw] by simp_all
  show ?thesis
  proof (cases "body m = []")
    case True
    then show ?thesis using op next_message_ready [OF c] c by (auto simp: WriteHeader_done_eq)
  next
    case False
    then show ?thesis using op c by (simp add: WriteHeader_done_eq WriteBody_eq)
  qed
qed

lemma exec_write_body:
  assumes "data_writes c = [AsyncWriteBody (body m)]" "outgoing c = m # ms"
  shows "\<exists>c1. conn_exec (Complete (AsyncWriteBody (body m)) False (body m)) c = Inr c1
    \<and> conn_ready c1 \<and> outgoing c1 = ms"
proof -
  let ?op = "AsyncWriteBody (body m)"
  let ?c = "sock_accept (body m) (c\<lparr>pending := remove1 ?op (pending c)\<rparr>)"
  have "?op \<in> set (data_writes c)" using assms by simp
  then have op: "?op \<in> set (pending c)" by (simp add: data_writes_def del: filter_pending)
  have "outgoing ?c = m # ms" "data_writes ?c = []"
    using assms(2) remove_data_write [OF assms(1)] by simp_all
  from next_message_ready [OF this] show ?thesis using op by (auto simp: WriteBody_done_def)
qed

lemma conn_written_ready:
  assumes "conn_ready c" "outgoing c = m # ms"
  shows "\<exists>c'. conn_written c = Inr c' \<and> conn_ready c' \<and> outgoing c' = ms"
proof -
  from exec_write_header [OF assms] obtain c1
    where c1: "conn_exec (Complete (AsyncWriteHeader (header_bytes (header m))) False (header_bytes (header m))) c = Inr c1"
      "outgoing c1 = (if body m = [] then ms else m # ms)"
      "if body m = [] then conn_ready c1 else data_writes c1 = [AsyncWriteBody (body m)]" by blast
  show ?thesis
  proof (cases "body m = []")
    case True
    then show ?thesis using c1 assms(2) by (simp add: conn_written_def whole_write_def)
  next
    case False
    with c1 exec_write_body [of c1 m ms] obtain c2
      where "conn_exec (Complete (AsyncWriteBody (body m)) False (body m)) c1 = Inr c2"
        "conn_ready c2" "outgoing c2 = ms" by auto
    then show ?thesis using False c1 assms(2)
      by (simp add: conn_written_def whole_write_def del: conn_exec.simps)
  qed
qed

lemma run_send_ready:
  assumes "conn_ready c"
  shows "\<exists>c'. run_send m c = Inr c' \<and> conn_ready c' \<and> outgoing c' = outgoing c @ [m]"
proof (cases "outgoing c")
  case Nil
  then show ?thesis using assms by (simp add: run_send_eq conn_ready_def Let_def)
next
  case (Cons m0 ms)
  then show ?thesis using assms by (simp add: run_send_eq conn_ready_def Let_def)
qed

interpretation conn_pump: write_pump "\<lambda>_. True" outgoing conn_ready run_send conn_written
  by unfold_locales (auto intro: run_send_ready conn_written_ready)

section \<open>Properties\<close>

text \<open>C8: no schedule of calls, completions and failures makes a connection read or pop an empty
  outgoing queue: from construction on, for a server's and for a client's connection, every
  sequence of events runs without undefined behaviour.\<close>

theorem connection_never_faults:
  "(\<exists>c. conn_run es (accepting self q now uid) = Inr c)
   \<and> (\<exists>c. conn_run es (connecting self q) = Inr c)"
  using pump_inv_run [of "accepting self q now uid" es] pump_inv_run [of "connecting self q" es] pump_ok_new
  by (auto simp: pump_inv_def)

text \<open>C1: the outgoing byte stream is intact. Once the handshake is over, the bytes a connection
  puts on its socket are always a prefix of the frames (header, then body) of the messages
  passed to \<open>Send\<close>, in the order of the calls, whatever else happens; and when the chain has
  emptied its queue they are exactly those frames.\<close>

theorem outgoing_stream_intact:
  assumes "data_phase c" "outgoing c = []" "data_writes c = []" "tasks c = []"
  shows "\<exists>c'. conn_run es c = Inr c'
     \<and> prefix (sent (m_socket c')) (sent (m_socket c) @ frames (sends es))
     \<and> (outgoing c' = [] \<and> tasks c' = [] \<longrightarrow> sent (m_socket c') = sent (m_socket c) @ frames (sends es))"
proof -
  have ok: "pump_ok c" using assms by (simp add: pump_ok_def)
  then have st: "Stream c (sent (m_socket c))"
    using assms by (simp add: Stream_ok backlog_def posted_def)
  obtain c' where c': "conn_run es c = Inr c'" "pump_inv c'"
    using pump_inv_run [of c es] ok by (auto simp: pump_inv_def)
  from Stream_run [OF st assms(1) c'(1)] have st': "Stream c' (sent (m_socket c) @ frames (sends es))" by simp
  have "sent (m_socket c') = sent (m_socket c) @ frames (sends es)" if "outgoing c' = []" "tasks c' = []"
    using st' c'(2) that
    by (auto simp: Stream_def pump_inv_def pump_dead_def backlog_def posted_def)
  then show ?thesis using c' st' by (auto simp: Stream_def)
qed

definition established :: connection where
  "established = (new_connection OwnerServer 1 \<lparr>is_open = True, sent = []\<rparr> new_tsqueue 7)
     \<lparr>pending := [AsyncReadHeader]\<rparr>"

lemma data_phase_established:
  "data_phase established" "outgoing established = []" "data_writes established = []" "tasks established = []"
  by (simp_all add: established_def data_phase_def other_ops_def outgoing_def
      data_writes_def new_connection_def del: filter_pending deqQueue_outgoing)

theorem outgoing_stream_intact_witness:
  "\<exists>c'. conn_run [CallSend (op_push [1] default_message), CallSend default_message, RunTask] established = Inr c'
     \<and> prefix (sent (m_socket c')) (sent (m_socket established)
          @ frames [op_push [1] default_message, default_message])"
  using outgoing_stream_intact [OF data_phase_established,
      of "[CallSend (op_push [1] default_message), CallSend default_message, RunTask]"]
  by (auto simp: sends_of_def simp del: run_events.simps)

text \<open>C24: the chain drains. From any point between two messages, if every write succeeds, as many
  completed messages as are queued empty the queue, whatever was submitted meanwhile stays in
  order behind them, and no message is lost or written twice.\<close>

theorem writing_chain_fifo:
  assumes "conn_ready c"
  shows "(\<exists>out c'. conn_pump.pump es c = Inr (out, c') \<and> conn_ready c'
           \<and> out @ outgoing c' = outgoing c @ conn_pump.submitted es)
    \<and> (\<exists>c'. conn_pump.pump (replicate (length (outgoing c)) None) c = Inr (outgoing c, c') \<and> outgoing c' = [])"
  using conn_pump.pump_fifo [OF assms] conn_pump.pump_drains [OF assms] by blast

theorem writing_chain_fifo_witness:
  "\<exists>c'. conn_pump.pump [Some default_message, Some (op_push [1] default_message), None, None] established
      = Inr ([default_message, op_push [1] default_message], c')"
proof -
  have r: "conn_ready established" using data_phase_established by (simp add: conn_ready_def)
  obtain c1 where c1: "conn_pump.pump [Some default_message, Some (op_push [1] default_message)] established
      = Inr ([], c1)" "conn_ready c1" "outgoing c1 = [default_message, op_push [1] default_message]"
    using conn_pump.pump_fifo [OF r, of "[Some default_message, Some (op_push [1] default_message)]"]
      data_phase_established(2)
    by (auto simp: rbind_Inr_conv)
  from writing_chain_fifo [THEN conjunct2, OF c1(2)] c1(1,3) show ?thesis
    by (auto simp: rbind_Inr_conv numeral_2_eq_2)
qed

end
