(* ===== verification/NetReader.thy ===== *)
theory NetReader
  imports NetWriter
begin

text \<open>
  The reading chain of \<open>net_connection.hpp\<close> against a byte stream: what \<open>ReadHeader\<close> and
  \<open>ReadBody\<close> deliver to the incoming queue when the peer writes the frames of a list of messages.
\<close>

section \<open>Feeding bytes to a connection\<close>

fun read_len :: "async_op \<Rightarrow> nat option" where
  "read_len AsyncReadHeader = Some 8"
| "read_len (AsyncReadBody n) = Some n"
| "read_len AsyncReadValidation = Some 8"
| "read_len _ = None"

text \<open>
  The bytes \<open>bs\<close> arrive, and each read in progress completes as soon as its buffer can be filled.
  (A read of zero bytes is never started: \<open>ReadHeader\<close> starts a body read only for a positive
  size.) The result is the connection and the bytes left over.
\<close>

function feed :: "u8 list \<Rightarrow> connection \<Rightarrow> (connection \<times> u8 list) result" where
  "feed bs c =
     (case find (\<lambda>op. read_len op \<noteq> None) (pending c) of
        None \<Rightarrow> Inr (c, bs)
      | Some op \<Rightarrow>
          (let n = the (read_len op) in
           if n = 0 \<or> length bs < n then Inr (c, bs)
           else rbind (conn_exec (Complete op False (take n bs)) c) (feed (drop n bs))))"
  by pat_completeness auto
termination
  by (relation "measure (\<lambda>(bs, c). length bs)") auto

declare feed.simps [simp del]

text \<open>What arrives for a list of messages: an empty message is delivered with the body left in
  \<open>m_msgTemporaryIn\<close> by the message before it.\<close>

fun received :: "u8 list \<Rightarrow> message list \<Rightarrow> message list" where
  "received stale [] = []"
| "received stale (m # ms) =
     (if body m = [] then m\<lparr>body := stale\<rparr> # received stale ms else m # received (body m) ms)"

fun last_body :: "u8 list \<Rightarrow> message list \<Rightarrow> u8 list" where
  "last_body stale [] = stale"
| "last_body stale (m # ms) = last_body (if body m = [] then stale else body m) ms"

definition own :: "connection \<Rightarrow> message \<Rightarrow> owned_message" where
  "own c m = \<lparr>remote = (if m_nOwnerType c = OwnerServer then Some (this_ptr c) else None), msg = m\<rparr>"

section \<open>One message\<close>

definition reading :: "connection \<Rightarrow> bool" where
  "reading c \<longleftrightarrow> pending c = [AsyncReadHeader]"

definition deliver :: "message \<Rightarrow> connection \<Rightarrow> connection" where
  "deliver m c = c\<lparr>m_msgTemporaryIn := m, m_qMessagesIn := push_back (own c m) (m_qMessagesIn c)\<rparr>"

lemma deliver_simps [simp]:
  "pending (deliver m c) = pending c" "m_msgTemporaryIn (deliver m c) = m"
  "m_qMessagesIn (deliver m c) = push_back (own c m) (m_qMessagesIn c)"
  "own (deliver m c) = own c" "m_socket (deliver m c) = m_socket c"
  by (simp_all add: deliver_def own_def fun_eq_iff)

lemma add_to_incoming: "AddToIncomingMessageQueue c = ReadHeader (deliver (m_msgTemporaryIn c) c)"
  by (simp add: AddToIncomingMessageQueue_def deliver_def own_def Let_def)

lemma feed_stop: "reading c \<Longrightarrow> length bs < 8 \<Longrightarrow> feed bs c = Inr (c, bs)"
  by (simp add: feed.simps [of bs c] reading_def)

lemma feed_header:
  assumes "reading c"
  shows "feed (header_bytes h @ bs) c = rbind (conn_exec (Complete AsyncReadHeader False (header_bytes h)) c) (feed bs)"
  using assms by (simp add: feed.simps [of "header_bytes h @ bs" c] reading_def del: conn_exec.simps)

lemma exec_header:
  assumes "reading c" and "h = header m" and "well_sized m"
  shows "conn_exec (Complete AsyncReadHeader False (header_bytes h)) c =
    Inr (if body m = [] then deliver (m\<lparr>body := body (m_msgTemporaryIn c)\<rparr>) c
         else c\<lparr>pending := [AsyncReadBody (length (body m))],
                m_msgTemporaryIn := \<lparr>header = h, body = vec_resize (length (body m)) (body (m_msgTemporaryIn c))\<rparr>\<rparr>)"
proof -
  have len: "unat (header_size h) = length (body m)" using assms by (simp add: well_sized_def)
  have hd: "(m_msgTemporaryIn c)\<lparr>header := h\<rparr> = m\<lparr>body := body (m_msgTemporaryIn c)\<rparr>"
    using assms(2) by (cases m, cases "m_msgTemporaryIn c") simp
  show ?thesis
  proof (cases "body m = []")
    case True
    then have "\<not> 0 < header_size (header m)" using len assms(2) by (simp add: unat_eq_0)
    then show ?thesis using assms(1) True hd
      by (simp add: reading_def store_header_full ReadHeader_done_def Let_def start_op_def
          add_to_incoming ReadHeader_def deliver_def own_def)
  next
    case False
    then have "0 < header_size h" using len by (simp add: word_neq_0_conv [symmetric] unat_eq_0 [symmetric])
    then show ?thesis using assms(1,2) False len
      by (simp add: reading_def store_header_full ReadHeader_done_def Let_def start_op_def ReadBody_def)
  qed
qed

lemma feed_body:
  assumes "pending c = [AsyncReadBody (length b)]" "b \<noteq> []" "length (body (m_msgTemporaryIn c)) = length b"
  shows "feed (b @ bs) c =
    feed bs (deliver ((m_msgTemporaryIn c)\<lparr>body := b\<rparr>) (c\<lparr>pending := [AsyncReadHeader]\<rparr>))"
proof -
  have "conn_exec (Complete (AsyncReadBody (length b)) False b) c
      = Inr (deliver ((m_msgTemporaryIn c)\<lparr>body := b\<rparr>) (c\<lparr>pending := [AsyncReadHeader]\<rparr>))"
    using assms by (simp add: ReadBody_done_def add_to_incoming ReadHeader_def start_op_def
        store_body_full deliver_def own_def)
  then show ?thesis using assms
    by (simp add: feed.simps [of "b @ bs" c] del: conn_exec.simps)
qed

lemma feed_message:
  assumes r: "reading c" and w: "well_sized m"
  shows "feed (frame m @ bs) c =
    feed bs (deliver (if body m = [] then m\<lparr>body := body (m_msgTemporaryIn c)\<rparr> else m) c)"
proof (cases "body m = []")
  case True
  then show ?thesis using exec_header [OF r refl w] feed_header [OF r, of "header m" bs]
    by (simp add: frame_def del: conn_exec.simps)
next
  case False
  let ?c = "c\<lparr>pending := [AsyncReadBody (length (body m))], m_msgTemporaryIn :=
     \<lparr>header = header m, body = vec_resize (length (body m)) (body (m_msgTemporaryIn c))\<rparr>\<rparr>"
  have "feed (frame m @ bs) c = feed (body m @ bs) ?c"
    using False exec_header [OF r refl w] feed_header [OF r, of "header m" "body m @ bs"]
    by (simp add: frame_def del: conn_exec.simps)
  also have "\<dots> = feed bs (deliver ((m_msgTemporaryIn ?c)\<lparr>body := body m\<rparr>) (?c\<lparr>pending := [AsyncReadHeader]\<rparr>))"
    by (rule feed_body) (use False in simp_all)
  also have "deliver ((m_msgTemporaryIn ?c)\<lparr>body := body m\<rparr>) (?c\<lparr>pending := [AsyncReadHeader]\<rparr>) = deliver m c"
    using r by (cases m) (simp add: deliver_def own_def reading_def)
  finally show ?thesis using False by simp
qed

section \<open>A stream of messages\<close>

lemma feed_frames:
  assumes "reading c" "\<forall>m \<in> set ms. well_sized m" "length bs < 8"
  shows "\<exists>c'. feed (frames ms @ bs) c = Inr (c', bs) \<and> reading c'
     \<and> deqQueue (m_qMessagesIn c') = deqQueue (m_qMessagesIn c) @ map (own c) (received (body (m_msgTemporaryIn c)) ms)
     \<and> body (m_msgTemporaryIn c') = last_body (body (m_msgTemporaryIn c)) ms"
  using assms(1,2)
proof (induction ms arbitrary: c)
  case Nil
  then show ?case using assms(3) by (simp add: feed_stop)
next
  case (Cons m ms)
  let ?c = "deliver (if body m = [] then m\<lparr>body := body (m_msgTemporaryIn c)\<rparr> else m) c"
  have "reading ?c" using Cons.prems(1) by (simp add: reading_def)
  from Cons.IH [OF this] Cons.prems feed_message [of c m "frames ms @ bs"]
  show ?case by auto
qed

text \<open>The messages arrive as they were sent exactly when no empty message follows one with a body.\<close>

fun stale_free :: "u8 list \<Rightarrow> message list \<Rightarrow> bool" where
  "stale_free stale [] = True"
| "stale_free stale (m # ms) =
     (if body m = [] then stale = [] \<and> stale_free stale ms else stale_free (body m) ms)"

lemma body_update_same: "m\<lparr>body := b\<rparr> = m \<longleftrightarrow> b = body m"
  by (cases m) auto

lemma received_iff: "received stale ms = ms \<longleftrightarrow> stale_free stale ms"
  by (induction stale ms rule: received.induct) (auto simp: body_update_same)

lemma stale_free_all: "(\<forall>m \<in> set ms. body m \<noteq> []) \<Longrightarrow> stale_free stale ms"
  by (induction ms arbitrary: stale) auto

text \<open>A concrete run: one message is sent over an established connection and written out.\<close>

definition one_message :: message where
  "one_message = op_push [1] default_message"

definition one_send :: "io_event list" where
  "one_send = [CallSend one_message, RunTask] @ whole_write one_message"

lemma one_message_simps: "body one_message = [1]" "well_sized one_message"
  using well_sized_op_push [of default_message "[1]"] by (simp_all add: one_message_def default_message_def)

lemma sends_one_send: "sends one_send = [one_message]"
  by (simp add: one_send_def whole_write_def one_message_simps sends_of_def)

lemma one_send_runs:
  "\<exists>s'. conn_run one_send established = Inr s' \<and> outgoing s' = [] \<and> tasks s' = []"
  by (simp add: one_send_def whole_write_def one_message_simps call_defs write_done_defs start_defs
      established_def new_connection_def tsqueue_defs outgoing_def Let_def del: deqQueue_outgoing)

section \<open>Properties\<close>

text \<open>C13: framing. A connection that is waiting for a header and reads the frames of any list of
  well-sized messages delivers one message per frame, in order, with the sender's headers, and
  waits for the next header; it never loses synchronisation with the frame boundaries. The
  bodies are the sender's exactly when no empty message follows one with a body.\<close>

theorem reader_delivers_frames:
  assumes "reading c" "\<forall>m \<in> set ms. well_sized m"
  shows "\<exists>c' out. feed (frames ms) c = Inr (c', []) \<and> reading c'
     \<and> deqQueue (m_qMessagesIn c') = deqQueue (m_qMessagesIn c) @ map (own c) out
     \<and> map header out = map header ms
     \<and> (out = ms) = stale_free (body (m_msgTemporaryIn c)) ms"
proof -
  let ?out = "received (body (m_msgTemporaryIn c)) ms"
  have hd: "map header (received stale ms) = map header ms" for stale
    by (induction ms arbitrary: stale) auto
  from feed_frames [OF assms, of "[]"] obtain c' where "feed (frames ms) c = Inr (c', [])" "reading c'"
    "deqQueue (m_qMessagesIn c') = deqQueue (m_qMessagesIn c) @ map (own c) ?out" by auto
  then show ?thesis using hd received_iff by (intro exI [of _ c'] exI [of _ ?out]) simp
qed

theorem reader_delivers_frames_witness:
  "\<exists>c'. feed (frames [op_push [1, 2] default_message]) established = Inr (c', []) \<and> reading c'"
  using reader_delivers_frames [of established "[op_push [1, 2] default_message]"] well_sized_op_push [of default_message "[1, 2]"]
  by (auto simp: reading_def established_def default_message_def)

text \<open>What was written is what is read. If one connection, after its handshake, has sent the
  messages of a schedule and its chain has drained, and a fresh reading connection is fed the
  bytes that went out, then the reader's queue receives exactly those messages in order,
  provided each announces its size and no empty message follows one with a body.\<close>

lemma end_to_end_delivery:
  assumes "data_phase s" "outgoing s = []" "data_writes s = []" "tasks s = []" "sent (m_socket s) = []"
    and run: "conn_run es s = Inr s'" "outgoing s' = []" "tasks s' = []"
    and r: "reading c" "m_msgTemporaryIn c = default_message"
    and ms: "\<forall>m \<in> set (sends es). well_sized m" "stale_free [] (sends es)"
  shows "\<exists>c'. feed (sent (m_socket s')) c = Inr (c', []) \<and> reading c'
     \<and> deqQueue (m_qMessagesIn c') = deqQueue (m_qMessagesIn c) @ map (own c) (sends es)"
proof -
  have ok: "pump_ok s" using assms by (simp add: pump_ok_def)
  then have "Stream s []" using assms by (simp add: Stream_ok backlog_def posted_def)
  from Stream_run [OF this assms(1) run(1)] have st: "Stream s' (frames (sends es))" by simp
  have "sent (m_socket s') = frames (sends es)"
    using st run(2,3) by (auto simp: Stream_def pump_inv_def pump_dead_def backlog_def posted_def)
  moreover have "received (body (m_msgTemporaryIn c)) (sends es) = sends es"
    using ms(2) r(2) by (simp add: received_iff default_message_def)
  ultimately show ?thesis using feed_frames [OF r(1) ms(1), of "[]"] by auto
qed

text \<open>An empty message is delivered with the previous message's body. \<open>ReadHeader\<close> does not
  clear the body when the announced size is zero: after a message that carries an 8-byte time
  stamp, a message without a body arrives with that time stamp as its body, although its header
  announces none.\<close>

lemma stale_body_delivered:
  "\<exists>c'. feed (frames [op_push (u64_bytes t) default_message, default_message]) established = Inr (c', [])
     \<and> map msg (deqQueue (m_qMessagesIn c'))
         = [op_push (u64_bytes t) default_message, default_message\<lparr>body := u64_bytes t\<rparr>]"
proof -
  let ?ms = "[op_push (u64_bytes t) default_message, default_message]"
  have "\<forall>m \<in> set ?ms. well_sized m"
  proof -
    have "well_sized (op_push (u64_bytes t) default_message)"
      by (rule well_sized_op_push) (simp add: default_message_def)
    then show ?thesis by simp
  qed
  moreover have "reading established" by (simp add: reading_def established_def)
  moreover have "body (m_msgTemporaryIn established) = []" "m_qMessagesIn established = new_tsqueue"
    by (simp_all add: established_def new_connection_def default_message_def)
  moreover have "received [] ?ms = [op_push (u64_bytes t) default_message, default_message\<lparr>body := u64_bytes t\<rparr>]"
    using pod_u64.repr_nonempty [of t] by (simp add: default_message_def)
  ultimately show ?thesis using feed_frames [of established ?ms "[]"] by (auto simp: own_def)
qed

end
