(* ===== verification/FrameStream.thy ===== *)
theory FrameStream
  imports Prelude
begin

text \<open>
  Streams of frames, a header of fixed length and a body, and where a reader stands in such a stream
  that reads a header and then the body it announces. Both protocols of the program are of this
  kind: the messages of \<open>NetCommon\<close> (\<open>NetConversation\<close>) and the chat messages (\<open>ChatFrames\<close>).
\<close>

type_synonym 'a frame = "'a list \<times> 'a list"

definition frames_text :: "'a frame list \<Rightarrow> 'a list" where
  "frames_text fs = concat (map (\<lambda>f. fst f @ snd f) fs)"

text \<open>After \<open>n\<close> elements the reader is before frame \<open>k\<close>, or between its header, of length \<open>h\<close>, and its
  body.\<close>

definition before_frame :: "'a frame list \<Rightarrow> nat \<Rightarrow> nat \<Rightarrow> bool" where
  "before_frame fs n k \<longleftrightarrow> k \<le> length fs \<and> n = length (frames_text (take k fs))"

definition in_frame :: "nat \<Rightarrow> 'a frame list \<Rightarrow> nat \<Rightarrow> nat \<Rightarrow> bool" where
  "in_frame h fs n k \<longleftrightarrow> k < length fs \<and> n = length (frames_text (take k fs)) + h"

lemma frames_text_append [simp]: "frames_text (fs @ gs) = frames_text fs @ frames_text gs"
  by (simp add: frames_text_def)

lemma before_frame_0 [simp]: "before_frame fs 0 0"
  by (simp add: before_frame_def frames_text_def)

lemma before_frame_append: "before_frame fs n k \<Longrightarrow> before_frame (fs @ gs) n k"
  by (simp add: before_frame_def)

lemma in_frame_append: "in_frame h fs n k \<Longrightarrow> in_frame h (fs @ gs) n k"
  by (simp add: in_frame_def)

lemma frames_text_split:
  assumes "k < length fs"
  shows "frames_text fs = frames_text (take k fs) @ fst (fs ! k) @ snd (fs ! k) @ frames_text (drop (Suc k) fs)"
proof -
  have "frames_text (take k fs @ fs ! k # drop (Suc k) fs)
      = frames_text (take k fs) @ fst (fs ! k) @ snd (fs ! k) @ frames_text (drop (Suc k) fs)"
    by (simp add: frames_text_def)
  then show ?thesis using id_take_nth_drop [OF assms] by simp
qed

lemma prefix_same_length: "prefix xs (ys @ zs) \<Longrightarrow> length xs = length ys \<Longrightarrow> xs = ys"
  by (auto simp: prefix_def append_eq_append_conv)

lemma prefix_drop: "prefix xs ys \<Longrightarrow> prefix zs (drop n xs) \<Longrightarrow> prefix zs (drop n ys)"
  by (auto simp: prefix_def)

section \<open>Reading\<close>

text \<open>The contract of a protocol: every frame has a header of the same length, which is not zero. \<open>av\<close> is
  what has been written so far, and \<open>bs\<close> what is read of it.\<close>

locale frame_stream =
  fixes h :: nat
    and ok :: "'a frame \<Rightarrow> bool"
  assumes header_length: "ok f \<Longrightarrow> length (fst f) = h"
    and header_nonempty: "0 < h"
begin

text \<open>As many characters as a header has, read before a frame, are its header.\<close>

lemma reads_header:
  assumes fs: "\<forall>f \<in> set fs. ok f" and pos: "before_frame fs n k"
    and av: "prefix av (frames_text fs)" "prefix bs (drop n av)" "length bs = h"
  shows "k < length fs" "bs = fst (fs ! k)" "in_frame h fs (n + h) k"
proof -
  have bs: "prefix bs (drop n (frames_text fs))" by (rule prefix_drop [OF av(1,2)])
  show k: "k < length fs"
  proof (rule ccontr)
    assume "\<not> k < length fs"
    then have "drop n (frames_text fs) = []" using pos by (simp add: before_frame_def)
    then show False using bs av(3) header_nonempty by auto
  qed
  have "length (fst (fs ! k)) = h" using fs k by (simp add: header_length)
  moreover have "drop n (frames_text fs) = fst (fs ! k) @ snd (fs ! k) @ frames_text (drop (Suc k) fs)"
    unfolding frames_text_split [OF k] using pos by (simp add: before_frame_def)
  ultimately show "bs = fst (fs ! k)" using prefix_same_length bs av(3) by metis
  show "in_frame h fs (n + h) k" using pos k by (simp add: in_frame_def before_frame_def)
qed

text \<open>The characters read after the header are the body.\<close>

lemma reads_body:
  assumes fs: "\<forall>f \<in> set fs. ok f" and pos: "in_frame h fs n k"
    and av: "prefix av (frames_text fs)" "prefix bs (drop n av)" "length bs = length (snd (fs ! k))"
  shows "bs = snd (fs ! k)" "before_frame fs (n + length bs) (Suc k)" "take (Suc k) fs = take k fs @ [fs ! k]"
proof -
  have k: "k < length fs" using pos by (simp add: in_frame_def)
  have hl: "length (fst (fs ! k)) = h" using fs k by (simp add: header_length)
  have bs: "prefix bs (drop n (frames_text fs))" by (rule prefix_drop [OF av(1,2)])
  have "drop n (frames_text fs) = snd (fs ! k) @ frames_text (drop (Suc k) fs)"
    unfolding frames_text_split [OF k] using pos hl by (simp add: in_frame_def)
  with bs av(3) show "bs = snd (fs ! k)" using prefix_same_length by metis
  show take: "take (Suc k) fs = take k fs @ [fs ! k]" by (rule take_Suc_conv_app_nth [OF k])
  show "before_frame fs (n + length bs) (Suc k)"
    using pos k hl av(3) by (simp add: before_frame_def in_frame_def take frames_text_def)
qed

text \<open>A header without a body is a whole frame.\<close>

lemma reads_empty:
  assumes "\<forall>f \<in> set fs. ok f" "in_frame h fs n k" "snd (fs ! k) = []"
  shows "before_frame fs n (Suc k)"
  using assms header_length [of "fs ! k"]
  by (auto simp: before_frame_def in_frame_def frames_text_def take_Suc_conv_app_nth)

text \<open>A reader that has read everything is behind the last frame.\<close>

lemma read_all:
  assumes "\<forall>f \<in> set fs. ok f" "before_frame fs (length (frames_text fs)) k"
  shows "take k fs = fs"
proof (cases "k < length fs")
  case True
  then have "0 < length (fst (fs ! k))" using assms(1) header_nonempty by (simp add: header_length)
  moreover have "length (frames_text fs) = length (frames_text (take k fs))" using assms(2) by (simp add: before_frame_def)
  ultimately show ?thesis unfolding frames_text_split [OF True] by simp
qed simp

end

end
