(* ===== verification/NetConversation.thy ===== *)
theory NetConversation
  imports NetReader NetHandshake FrameStream
begin

text \<open>
  Two connections of \<open>net_connection.hpp\<close> joined by a network, each sending and receiving at once: any
  interleaving of calls, posted tasks and completions on the two sides, in which each side reads
  what the other has written, in order. The conversation starts where the handshake ends.
\<close>

section \<open>The conversation\<close>

text \<open>\<open>True\<close> and \<open>False\<close> are the two sides. \<open>skip\<close> is what a side had written before the conversation
  started (the handshake), \<open>seen\<close> what it has read of it since, and \<open>wrote\<close> records the messages
  passed to its \<open>Send\<close>.\<close>

record conversation =
  side :: "bool \<Rightarrow> connection"
  skip :: "bool \<Rightarrow> nat"
  seen :: "bool \<Rightarrow> nat"
  wrote :: "bool \<Rightarrow> message list"

definition start_conversation :: "connection \<Rightarrow> connection \<Rightarrow> conversation" where
  "start_conversation a b = \<lparr>side = (\<lambda>s. if s then a else b),
     skip = (\<lambda>s. length (sent (m_socket (if s then a else b)))), seen = (\<lambda>_. 0), wrote = (\<lambda>_. [])\<rparr>"

text \<open>The messages sent announce their size, and a read returns what the other side has written.\<close>

definition arriving :: "bool \<Rightarrow> conversation \<Rightarrow> u8 list" where
  "arriving s v = drop (skip v (\<not> s) + seen v s) (sent (m_socket (side v (\<not> s))))"

fun read_ok :: "io_event \<Rightarrow> u8 list \<Rightarrow> bool" where
  "read_ok (Complete AsyncReadHeader ec xs) av = prefix xs av"
| "read_ok (Complete (AsyncReadBody n) ec xs) av = prefix xs av"
| "read_ok _ av = True"

definition talk_ok :: "bool \<Rightarrow> io_event \<Rightarrow> conversation \<Rightarrow> bool" where
  "talk_ok s e v \<longleftrightarrow> (\<forall>m \<in> set (sends_of e). well_sized m) \<and> read_ok e (arriving s v)"

fun bytes_read :: "io_event \<Rightarrow> connection \<Rightarrow> u8 list" where
  "bytes_read (Complete op ec xs) c =
     (if op \<in> set (pending c) \<and> transfer_ok op ec xs \<and> \<not> is_data_write op then xs else [])"
| "bytes_read _ c = []"

definition talk :: "bool \<times> io_event \<Rightarrow> conversation \<Rightarrow> conversation result" where
  "talk se v = (case se of (s, e) \<Rightarrow>
     if talk_ok s e v then
       rbind (conn_exec e (side v s)) (\<lambda>c.
         Inr (v\<lparr>side := (side v)(s := c), seen := (seen v)(s := seen v s + length (bytes_read e (side v s))),
                wrote := (wrote v)(s := wrote v s @ sends_of e)\<rparr>))
     else Inr v)"

abbreviation talk_run :: "(bool \<times> io_event) list \<Rightarrow> conversation \<Rightarrow> conversation result" where
  "talk_run \<equiv> run_events talk"

section \<open>Frames\<close>

definition msg_frame :: "message \<Rightarrow> u8 frame" where
  "msg_frame m = (header_bytes (header m), body m)"

definition sized_frame :: "u8 frame \<Rightarrow> bool" where
  "sized_frame f \<longleftrightarrow> length (fst f) = 8 \<and> unat (header_size (bytes_header (fst f))) = length (snd f)"

interpretation net_stream: frame_stream 8 sized_frame
  by unfold_locales (simp_all add: sized_frame_def)

lemma frames_eq: "frames ms = frames_text (map msg_frame ms)"
  by (induction ms) (simp_all add: frame_def msg_frame_def frames_text_def)

lemma sized_frames: "\<forall>m \<in> set ms. well_sized m \<Longrightarrow> \<forall>f \<in> set (map msg_frame ms). sized_frame f"
  by (auto simp: msg_frame_def sized_frame_def well_sized_def)

lemma received_snoc:
  "received st (ms @ [m]) = received st ms @ [if body m = [] then m\<lparr>body := last_body st ms\<rparr> else m]"
  by (induction ms arbitrary: st) auto

lemma last_body_snoc: "last_body st (ms @ [m]) = (if body m = [] then last_body st ms else body m)"
  by (induction ms arbitrary: st) auto

section \<open>The reading side\<close>

text \<open>What the reading chain depends on.\<close>

definition reader_view :: "connection \<Rightarrow> async_op list \<times> message \<times> owned_message tsqueue \<times> owner \<times> nat" where
  "reader_view c = (other_ops c, m_msgTemporaryIn c, m_qMessagesIn c, m_nOwnerType c, this_ptr c)"

lemma net_view_frame [simp]:
  "reader_view (c\<lparr>m_qMessagesOut := q\<rparr>) = reader_view c" "reader_view (c\<lparr>tasks := ts\<rparr>) = reader_view c"
  "reader_view (sock_accept xs c) = reader_view c" "reader_view (close_socket c) = reader_view c"
  "is_data_write op \<Longrightarrow> reader_view (start_op op c) = reader_view c"
  "is_data_write op \<Longrightarrow> reader_view (c\<lparr>pending := remove1 op (pending c)\<rparr>) = reader_view c"
  by (simp_all add: reader_view_def other_ops_remove_data)
    (simp_all add: sock_accept_def close_socket_def start_op_def)

lemma write_header_view: "WriteHeader c = Inr c' \<Longrightarrow> reader_view c' = reader_view c"
  by (auto simp: WriteHeader_def)

lemma next_message_view: "next_message c = Inr c' \<Longrightarrow> reader_view c' = reader_view c"
  by (auto simp: next_message_def Let_def dest!: write_header_view split: if_splits)

lemma writer_keeps_reader:
  assumes "conn_exec e c = Inr c'"
    and "\<And>op ec xs. e = Complete op ec xs \<Longrightarrow> op \<in> set (pending c) \<Longrightarrow> is_data_write op"
  shows "reader_view c' = reader_view c"
proof (cases e)
  case RunTask
  show ?thesis
  proof (cases "tasks c")
    case (Cons t ts)
    then show ?thesis using assms(1) RunTask
      by (cases t) (auto simp: run_send_def Let_def dest!: write_header_view split: if_splits)
  qed (use assms(1) RunTask in simp)
next
  case (Complete op ec xs)
  show ?thesis
  proof (cases "op \<in> set (pending c) \<and> transfer_ok op ec xs")
    case True
    let ?c = "sock_accept xs (c\<lparr>pending := remove1 op (pending c)\<rparr>)"
    have dw: "is_data_write op" using assms(2) [OF Complete] True by blast
    have ex: "complete op ec xs (c\<lparr>pending := remove1 op (pending c)\<rparr>) = Inr c'" using assms(1) Complete True by simp
    have "reader_view c' = reader_view ?c" using ex dw
      by (cases op) (auto simp: WriteHeader_done_def WriteBody_done_def WriteBody_def dest!: next_message_view split: if_splits)
    then show ?thesis using dw by simp
  qed (use assms(1) Complete in auto)
qed (use assms(1) in \<open>auto simp: call_defs post_task_def reader_view_def other_ops_def\<close>)

text \<open>The connection has delivered the first \<open>k\<close> of the messages \<open>ms\<close>, with bodies as the reading chain
  leaves them, and has read \<open>n\<close> bytes; it has stopped or is reading a header or a body.\<close>

definition reads :: "message list \<Rightarrow> nat \<Rightarrow> owned_message list \<Rightarrow> connection \<Rightarrow> bool" where
  "reads ms n q c \<longleftrightarrow> (\<exists>k \<le> length ms. deqQueue (m_qMessagesIn c) = q @ map (own c) (received [] (take k ms))
     \<and> (other_ops c = []
        \<or> other_ops c = [AsyncReadHeader] \<and> before_frame (map msg_frame ms) n k
            \<and> body (m_msgTemporaryIn c) = last_body [] (take k ms)
        \<or> other_ops c = [AsyncReadBody (length (body (ms ! k)))] \<and> in_frame 8 (map msg_frame ms) n k
            \<and> header (m_msgTemporaryIn c) = header (ms ! k) \<and> body (ms ! k) \<noteq> []
            \<and> length (body (m_msgTemporaryIn c)) = length (body (ms ! k))))"

lemma reads_view: "reads ms n q c \<Longrightarrow> reader_view c' = reader_view c \<Longrightarrow> reads ms n q c'"
  by (auto simp: reads_def reader_view_def own_def)

lemma reads_append:
  assumes "reads ms n q c"
  shows "reads (ms @ ms') n q c"
proof -
  from assms obtain k where k: "k \<le> length ms" "deqQueue (m_qMessagesIn c) = q @ map (own c) (received [] (take k ms))"
     "other_ops c = []
        \<or> other_ops c = [AsyncReadHeader] \<and> before_frame (map msg_frame ms) n k
            \<and> body (m_msgTemporaryIn c) = last_body [] (take k ms)
        \<or> other_ops c = [AsyncReadBody (length (body (ms ! k)))] \<and> in_frame 8 (map msg_frame ms) n k
            \<and> header (m_msgTemporaryIn c) = header (ms ! k) \<and> body (ms ! k) \<noteq> []
            \<and> length (body (m_msgTemporaryIn c)) = length (body (ms ! k))" unfolding reads_def by blast
  moreover have "(ms @ ms') ! k = ms ! k" if "in_frame 8 (map msg_frame ms) n k"
    using that by (simp add: in_frame_def nth_append)
  ultimately show ?thesis unfolding reads_def
    by (intro exI [of _ k]) (auto simp: before_frame_append in_frame_append)
qed

lemma reads_only:
  assumes "reads ms n q c" "op \<in> set (pending c)" "\<not> is_data_write op"
  shows "other_ops c = [op] \<and> (op = AsyncReadHeader \<or> (\<exists>n. op = AsyncReadBody n))"
proof -
  have "op \<in> set (other_ops c)" using assms(2,3) by (simp add: other_ops_def)
  then show ?thesis using assms(1) by (auto simp: reads_def)
qed

text \<open>A header arrives.\<close>

lemma reads_header_step:
  assumes rd: "reads ms n q c" and ms: "\<forall>m \<in> set ms. well_sized m" and av: "prefix av (frames ms)" "prefix xs (drop n av)"
    and op: "AsyncReadHeader \<in> set (pending c)" and len: "length xs = 8"
    and ex: "complete AsyncReadHeader False xs (c\<lparr>pending := remove1 AsyncReadHeader (pending c)\<rparr>) = Inr c'"
  shows "reads ms (n + 8) q c'"
proof -
  let ?fs = "map msg_frame ms" and ?c = "c\<lparr>pending := remove1 AsyncReadHeader (pending c)\<rparr>"
  have oth: "other_ops c = [AsyncReadHeader]" using reads_only [OF rd op] by simp
  then have none: "other_ops ?c = []" by (simp add: other_ops_remove)
  from rd oth obtain k where k: "k \<le> length ms" "deqQueue (m_qMessagesIn c) = q @ map (own c) (received [] (take k ms))"
    "before_frame ?fs n k" "body (m_msgTemporaryIn c) = last_body [] (take k ms)" unfolding reads_def by auto
  note h = net_stream.reads_header [OF sized_frames [OF ms] k(3) av(1) [unfolded frames_eq] av(2) len]
  let ?m = "ms ! k"
  have kl: "k < length ms" using h(1) by simp
  have xs: "xs = header_bytes (header ?m)" using h(2) kl by (simp add: msg_frame_def)
  have ws: "unat (header_size (header ?m)) = length (body ?m)" using ms kl by (simp add: well_sized_def)
  have tk: "take (Suc k) ms = take k ms @ [?m]" by (rule take_Suc_conv_app_nth [OF kl])
  have c': "c' = ReadHeader_done False (store_header xs ?c)" using ex by simp
  show ?thesis
  proof (cases "body ?m = []")
    case True
    then have 0: "\<not> 0 < header_size (header ?m)" using ws by (simp add: unat_eq_0)
    let ?d = "?m\<lparr>body := last_body [] (take k ms)\<rparr>"
    have tmp: "(m_msgTemporaryIn c)\<lparr>header := header ?m\<rparr> = ?d"
      using k(4) by (cases "m_msgTemporaryIn c", cases ?m) simp
    have "c' = ReadHeader (deliver ?d ?c)"
      using c' 0 xs tmp by (simp add: ReadHeader_done_def store_header_full add_to_incoming deliver_def own_def Let_def)
    then have "other_ops c' = [AsyncReadHeader]" "body (m_msgTemporaryIn c') = last_body [] (take (Suc k) ms)"
      "deqQueue (m_qMessagesIn c') = q @ map (own c') (received [] (take (Suc k) ms))"
      using none k(2) True by (simp_all add: ReadHeader_def deliver_def own_def tk last_body_snoc received_snoc
          start_op_def other_ops_def)
    moreover have "before_frame ?fs (n + 8) (Suc k)"
      using net_stream.reads_empty [OF sized_frames [OF ms] h(3)] True kl by (simp add: msg_frame_def)
    ultimately show ?thesis using kl unfolding reads_def by (intro exI [of _ "Suc k"]) simp
  next
    case False
    then have "0 < unat (header_size (header ?m))" using ws by simp
    then have 0: "0 < header_size (header ?m)" by (simp add: word_less_nat_alt)
    have "other_ops c' = [AsyncReadBody (length (body ?m))]" "m_qMessagesIn c' = m_qMessagesIn c" "own c' = own c"
      "header (m_msgTemporaryIn c') = header ?m" "length (body (m_msgTemporaryIn c')) = length (body ?m)"
      using c' 0 xs ws none by (simp_all add: ReadHeader_done_def store_header_full ReadBody_def start_op_def
          own_def fun_eq_iff other_ops_def Let_def)
    then show ?thesis using k h(3) False unfolding reads_def by auto
  qed
qed

text \<open>A body arrives.\<close>

lemma reads_body_step:
  assumes rd: "reads ms n q c" and ms: "\<forall>m \<in> set ms. well_sized m" and av: "prefix av (frames ms)" "prefix xs (drop n av)"
    and op: "AsyncReadBody l \<in> set (pending c)" and len: "length xs = l"
    and ex: "complete (AsyncReadBody l) False xs (c\<lparr>pending := remove1 (AsyncReadBody l) (pending c)\<rparr>) = Inr c'"
  shows "reads ms (n + length xs) q c'"
proof -
  let ?fs = "map msg_frame ms" and ?c = "c\<lparr>pending := remove1 (AsyncReadBody l) (pending c)\<rparr>"
  have oth: "other_ops c = [AsyncReadBody l]" using reads_only [OF rd op] by simp
  then have none: "other_ops ?c = []" by (simp add: other_ops_remove)
  from rd oth obtain k where k: "k \<le> length ms" "deqQueue (m_qMessagesIn c) = q @ map (own c) (received [] (take k ms))"
    "in_frame 8 ?fs n k" "header (m_msgTemporaryIn c) = header (ms ! k)" "body (ms ! k) \<noteq> []"
    "length (body (m_msgTemporaryIn c)) = l" "l = length (body (ms ! k))" unfolding reads_def by auto
  have kl: "k < length ms" using k(3) by (simp add: in_frame_def)
  have lf: "length xs = length (snd (?fs ! k))" using len k(7) kl by (simp add: msg_frame_def)
  note b = net_stream.reads_body [OF sized_frames [OF ms] k(3) av(1) [unfolded frames_eq] av(2) lf]
  let ?m = "ms ! k"
  have xs: "xs = body ?m" using b(1) kl by (simp add: msg_frame_def)
  have tk: "take (Suc k) ms = take k ms @ [?m]" by (rule take_Suc_conv_app_nth [OF kl])
  have tmp: "(m_msgTemporaryIn c)\<lparr>body := body ?m\<rparr> = ?m" using k(4) by (cases "m_msgTemporaryIn c", cases ?m) simp
  have "c' = ReadHeader (deliver ?m ?c)"
    using ex xs k(6,7) tmp
    by (cases "m_nOwnerType c = OwnerServer")
      (auto simp: ReadBody_done_def store_body_full add_to_incoming deliver_def own_def)
  then have "other_ops c' = [AsyncReadHeader]" "body (m_msgTemporaryIn c') = last_body [] (take (Suc k) ms)"
    "deqQueue (m_qMessagesIn c') = q @ map (own c') (received [] (take (Suc k) ms))"
    using none k(2,5) by (simp_all add: ReadHeader_def deliver_def own_def tk last_body_snoc received_snoc
        start_op_def other_ops_def)
  then show ?thesis using kl b(2) unfolding reads_def by (intro exI [of _ "Suc k"]) simp
qed

text \<open>Every event keeps the reading side in step with the bytes it has read.\<close>

lemma reads_step:
  assumes rd: "reads ms n q c" and ms: "\<forall>m \<in> set ms. well_sized m"
    and av: "prefix av (frames ms)" "prefix (bytes_read e c) (drop n av)" and ex: "conn_exec e c = Inr c'"
  shows "reads ms (n + length (bytes_read e c)) q c'"
proof (cases "\<exists>op ec xs. e = Complete op ec xs \<and> op \<in> set (pending c) \<and> \<not> is_data_write op \<and> transfer_ok op ec xs")
  case False
  have "reader_view c' = reader_view c"
  proof (cases "\<exists>op ec xs. e = Complete op ec xs \<and> \<not> (op \<in> set (pending c) \<and> transfer_ok op ec xs)")
    case True
    then show ?thesis using ex by auto
  next
    case no: False
    show ?thesis by (rule writer_keeps_reader [OF ex]) (use False no in auto)
  qed
  moreover have "bytes_read e c = []" using False by (cases e) auto
  ultimately show ?thesis using reads_view [OF rd] by simp
next
  case True
  then obtain op ec xs where e: "e = Complete op ec xs" "op \<in> set (pending c)" "\<not> is_data_write op" "transfer_ok op ec xs"
    by blast
  let ?c = "c\<lparr>pending := remove1 op (pending c)\<rparr>"
  have oth: "other_ops c = [op]" "op = AsyncReadHeader \<or> (\<exists>n. op = AsyncReadBody n)"
    using reads_only [OF rd e(2,3)] by simp_all
  have ex': "complete op ec xs ?c = Inr c'" using ex e by simp
  have br: "bytes_read e c = xs" using e by simp
  show ?thesis
  proof (cases ec)
    case True
    have "other_ops ?c = []" using oth(1) by (simp add: other_ops_remove)
    then have "other_ops c' = [] \<and> m_qMessagesIn c' = m_qMessagesIn c \<and> own c' = own c"
      using ex' oth(2) True by (auto simp: ReadHeader_done_def ReadBody_done_def store_defs close_socket_def
          own_def fun_eq_iff other_ops_def Let_def)
    then show ?thesis using rd unfolding reads_def by auto
  next
    case False
    from oth(2) show ?thesis
    proof
      assume "op = AsyncReadHeader"
      then show ?thesis using reads_header_step [OF rd ms av(1), of xs c'] av(2) br e ex' False by simp
    next
      assume "\<exists>n. op = AsyncReadBody n"
      then obtain l where "op = AsyncReadBody l" by blast
      then show ?thesis using reads_body_step [OF rd ms av(1), of xs l c'] av(2) br e ex' False by simp
    qed
  qed
qed

section \<open>The conversation\<close>

text \<open>A connection after its handshake: it is waiting for a header, nothing is being written, and no
  message has been received yet.\<close>

definition open_conn :: "connection \<Rightarrow> bool" where
  "open_conn c \<longleftrightarrow> pending c = [AsyncReadHeader] \<and> outgoing c = [] \<and> tasks c = []
     \<and> body (m_msgTemporaryIn c) = []"

text \<open>\<open>base\<close> is what each side had written before, \<open>q\<close> what its incoming queue held.\<close>

definition side_inv :: "u8 list \<Rightarrow> owned_message list \<Rightarrow> message list \<Rightarrow> message list \<Rightarrow> nat \<Rightarrow> connection \<Rightarrow> bool" where
  "side_inv base q out ins n c \<longleftrightarrow> Stream c (base @ frames out) \<and> data_phase c
     \<and> (\<forall>m \<in> set out. well_sized m) \<and> reads ins n q c"

definition conversation_inv :: "(bool \<Rightarrow> u8 list) \<Rightarrow> (bool \<Rightarrow> owned_message list) \<Rightarrow> conversation \<Rightarrow> bool" where
  "conversation_inv base q v \<longleftrightarrow> (\<forall>s. skip v s = length (base s)
     \<and> side_inv (base s) (q s) (wrote v s) (wrote v (\<not> s)) (seen v s) (side v s))"

lemma open_conn_inv:
  assumes "open_conn c"
  shows "side_inv (sent (m_socket c)) (deqQueue (m_qMessagesIn c)) [] [] 0 c"
proof -
  have dw: "data_writes c = []" "other_ops c = [AsyncReadHeader]"
    using assms by (simp_all add: open_conn_def data_writes_def other_ops_def del: filter_pending)
  then have "pump_ok c" using assms by (simp add: pump_ok_def open_conn_def)
  then show ?thesis using assms dw
    by (simp add: side_inv_def Stream_ok open_conn_def backlog_def posted_def data_phase_def reads_def)
qed

lemma start_conversation_inv:
  assumes "open_conn a" "open_conn b"
  shows "conversation_inv (\<lambda>s. sent (m_socket (if s then a else b)))
           (\<lambda>s. deqQueue (m_qMessagesIn (if s then a else b))) (start_conversation a b)"
  using open_conn_inv [OF assms(1)] open_conn_inv [OF assms(2)]
  by (simp add: conversation_inv_def start_conversation_def)

text \<open>What one event of one side leaves in order.\<close>

lemma side_inv_exec:
  assumes inv: "side_inv base q out ins n c" and sz: "\<forall>m \<in> set ins. well_sized m"
    and av: "prefix av (frames ins)" "prefix (bytes_read e c) (drop n av)"
    and ws: "\<forall>m \<in> set (sends_of e). well_sized m" and ex: "conn_exec e c = Inr c'"
  shows "side_inv base q (out @ sends_of e) ins (n + length (bytes_read e c)) c'"
  using inv Stream_exec [OF _ _ ex, of "base @ frames out"] reads_step [OF _ sz av ex] ws
  by (auto simp: side_inv_def)

lemma side_inv_append: "side_inv base q out ins n c \<Longrightarrow> side_inv base q out (ins @ ms) n c"
  by (simp add: side_inv_def reads_append)

lemma written_prefix:
  assumes "Stream c (base @ S)"
  shows "prefix (drop (length base) (sent (m_socket c))) S"
proof -
  from assms obtain zs where "base @ S = sent (m_socket c) @ zs" by (auto simp: Stream_def prefix_def)
  then have "S = drop (length base) (sent (m_socket c)) @ drop (length base - length (sent (m_socket c))) zs"
    by (metis append_eq_conv_conj drop_append)
  then show ?thesis by (rule prefixI)
qed

lemma reads_bytes:
  assumes "read_ok e av" "reads ms n q c"
  shows "prefix (bytes_read e c) av"
proof (cases e)
  case (Complete op ec xs)
  show ?thesis
  proof (cases "op \<in> set (pending c) \<and> transfer_ok op ec xs \<and> \<not> is_data_write op")
    case True
    then have "op = AsyncReadHeader \<or> (\<exists>n. op = AsyncReadBody n)" using reads_only [OF assms(2)] by blast
    then show ?thesis using True assms(1) Complete by auto
  qed (use Complete in auto)
qed simp_all

lemma talk_inv:
  assumes inv: "conversation_inv base q v"
  shows "\<exists>v'. talk se v = Inr v' \<and> conversation_inv base q v'"
proof (cases se)
  case (Pair s e)
  note I = inv [unfolded conversation_inv_def, rule_format]
  show ?thesis
  proof (cases "talk_ok s e v")
    case True
    let ?c = "side v s"
    have p: "pump_inv ?c" using I [of s] by (simp add: side_inv_def Stream_def)
    obtain c' where ex: "conn_exec e ?c = Inr c'" using pump_inv_exec [OF p] by blast
    have rd: "reads (wrote v (\<not> s)) (seen v s) (q s) ?c" using I [of s] by (simp add: side_inv_def)
    let ?av = "drop (length (base (\<not> s))) (sent (m_socket (side v (\<not> s))))"
    have av: "prefix ?av (frames (wrote v (\<not> s)))"
      using I [of "\<not> s"] by (intro written_prefix) (simp add: side_inv_def)
    have "arriving s v = drop (seen v s) ?av" using I [of "\<not> s"] by (simp add: arriving_def add.commute)
    then have br: "prefix (bytes_read e ?c) (drop (seen v s) ?av)" using reads_bytes [of e "arriving s v"] rd True by (simp add: talk_ok_def)
    have sz: "\<forall>m \<in> set (wrote v (\<not> s)). well_sized m" using I [of "\<not> s"] by (simp add: side_inv_def)
    have new: "side_inv (base s) (q s) (wrote v s @ sends_of e) (wrote v (\<not> s)) (seen v s + length (bytes_read e ?c)) c'"
      using side_inv_exec [OF _ sz av br _ ex] I [of s] True by (simp add: talk_ok_def)
    have other: "side_inv (base (\<not> s)) (q (\<not> s)) (wrote v (\<not> s)) (wrote v s @ sends_of e) (seen v (\<not> s)) (side v (\<not> s))"
      using I [of "\<not> s"] side_inv_append by simp
    let ?v = "v\<lparr>side := (side v)(s := c'), seen := (seen v)(s := seen v s + length (bytes_read e ?c)),
        wrote := (wrote v)(s := wrote v s @ sends_of e)\<rparr>"
    have "talk se v = Inr ?v" using Pair True ex by (simp add: talk_def)
    moreover have "conversation_inv base q ?v"
      unfolding conversation_inv_def
    proof
      fix t
      show "skip ?v t = length (base t)
         \<and> side_inv (base t) (q t) (wrote ?v t) (wrote ?v (\<not> t)) (seen ?v t) (side ?v t)"
        using new other I [of t] by (cases "t = s") auto
    qed
    ultimately show ?thesis by blast
  qed (use Pair inv in \<open>simp add: talk_def\<close>)
qed

lemma talk_run_inv: "conversation_inv base q v \<Longrightarrow> \<exists>v'. talk_run es v = Inr v' \<and> conversation_inv base q v'"
  by (rule run_events_inv) (use talk_inv in blast)+

text \<open>The other side has nothing left to write, and this side has read everything and waits for the
  next header.\<close>

definition settled :: "conversation \<Rightarrow> bool \<Rightarrow> bool" where
  "settled v s \<longleftrightarrow> outgoing (side v (\<not> s)) = [] \<and> tasks (side v (\<not> s)) = []
     \<and> AsyncReadHeader \<in> set (pending (side v s)) \<and> arriving s v = []"

text \<open>What the invariant says about one direction.\<close>

lemma stale_free_received: "stale_free stale ms \<Longrightarrow> received stale ms = ms"
  by (simp add: received_iff)

lemma headers_received: "map header (received stale ms) = map header ms"
  by (induction ms arbitrary: stale) auto

lemma all_read:
  assumes st: "Stream d (base @ frames ms)" and sz: "\<forall>m \<in> set ms. well_sized m"
    and idle: "outgoing d = []" "tasks d = []" and len: "length (sent (m_socket d)) \<le> length base + n"
    and k: "before_frame (map msg_frame ms) n k"
  shows "take k ms = ms"
proof -
  have "sent (m_socket d) = base @ frames ms"
    using st idle by (auto simp: Stream_def pump_inv_def pump_dead_def backlog_def posted_def)
  then have "length (frames ms) \<le> n" using len by simp
  moreover have "n = length (frames_text (take k (map msg_frame ms)))" using k by (simp add: before_frame_def)
  moreover have "length (frames_text (take k (map msg_frame ms))) \<le> length (frames_text (map msg_frame ms))"
    by (metis append_take_drop_id frames_text_append length_append le_add1)
  ultimately have "n = length (frames_text (map msg_frame ms))" by (simp add: frames_eq)
  then have "take k (map msg_frame ms) = map msg_frame ms"
    using net_stream.read_all [OF sized_frames [OF sz]] k by simp
  then have "length ms \<le> k" by (metis length_map length_take min.absorb_iff1)
  then show ?thesis by simp
qed

lemma settled_all:
  assumes inv: "conversation_inv base q v" and se: "settled v s"
    and k: "before_frame (map msg_frame (wrote v (\<not> s))) (seen v s) k"
  shows "take k (wrote v (\<not> s)) = wrote v (\<not> s)"
  using all_read [OF _ _ _ _ _ k, of "side v (\<not> s)" "base (\<not> s)"] se inv [unfolded conversation_inv_def, rule_format, of "\<not> s"]
  by (simp add: side_inv_def settled_def arriving_def)

lemma conversation_side:
  assumes inv: "conversation_inv base q v"
  shows "\<exists>k out. deqQueue (m_qMessagesIn (side v s)) = q s @ map (own (side v s)) out
     \<and> map header out = map header (take k (wrote v (\<not> s)))
     \<and> (out = take k (wrote v (\<not> s))) = stale_free [] (take k (wrote v (\<not> s)))
     \<and> (settled v s \<longrightarrow> take k (wrote v (\<not> s)) = wrote v (\<not> s))"
proof -
  let ?ms = "wrote v (\<not> s)"
  have "reads ?ms (seen v s) (q s) (side v s)"
    using inv [unfolded conversation_inv_def, rule_format, of s] by (simp add: side_inv_def)
  then obtain k where "k \<le> length ?ms"
      and k: "deqQueue (m_qMessagesIn (side v s)) = q s @ map (own (side v s)) (received [] (take k ?ms))"
      and o: "other_ops (side v s) = []
        \<or> other_ops (side v s) = [AsyncReadHeader] \<and> before_frame (map msg_frame ?ms) (seen v s) k
        \<or> (\<exists>n. other_ops (side v s) = [AsyncReadBody n])"
    unfolding reads_def by blast
  have "take k ?ms = ?ms" if se: "settled v s"
  proof -
    have "AsyncReadHeader \<in> set (other_ops (side v s))" using se by (simp add: settled_def other_ops_def)
    then have "before_frame (map msg_frame ?ms) (seen v s) k" using o by auto
    then show ?thesis by (rule settled_all [OF inv se])
  qed
  then show ?thesis using k headers_received received_iff
    by (intro exI [of _ k] exI [of _ "received [] (take k ?ms)"]) simp
qed

section \<open>After the handshake\<close>

text \<open>The handshake of \<open>handshake_succeeds\<close> leaves both sides as the conversation needs them.\<close>

lemma handshake_opens:
  "\<exists>a b. conn_run [Complete (AsyncWriteValidation (u64_bytes now)) False (u64_bytes now),
                 Complete AsyncReadValidation False (u64_bytes (scramble now))]
               (accepting self q now uid) = Inr a
     \<and> conn_run [Complete AsyncConnect False [],
                 Complete AsyncReadValidation False (u64_bytes now),
                 Complete (AsyncWriteValidation (u64_bytes (scramble now))) False (u64_bytes (scramble now))]
               (connecting self' q') = Inr b
     \<and> open_conn a \<and> open_conn b \<and> m_nOwnerType a = OwnerServer \<and> m_nOwnerType b = OwnerClient
     \<and> m_qMessagesIn a = q \<and> m_qMessagesIn b = q'"
  by (simp add: opening_defs read_done_defs store_validation_full open_conn_def outgoing_def default_message_def
      del: deqQueue_outgoing)

section \<open>Properties\<close>


text \<open>A run: one message is sent, written, and read by the other side.\<close>

definition sample_talk :: "(bool \<times> io_event) list" where
  "sample_talk = map (\<lambda>e. (False, e)) one_send
     @ [(True, Complete AsyncReadHeader False (header_bytes (header one_message))), (True, Complete (AsyncReadBody 1) False [1])]"

lemma sample_talk_settles:
  "\<exists>v. talk_run sample_talk (start_conversation established established) = Inr v \<and> settled v True
     \<and> wrote v False = [one_message]"
proof -
  have "case talk_run sample_talk (start_conversation established established) of
      Inl _ \<Rightarrow> False | Inr v \<Rightarrow> settled v True \<and> wrote v False = [one_message]" by code_simp
  then show ?thesis by (simp split: sum.splits)
qed


end
