(* ===== verification/NetClient.thy ===== *)
theory NetClient
  imports NetWriter
begin

text \<open>
  \<open>src/src/network/NetCommon/net_client.hpp\<close>: the client interface, which owns the Asio context,
  the thread that runs it, one connection and the queue of incoming messages.

  The connection's reference to the owner's queue is modelled by loading \<open>client_qMessagesIn\<close>
  into the connection before a handler runs and storing it back after. The context thread runs
  handlers while the context is not stopped; \<open>run\<close> returns, and the context counts as stopped,
  when it is told to or when no work is left. Nothing in the sources restarts a context.
\<close>

section \<open>State\<close>

record client_interface =
  ioc_stopped :: bool
  thrContext :: bool
  m_connection :: "connection option"
  released :: "connection list"
  client_qMessagesIn :: "owned_message tsqueue"

text \<open>\<open>thrContext\<close> is whether the thread object is joinable; \<open>released\<close> lists the connections that
  \<open>unique_ptr::release\<close> let go of without destroying them.\<close>

definition new_client :: client_interface where
  "new_client = \<lparr>ioc_stopped = False, thrContext = False, m_connection = None, released = [],
     client_qMessagesIn = new_tsqueue\<rparr>"

definition io_running :: "client_interface \<Rightarrow> bool" where
  "io_running cl \<longleftrightarrow> thrContext cl \<and> \<not> ioc_stopped cl"

definition has_work :: "connection \<Rightarrow> bool" where
  "has_work c \<longleftrightarrow> pending c \<noteq> [] \<or> tasks c \<noteq> []"

section \<open>Operations\<close>

definition client_IsConnected :: "client_interface \<Rightarrow> bool" where
  "client_IsConnected cl = (case m_connection cl of Some c \<Rightarrow> IsConnected c | None \<Rightarrow> False)"

definition Incoming :: "client_interface \<Rightarrow> owned_message tsqueue" where
  "Incoming cl = client_qMessagesIn cl"

text \<open>
  \<open>resolved\<close> is \<open>None\<close> if the resolver throws, otherwise whether the range connect opened the
  socket; \<open>thread_starts\<close> is False if the constructor of the thread throws. Assigning to a
  thread object that is still joinable calls \<open>std::terminate\<close>.
\<close>

definition client_Connect ::
  "bool option \<Rightarrow> bool \<Rightarrow> nat \<Rightarrow> client_interface \<Rightarrow> (bool \<times> client_interface) result" where
  "client_Connect resolved thread_starts self cl =
     (case resolved of
        None \<Rightarrow> Inr (False, cl)
      | Some opened \<Rightarrow>
          (let c = new_connection OwnerClient self \<lparr>is_open = False, sent = []\<rparr> (client_qMessagesIn cl) 0;
               cl = cl\<lparr>m_connection := Some (ConnectToServer opened c)\<rparr>
           in if \<not> thread_starts then Inr (False, cl)
              else if thrContext cl then Inl Terminated
              else Inr (True, cl\<lparr>thrContext := True\<rparr>)))"

definition client_Send :: "message \<Rightarrow> client_interface \<Rightarrow> client_interface" where
  "client_Send m cl =
     (if client_IsConnected cl
      then cl\<lparr>m_connection := map_option (conn_Send m) (m_connection cl)\<rparr>
      else cl)"

text \<open>One handler or posted task on the context thread.\<close>

definition client_io :: "io_event \<Rightarrow> client_interface \<Rightarrow> client_interface result" where
  "client_io e cl =
     (case m_connection cl of
        None \<Rightarrow> Inr cl
      | Some c \<Rightarrow>
          if io_running cl \<and> is_handler e
          then rbind (conn_exec e (c\<lparr>m_qMessagesIn := client_qMessagesIn cl\<rparr>)) (\<lambda>c'.
                 Inr (cl\<lparr>m_connection := Some c', client_qMessagesIn := m_qMessagesIn c',
                         ioc_stopped := \<not> has_work c'\<rparr>))
          else Inr cl)"

text \<open>\<open>es\<close> is what the context thread still runs between the post of the close and the stop.\<close>

definition client_Disconnect :: "io_event list \<Rightarrow> client_interface \<Rightarrow> client_interface result" where
  "client_Disconnect es cl =
     (let cl = (if client_IsConnected cl
                then cl\<lparr>m_connection := map_option conn_Disconnect (m_connection cl)\<rparr>
                else cl)
      in rbind (run_events client_io es cl) (\<lambda>cl.
           let cl = cl\<lparr>ioc_stopped := True\<rparr>;
               cl = (if thrContext cl then cl\<lparr>thrContext := False\<rparr> else cl)
           in Inr (cl\<lparr>m_connection := None,
                      released := released cl @ (case m_connection cl of None \<Rightarrow> [] | Some c \<Rightarrow> [c])\<rparr>)))"

definition client_destructor :: "io_event list \<Rightarrow> client_interface \<Rightarrow> client_interface result" where
  "client_destructor es cl = client_Disconnect es cl"

datatype client_call =
    ClConnect "bool option" bool nat
  | ClDisconnect "io_event list"
  | ClSend message
  | ClIo io_event

fun client_exec :: "client_call \<Rightarrow> client_interface \<Rightarrow> client_interface result" where
  "client_exec (ClConnect r t self) cl = rbind (client_Connect r t self cl) (\<lambda>(_, cl). Inr cl)"
| "client_exec (ClDisconnect es) cl = client_Disconnect es cl"
| "client_exec (ClSend m) cl = Inr (client_Send m cl)"
| "client_exec (ClIo e) cl = client_io e cl"

abbreviation client_run :: "client_call list \<Rightarrow> client_interface \<Rightarrow> client_interface result" where
  "client_run \<equiv> run_events client_exec"

lemmas client_defs = client_Connect_def client_Send_def client_io_def client_IsConnected_def

section \<open>The connection inside the client\<close>

definition client_inv :: "client_interface \<Rightarrow> bool" where
  "client_inv cl \<longleftrightarrow> (\<forall>c. m_connection cl = Some c \<longrightarrow> pump_inv c)"

lemma pump_inv_updates [simp]:
  "pump_inv (c\<lparr>m_qMessagesIn := q\<rparr>) = pump_inv c"
  "pump_inv (post_task t c) = pump_inv c"
  by (simp_all add: pump_inv_def pump_ok_def pump_dead_def post_task_def)

lemma pump_inv_call [simp]: "pump_inv (conn_Send m c) = pump_inv c" "pump_inv (conn_Disconnect c) = pump_inv c"
  by (simp_all add: conn_Send_def conn_Disconnect_def)

lemma client_inv_new [simp]: "client_inv new_client"
  by (simp add: client_inv_def new_client_def)

lemma pump_inv_connecting [simp]:
  "pump_inv (ConnectToServer opened (new_connection OwnerClient self s q now))"
  by (simp add: pump_inv_def pump_ok_def ConnectToServer_def new_connection_def outgoing_def data_writes_def
      start_op_def del: deqQueue_outgoing filter_pending)

lemma client_io_ok:
  assumes "client_inv cl"
  shows "\<exists>cl'. client_io e cl = Inr cl' \<and> client_inv cl'"
proof (cases "m_connection cl")
  case None
  then show ?thesis using assms by (simp add: client_io_def)
next
  case (Some c)
  then have "pump_inv (c\<lparr>m_qMessagesIn := client_qMessagesIn cl\<rparr>)" using assms by (simp add: client_inv_def)
  from pump_inv_exec [OF this, of e] Some assms show ?thesis
    by (auto simp: client_io_def client_inv_def simp del: conn_exec.simps)
qed

lemma client_io_run_ok: "client_inv cl \<Longrightarrow> \<exists>cl'. run_events client_io es cl = Inr cl' \<and> client_inv cl'"
  by (rule run_events_inv) (rule client_io_ok)

lemma client_Disconnect_ok:
  assumes "client_inv cl"
  shows "\<exists>cl'. client_Disconnect es cl = Inr cl' \<and> client_inv cl'"
proof -
  let ?cl = "if client_IsConnected cl then cl\<lparr>m_connection := map_option conn_Disconnect (m_connection cl)\<rparr> else cl"
  have "client_inv ?cl" using assms by (auto simp: client_inv_def)
  from client_io_run_ok [OF this, of es] show ?thesis
    by (auto simp: client_Disconnect_def Let_def client_inv_def)
qed

text \<open>The one call that does not return: connecting while the thread of an earlier connect has
  not been joined by \<open>Disconnect\<close>.\<close>

fun second_connect :: "client_call \<Rightarrow> client_interface \<Rightarrow> bool" where
  "second_connect (ClConnect (Some _) True _) cl = thrContext cl"
| "second_connect _ cl = False"

lemma client_exec_ok:
  assumes "client_inv cl"
  shows "if second_connect e cl then client_exec e cl = Inl Terminated
         else \<exists>cl'. client_exec e cl = Inr cl' \<and> client_inv cl'"
proof (cases e)
  case (ClConnect r t self)
  then show ?thesis using assms
    by (cases r; cases t) (auto simp: client_Connect_def Let_def client_inv_def)
next
  case (ClDisconnect es)
  then show ?thesis using client_Disconnect_ok [OF assms] by simp
next
  case (ClSend m)
  then show ?thesis using assms by (auto simp: client_Send_def client_inv_def)
next
  case (ClIo e)
  then show ?thesis using client_io_ok [OF assms] by simp
qed

lemma client_run_inv: "client_inv cl \<Longrightarrow> client_run es cl = Inr cl' \<Longrightarrow> client_inv cl'"
proof (induction es arbitrary: cl)
  case (Cons e es)
  from Cons.prems(2) obtain cl1 where "client_exec e cl = Inr cl1" "client_run es cl1 = Inr cl'" by auto
  with Cons.IH client_exec_ok [OF Cons.prems(1), of e] show ?case by (auto split: if_splits)
qed simp

section \<open>A stopped context\<close>

definition silent :: "owned_message tsqueue \<Rightarrow> client_interface \<Rightarrow> bool" where
  "silent q cl \<longleftrightarrow> ioc_stopped cl \<and> client_qMessagesIn cl = q
     \<and> (\<forall>c. m_connection cl = Some c \<longrightarrow> sent (m_socket c) = [])"

lemma client_io_stopped: "ioc_stopped cl \<Longrightarrow> client_io e cl = Inr cl"
  by (simp add: client_io_def io_running_def split: option.split)

lemma client_io_run_stopped: "ioc_stopped cl \<Longrightarrow> run_events client_io es cl = Inr cl"
  by (induction es) (simp_all add: client_io_stopped)

lemma sent_call [simp]:
  "sent (m_socket (conn_Send m c)) = sent (m_socket c)"
  "sent (m_socket (conn_Disconnect c)) = sent (m_socket c)"
  "sent (m_socket (ConnectToServer opened c)) = sent (m_socket c)"
  by (simp_all add: conn_Send_def conn_Disconnect_def post_task_def ConnectToServer_def)

lemma sent_new [simp]: "sent (m_socket (new_connection p self s q now)) = sent s"
  by (simp add: new_connection_def Let_def)

lemma silent_exec: "silent q cl \<Longrightarrow> client_exec e cl = Inr cl' \<Longrightarrow> silent q cl'"
proof (cases e)
  case (ClConnect r t self)
  assume "silent q cl" "client_exec e cl = Inr cl'"
  with ClConnect show ?thesis
    by (cases r) (auto simp: client_Connect_def Let_def silent_def split: if_splits)
next
  case (ClDisconnect es)
  assume "silent q cl" "client_exec e cl = Inr cl'"
  with ClDisconnect show ?thesis
    by (auto simp: client_Disconnect_def Let_def silent_def client_io_run_stopped split: if_splits)
next
  case (ClSend m)
  assume "silent q cl" "client_exec e cl = Inr cl'"
  with ClSend show ?thesis by (auto simp: client_Send_def silent_def split: if_splits)
next
  case (ClIo ev)
  assume "silent q cl" "client_exec e cl = Inr cl'"
  with ClIo show ?thesis by (auto simp: client_io_stopped silent_def)
qed

lemma silent_run: "silent q cl \<Longrightarrow> client_run es cl = Inr cl' \<Longrightarrow> silent q cl'"
  by (induction es arbitrary: cl) (auto dest: silent_exec simp del: client_exec.simps)

section \<open>A session\<close>

fun in_session :: "client_call \<Rightarrow> bool" where
  "in_session (ClSend _) = True"
| "in_session (ClIo _) = True"
| "in_session _ = False"

fun call_sends :: "client_call \<Rightarrow> message list" where
  "call_sends (ClSend m) = [m]"
| "call_sends _ = []"

definition client_sends :: "client_call list \<Rightarrow> message list" where
  "client_sends es = concat (map call_sends es)"

lemma client_sends_simps [simp]: "client_sends [] = []" "client_sends (e # es) = call_sends e @ client_sends es"
  by (simp_all add: client_sends_def)

definition holds :: "client_interface \<Rightarrow> connection \<Rightarrow> bool" where
  "holds cl c \<longleftrightarrow> m_connection cl = Some c \<and> m_qMessagesIn c = client_qMessagesIn cl"

lemma same_queue_update: "m_qMessagesIn c = q \<Longrightarrow> c\<lparr>m_qMessagesIn := q\<rparr> = c"
  by (cases c) simp

lemma conn_call_queue [simp]:
  "m_qMessagesIn (conn_Send m c) = m_qMessagesIn c" "m_qMessagesIn (conn_Disconnect c) = m_qMessagesIn c"
  by (simp_all add: conn_Send_def conn_Disconnect_def post_task_def)

lemma session_exec:
  assumes "holds cl c" "in_session e" "client_exec e cl = Inr cl'"
  shows "\<exists>es c'. conn_run es c = Inr c' \<and> holds cl' c' \<and> subseq (sends es) (call_sends e)"
proof (cases e)
  case (ClSend m)
  show ?thesis
  proof (cases "IsConnected c")
    case True
    then have "cl' = cl\<lparr>m_connection := Some (conn_Send m c)\<rparr>"
      using assms ClSend by (simp add: client_Send_def client_IsConnected_def holds_def)
    then show ?thesis using assms ClSend
      by (intro exI [of _ "[CallSend m]"] exI [of _ "conn_Send m c"]) (simp add: holds_def sends_of_def)
  next
    case False
    then have "cl' = cl" using assms ClSend by (simp add: client_Send_def client_IsConnected_def holds_def)
    then show ?thesis using assms by (intro exI [of _ "[]"] exI [of _ c]) simp
  qed
next
  case (ClIo ev)
  show ?thesis
  proof (cases "io_running cl \<and> is_handler ev")
    case True
    then obtain c' where c': "conn_exec ev c = Inr c'"
      "cl' = cl\<lparr>m_connection := Some c', client_qMessagesIn := m_qMessagesIn c', ioc_stopped := \<not> has_work c'\<rparr>"
      using assms ClIo by (auto simp: client_io_def holds_def same_queue_update simp del: conn_exec.simps)
    moreover have "sends_of ev = []" using True by (cases ev) (simp_all add: sends_of_def)
    ultimately show ?thesis
      by (intro exI [of _ "[ev]"] exI [of _ c']) (simp add: holds_def del: conn_exec.simps)
  next
    case False
    then have "cl' = cl" using assms ClIo by (auto simp: client_io_def holds_def)
    then show ?thesis using assms by (intro exI [of _ "[]"] exI [of _ c]) simp
  qed
qed (use assms in simp_all)

lemma session_run:
  assumes "holds cl c" "\<forall>e \<in> set calls. in_session e" "client_run calls cl = Inr cl'"
  shows "\<exists>es c'. conn_run es c = Inr c' \<and> holds cl' c' \<and> subseq (sends es) (client_sends calls)"
  using assms
proof (induction calls arbitrary: cl c)
  case Nil
  then show ?case by (intro exI [of _ "[]"] exI [of _ c]) simp
next
  case (Cons e calls)
  from Cons.prems(3) obtain cl1 where cl1: "client_exec e cl = Inr cl1" "client_run calls cl1 = Inr cl'" by auto
  with session_exec [OF Cons.prems(1) _ cl1(1)] Cons.prems(2) obtain es c1
    where c1: "conn_run es c = Inr c1" "holds cl1 c1" "subseq (sends es) (call_sends e)" by auto
  with Cons.IH [OF c1(2) _ cl1(2)] Cons.prems(2) obtain es' c'
    where c': "conn_run es' c1 = Inr c'" "holds cl' c'" "subseq (sends es') (client_sends calls)" by auto
  have "sends (es @ es') = sends es @ sends es'" by (induction es) simp_all
  then show ?case using c1 c'
    by (intro exI [of _ "es @ es'"] exI [of _ c']) (simp add: run_events_append list_emb_append_mono)
qed

section \<open>Properties\<close>





text \<open>A client cannot reconnect. After \<open>Disconnect\<close> the context stays stopped, so \<open>Connect\<close>
  returns true and \<open>IsConnected\<close> says true, but no handler runs again: whatever is called
  afterwards, nothing is ever written to a socket or delivered to the incoming queue.\<close>

lemma reconnect_never_runs:
  assumes "client_Disconnect es cl = Inr cl1"
  shows "\<exists>cl2. client_Connect (Some True) True self cl1 = Inr (True, cl2) \<and> client_IsConnected cl2
     \<and> (\<forall>calls cl3. client_run calls cl2 = Inr cl3 \<longrightarrow>
          Incoming cl3 = Incoming cl1
          \<and> (\<forall>c. m_connection cl3 = Some c \<longrightarrow> sent (m_socket c) = []))"
proof -
  have d: "ioc_stopped cl1" "\<not> thrContext cl1" "m_connection cl1 = None"
    using assms by (auto simp: client_Disconnect_def Let_def split: if_splits)
  then obtain cl2 where cl2: "client_Connect (Some True) True self cl1 = Inr (True, cl2)"
    by (simp add: client_Connect_def)
  then have "silent (client_qMessagesIn cl1) cl2" "client_IsConnected cl2"
    using d by (auto simp: client_Connect_def silent_def client_IsConnected_def IsConnected_def
        ConnectToServer_def start_op_def new_connection_def)
  with cl2 silent_run [OF this(1)] show ?thesis by (fastforce simp: silent_def Incoming_def)
qed

text \<open>\<open>Disconnect\<close> does not close the socket by itself, and never destroys the connection. If
  the context thread stops before it runs the task that \<open>Disconnect\<close> has just posted, the
  connection is released with its socket open and the task is never run; if it runs the task
  first, the connection is released with its socket closed.\<close>

lemma disconnect_leaves_socket_open:
  assumes "m_connection cl = Some c" "IsConnected c" "tasks c = []" "io_running cl"
  shows "(\<exists>cl' c'. client_Disconnect [] cl = Inr cl' \<and> released cl' = released cl @ [c']
       \<and> IsConnected c' \<and> tasks c' = [TaskClose] \<and> m_connection cl' = None)
     \<and> (\<exists>cl' c'. client_Disconnect [RunTask] cl = Inr cl' \<and> released cl' = released cl @ [c']
       \<and> \<not> IsConnected c' \<and> m_connection cl' = None)"
  using assms
  by (simp add: client_Disconnect_def client_IsConnected_def conn_Disconnect_def IsConnected_def
      post_task_def client_io_def io_running_def close_socket_def)

end
