(* ===== verification/NetServer.thy ===== *)
theory NetServer
  imports NetWriter
begin

text \<open>
  \<open>src/src/network/NetCommon/net_server.hpp\<close>: the server interface, which accepts connections,
  keeps them in a deque of shared pointers, sends to one or to all of them and hands the
  incoming messages to the application's hooks.

  The connections live in a heap indexed by their identity. A connection is destroyed when the
  last shared pointer to it goes: the ones in the deque, in the incoming queue and in local
  variables (\<open>held\<close>) are counted; its handlers capture the raw \<open>this\<close> and keep nothing alive.
  The application derived from the server is a record of the four virtual functions, and its
  own state extends the server's.
\<close>

section \<open>State\<close>

record server_interface =
  conns :: "nat \<Rightarrow> connection option"
  m_deqConnections :: "nat option list"
  nIDCounter :: u32
  server_qMessagesIn :: "owned_message tsqueue"
  accepts :: nat
  server_ioc_stopped :: bool
  m_threadContext :: bool
  next_ptr :: nat
  held :: "nat list"
  destroyed :: "nat list"

text \<open>\<open>accepts\<close> counts the accept operations in progress, \<open>next_ptr\<close> is the identity of the next
  connection object, \<open>destroyed\<close> lists the connection objects that no longer exist.\<close>

record 'a server_hooks =
  OnClientConnect :: "nat \<Rightarrow> 'a server_interface_scheme \<Rightarrow> (bool \<times> 'a server_interface_scheme) result"
  OnClientDisconnect :: "nat option \<Rightarrow> 'a server_interface_scheme \<Rightarrow> 'a server_interface_scheme result"
  OnMessage :: "nat option \<Rightarrow> message \<Rightarrow> 'a server_interface_scheme \<Rightarrow> 'a server_interface_scheme result"
  OnClientValidated :: "nat \<Rightarrow> 'a server_interface_scheme \<Rightarrow> 'a server_interface_scheme result"

definition base_hooks :: "'a server_hooks" where
  "base_hooks = \<lparr>OnClientConnect = (\<lambda>client s. Inr (False, s)),
                 OnClientDisconnect = (\<lambda>client s. Inr s),
                 OnMessage = (\<lambda>client m s. Inr s),
                 OnClientValidated = (\<lambda>client s. Inr s)\<rparr>"

definition new_server :: server_interface where
  "new_server = \<lparr>conns = Map.empty, m_deqConnections = [], nIDCounter = 10000,
     server_qMessagesIn = new_tsqueue, accepts = 0, server_ioc_stopped = False,
     m_threadContext = False, next_ptr = 0, held = [], destroyed = []\<rparr>"

section \<open>Connections behind shared pointers\<close>

text \<open>\<open>client && client->IsConnected()\<close>.\<close>

definition alive :: "nat option \<Rightarrow> 'a server_interface_scheme \<Rightarrow> bool" where
  "alive client s = (case client of None \<Rightarrow> False
     | Some p \<Rightarrow> (case conns s p of None \<Rightarrow> False | Some c \<Rightarrow> IsConnected c))"

definition upd_conn ::
  "nat \<Rightarrow> (connection \<Rightarrow> connection) \<Rightarrow> 'a server_interface_scheme \<Rightarrow> 'a server_interface_scheme" where
  "upd_conn p f s = s\<lparr>conns := (conns s)(p := map_option f (conns s p))\<rparr>"

text \<open>\<open>client->Send(msg)\<close> through a pointer.\<close>

definition send_to :: "nat option \<Rightarrow> message \<Rightarrow> 'a server_interface_scheme \<Rightarrow> 'a server_interface_scheme result" where
  "send_to client m s = (case client of None \<Rightarrow> Inl NullDeref | Some p \<Rightarrow> Inr (upd_conn p (conn_Send m) s))"

definition referenced :: "nat \<Rightarrow> 'a server_interface_scheme \<Rightarrow> bool" where
  "referenced p s \<longleftrightarrow> Some p \<in> set (m_deqConnections s) \<or> p \<in> set (held s)
     \<or> Some p \<in> remote ` set (deqQueue (server_qMessagesIn s))"

text \<open>A shared pointer has been reset or went out of scope.\<close>

definition dropped_ref :: "nat option \<Rightarrow> 'a server_interface_scheme \<Rightarrow> 'a server_interface_scheme" where
  "dropped_ref client s = (case client of None \<Rightarrow> s
     | Some p \<Rightarrow> if referenced p s then s else s\<lparr>destroyed := p # destroyed s\<rparr>)"

section \<open>Operations\<close>

definition server_running :: "'a server_interface_scheme \<Rightarrow> bool" where
  "server_running s \<longleftrightarrow> m_threadContext s \<and> \<not> server_ioc_stopped s"

definition WaitForClientConnection :: "'a server_interface_scheme \<Rightarrow> 'a server_interface_scheme" where
  "WaitForClientConnection s = s\<lparr>accepts := Suc (accepts s)\<rparr>"

text \<open>\<open>thread_starts\<close> is False if the constructor of the thread throws.\<close>

definition server_Start :: "bool \<Rightarrow> 'a server_interface_scheme \<Rightarrow> (bool \<times> 'a server_interface_scheme) result" where
  "server_Start thread_starts s =
     (let s = WaitForClientConnection s
      in if \<not> thread_starts then Inr (False, s)
         else if m_threadContext s then Inl Terminated
         else Inr (True, s\<lparr>m_threadContext := True\<rparr>))"

definition server_Stop :: "'a server_interface_scheme \<Rightarrow> 'a server_interface_scheme" where
  "server_Stop s =
     (let s = s\<lparr>server_ioc_stopped := True\<rparr>
      in if m_threadContext s then s\<lparr>m_threadContext := False\<rparr> else s)"

text \<open>
  The accept handler. \<open>has_peer\<close>: \<open>remote_endpoint\<close> finds the peer; it throws when the peer has
  already reset the connection, and the exception leaves \<open>io_context::run\<close> and the thread.
  \<open>now\<close> is the system clock.
\<close>

definition accept_done ::
  "'a server_hooks \<Rightarrow> bool \<Rightarrow> bool \<Rightarrow> u64 \<Rightarrow> 'a server_interface_scheme \<Rightarrow> 'a server_interface_scheme result" where
  "accept_done h ec has_peer now s =
     (if \<not> ec then
        if \<not> has_peer then Inl Terminated
        else
          (let p = next_ptr s;
               c = new_connection OwnerServer p \<lparr>is_open = True, sent = []\<rparr> (server_qMessagesIn s) now;
               s = s\<lparr>conns := (conns s)(p \<mapsto> c), next_ptr := Suc p, held := p # held s\<rparr>
           in rbind (OnClientConnect h p s) (\<lambda>(ok, s).
                let s = s\<lparr>held := remove1 p (held s)\<rparr>
                in if ok then
                     let s = s\<lparr>m_deqConnections := m_deqConnections s @ [Some p]\<rparr>;
                         uid = nIDCounter s;
                         s = upd_conn p (ConnectToClient uid) (s\<lparr>nIDCounter := uid + 1\<rparr>)
                     in Inr (WaitForClientConnection s)
                   else Inr (WaitForClientConnection (dropped_ref (Some p) s))))
      else Inr (WaitForClientConnection s))"

definition MessageClient ::
  "'a server_hooks \<Rightarrow> nat option \<Rightarrow> message \<Rightarrow> 'a server_interface_scheme \<Rightarrow> 'a server_interface_scheme result" where
  "MessageClient h client m s =
     (if alive client s then send_to client m s
      else rbind (OnClientDisconnect h client s) (\<lambda>s.
             let client = None
             in Inr (s\<lparr>m_deqConnections := removeAll client (m_deqConnections s)\<rparr>)))"

text \<open>
  The loop over the deque, from index \<open>i\<close> on, with \<open>n\<close> elements left at its start and
  \<open>bInvalidClientExists\<close> as the result. The loop holds iterators: a hook that changes the
  number of elements invalidates them.
\<close>

fun message_all_loop ::
  "'a server_hooks \<Rightarrow> message \<Rightarrow> nat option \<Rightarrow> nat \<Rightarrow> nat \<Rightarrow> bool \<Rightarrow> 'a server_interface_scheme
   \<Rightarrow> (bool \<times> 'a server_interface_scheme) result" where
  "message_all_loop h m ignore i 0 invalid s = Inr (invalid, s)"
| "message_all_loop h m ignore i (Suc n) invalid s =
     (let client = m_deqConnections s ! i
      in if alive client s then
           if client \<noteq> ignore
           then rbind (send_to client m s) (message_all_loop h m ignore (Suc i) n invalid)
           else message_all_loop h m ignore (Suc i) n invalid s
         else rbind (OnClientDisconnect h client s) (\<lambda>s'.
                if length (m_deqConnections s') \<noteq> length (m_deqConnections s)
                then Inl IteratorInvalidated
                else message_all_loop h m ignore (Suc i) n True
                       (dropped_ref client (s'\<lparr>m_deqConnections := (m_deqConnections s')[i := None]\<rparr>))))"

definition MessageAllClients ::
  "'a server_hooks \<Rightarrow> message \<Rightarrow> nat option \<Rightarrow> 'a server_interface_scheme \<Rightarrow> 'a server_interface_scheme result" where
  "MessageAllClients h m ignore s =
     rbind (message_all_loop h m ignore 0 (length (m_deqConnections s)) False s) (\<lambda>(invalid, s).
       if invalid then Inr (s\<lparr>m_deqConnections := removeAll None (m_deqConnections s)\<rparr>) else Inr s)"

section \<open>Update and the handlers\<close>

lemma count_up:
  fixes i n :: size_t
  assumes "i < n"
  shows "unat n - unat (i + 1) < unat n - unat i"
proof -
  have "i + 1 \<noteq> 0" using assms by (metis add.commute add_eq_0_iff word_n1_ge leD)
  then have "unat (i + 1) = Suc (unat i)" by (simp add: unatSuc add.commute)
  then show ?thesis using assms by (simp add: word_less_nat_alt)
qed

function Update_loop ::
  "'a server_hooks \<Rightarrow> size_t \<Rightarrow> size_t \<Rightarrow> 'a server_interface_scheme \<Rightarrow> 'a server_interface_scheme result" where
  "Update_loop h nMaxMessages nMessageCount s =
     (if nMessageCount < nMaxMessages \<and> \<not> empty (server_qMessagesIn s) then
        rbind (pop_front (server_qMessagesIn s)) (\<lambda>(om, q).
          let l = (case remote om of None \<Rightarrow> [] | Some p \<Rightarrow> [p]);
              s = s\<lparr>server_qMessagesIn := q, held := l @ held s\<rparr>
          in rbind (OnMessage h (remote om) (msg om) s) (\<lambda>s.
               Update_loop h nMaxMessages (nMessageCount + 1)
                 (dropped_ref (remote om) (s\<lparr>held := drop (length l) (held s)\<rparr>))))
      else Inr s)"
  by pat_completeness auto

termination
  by (relation "measure (\<lambda>(h, n, i, s). unat n - unat i)") (simp_all add: count_up)

declare Update_loop.simps [simp del]

text \<open>\<open>during\<close> is what the context thread does while \<open>wait\<close> blocks; if that leaves the queue
  empty the call has not returned.\<close>

definition server_Update ::
  "'a server_hooks \<Rightarrow> ('a server_interface_scheme \<Rightarrow> 'a server_interface_scheme result)
   \<Rightarrow> size_t \<Rightarrow> bool \<Rightarrow> 'a server_interface_scheme \<Rightarrow> 'a server_interface_scheme result" where
  "server_Update h during nMaxMessages bWait s =
     rbind (if bWait \<and> empty (server_qMessagesIn s) then
              rbind (during s) (\<lambda>s. if empty (server_qMessagesIn s) then Inl Blocked else Inr s)
            else Inr s)
       (Update_loop h nMaxMessages 0)"

text \<open>A handler of connection \<open>p\<close> on the context thread. The handler of \<open>ReadValidation\<close> calls the
  hook \<open>OnClientValidated\<close> between the check and \<open>ReadHeader\<close>.\<close>

definition load_conn :: "'a server_interface_scheme \<Rightarrow> connection \<Rightarrow> connection" where
  "load_conn s c = c\<lparr>m_qMessagesIn := server_qMessagesIn s\<rparr>"

definition store_conn :: "nat \<Rightarrow> 'a server_interface_scheme \<Rightarrow> connection \<Rightarrow> 'a server_interface_scheme" where
  "store_conn p s c = s\<lparr>conns := (conns s)(p \<mapsto> c), server_qMessagesIn := m_qMessagesIn c\<rparr>"

definition validated_now :: "io_event \<Rightarrow> connection \<Rightarrow> bool" where
  "validated_now e c = (case e of
     Complete AsyncReadValidation False xs \<Rightarrow>
       m_nOwnerType c = OwnerServer \<and> m_nHandshakeIn (store_validation xs c) = m_nHandshakeCheck c
   | _ \<Rightarrow> False)"

definition take_validation :: "io_event \<Rightarrow> connection \<Rightarrow> connection" where
  "take_validation e c = (case e of
     Complete op _ xs \<Rightarrow> store_validation xs (c\<lparr>pending := remove1 op (pending c)\<rparr>)
   | _ \<Rightarrow> c)"

definition server_io ::
  "'a server_hooks \<Rightarrow> nat \<Rightarrow> io_event \<Rightarrow> 'a server_interface_scheme \<Rightarrow> 'a server_interface_scheme result" where
  "server_io h p e s =
     (case conns s p of
        None \<Rightarrow> Inr s
      | Some c \<Rightarrow>
          if \<not> (server_running s \<and> is_handler e \<and> enabled e c) then Inr s
          else if p \<in> set (destroyed s) then Inl UseAfterFree
          else if validated_now e c then
            rbind (OnClientValidated h p (s\<lparr>conns := (conns s)(p \<mapsto> take_validation e (load_conn s c))\<rparr>)) (\<lambda>s.
              Inr (upd_conn p ReadHeader s))
          else rbind (conn_exec e (load_conn s c)) (\<lambda>c'. Inr (store_conn p s c')))"

datatype server_event =
    SrvAccept bool bool u64
  | SrvIo nat io_event

fun server_context ::
  "'a server_hooks \<Rightarrow> server_event \<Rightarrow> 'a server_interface_scheme \<Rightarrow> 'a server_interface_scheme result" where
  "server_context h (SrvAccept ec has_peer now) s =
     (if server_running s \<and> 0 < accepts s
      then accept_done h ec has_peer now (s\<lparr>accepts := accepts s - 1\<rparr>)
      else Inr s)"
| "server_context h (SrvIo p e) s = server_io h p e s"

text \<open>With a hook that does nothing, a handler is the connection's own step.\<close>

lemma server_io_base:
  assumes "conns s p = Some c" "server_running s" "is_handler e" "enabled e c" "p \<notin> set (destroyed s)"
    and "m_nOwnerType c = OwnerServer"
  shows "server_io base_hooks p e s = rbind (conn_exec e (load_conn s c)) (\<lambda>c'. Inr (store_conn p s c'))"
proof (cases "validated_now e c")
  case True
  then obtain xs where e: "e = Complete AsyncReadValidation False xs"
    by (auto simp: validated_now_def split: io_event.splits async_op.splits bool.splits)
  show ?thesis using True assms
    by (simp add: e server_io_def base_hooks_def validated_now_def take_validation_def upd_conn_def load_conn_def
        store_conn_def read_done_defs store_validation_def start_defs)
next
  case False
  then show ?thesis using assms by (simp add: server_io_def)
qed

section \<open>The calls of the main thread\<close>

datatype server_call =
    SvStart bool
  | SvStop
  | SvUpdate size_t bool "server_event list"
  | SvMessageClient nat message
  | SvMessageAll message "nat option"
  | SvContext server_event

fun server_exec ::
  "'a server_hooks \<Rightarrow> server_call \<Rightarrow> 'a server_interface_scheme \<Rightarrow> 'a server_interface_scheme result" where
  "server_exec h (SvStart t) s = rbind (server_Start t s) (\<lambda>(_, s). Inr s)"
| "server_exec h SvStop s = Inr (server_Stop s)"
| "server_exec h (SvUpdate n w es) s = server_Update h (run_events (server_context h) es) n w s"
| "server_exec h (SvMessageClient p m) s =
     (if referenced p s then MessageClient h (Some p) m s else Inr s)"
| "server_exec h (SvMessageAll m ignore) s = MessageAllClients h m ignore s"
| "server_exec h (SvContext e) s = server_context h e s"

abbreviation server_run ::
  "'a server_hooks \<Rightarrow> server_call list \<Rightarrow> 'a server_interface_scheme \<Rightarrow> 'a server_interface_scheme result" where
  "server_run h \<equiv> run_events (server_exec h)"

section \<open>Invariant\<close>

definition conn_ok :: "nat \<Rightarrow> connection \<Rightarrow> bool" where
  "conn_ok p c \<longleftrightarrow> this_ptr c = p \<and> m_nOwnerType c = OwnerServer \<and> pump_inv c"

definition heap_ok :: "'a server_interface_scheme \<Rightarrow> bool" where
  "heap_ok s \<longleftrightarrow> (\<forall>p c. conns s p = Some c \<longrightarrow> p < next_ptr s \<and> conn_ok p c)"

definition refs_ok :: "'a server_interface_scheme \<Rightarrow> bool" where
  "refs_ok s \<longleftrightarrow> None \<notin> set (m_deqConnections s) \<and> distinct (m_deqConnections s)
     \<and> None \<notin> remote ` set (deqQueue (server_qMessagesIn s))
     \<and> (\<forall>p. referenced p s \<longrightarrow> conns s p \<noteq> None)"

definition gone_ok :: "'a server_interface_scheme \<Rightarrow> bool" where
  "gone_ok s \<longleftrightarrow> (\<forall>p \<in> set (destroyed s). \<not> referenced p s \<and> p < next_ptr s)"

definition server_inv :: "'a server_interface_scheme \<Rightarrow> bool" where
  "server_inv s \<longleftrightarrow> heap_ok s \<and> refs_ok s \<and> gone_ok s"

lemmas server_inv_defs = server_inv_def heap_ok_def refs_ok_def gone_ok_def

lemma server_inv_new [simp]: "server_inv new_server"
  by (simp add: server_inv_defs new_server_def referenced_def)

text \<open>What one step of a connection may change of the identity and the incoming queue.\<close>

definition conn_frame :: "connection \<Rightarrow> connection \<Rightarrow> bool" where
  "conn_frame c c' \<longleftrightarrow> this_ptr c' = this_ptr c \<and> m_nOwnerType c' = m_nOwnerType c
     \<and> (\<exists>oms. deqQueue (m_qMessagesIn c') = deqQueue (m_qMessagesIn c) @ oms
          \<and> (\<forall>om \<in> set oms. remote om = (if m_nOwnerType c = OwnerServer then Some (this_ptr c) else None)))"

lemma conn_frame_refl [simp]: "conn_frame c c"
  by (simp add: conn_frame_def)

lemma conn_frame_same:
  "this_ptr c' = this_ptr c \<Longrightarrow> m_nOwnerType c' = m_nOwnerType c \<Longrightarrow> m_qMessagesIn c' = m_qMessagesIn c \<Longrightarrow>
   conn_frame c c'"
  by (simp add: conn_frame_def)

lemma add_frame: "conn_frame c (AddToIncomingMessageQueue c)"
  by (simp add: conn_frame_def AddToIncomingMessageQueue_def Let_def start_defs)

lemma run_send_frame: "run_send m c = Inr c' \<Longrightarrow> conn_frame c c'"
  by (auto simp: run_send_eq Let_def conn_frame_def start_op_def split: if_splits)

lemma next_message_frame: "next_message c = Inr c' \<Longrightarrow> conn_frame c c'"
  by (auto simp: next_message_eq Let_def conn_frame_def start_op_def split: list.splits)

lemma WriteBody_frame: "WriteBody c = Inr c' \<Longrightarrow> conn_frame c c'"
  by (auto simp: WriteBody_eq conn_frame_def start_op_def split: list.splits)

lemma conn_frame_updates [simp]:
  "conn_frame (c\<lparr>pending := ops\<rparr>) = conn_frame c" "conn_frame (c\<lparr>tasks := ts\<rparr>) = conn_frame c"
  "conn_frame (c\<lparr>m_socket := sk\<rparr>) = conn_frame c" "conn_frame (c\<lparr>m_msgTemporaryIn := m\<rparr>) = conn_frame c"
  "conn_frame (sock_accept xs c) = conn_frame c"
  by (auto simp: conn_frame_def fun_eq_iff sock_accept_def)

lemma complete_frame: "complete op ec xs c = Inr c' \<Longrightarrow> conn_frame c c'"
proof (induction op ec xs c rule: complete.induct)
  case (2 bs ec xs c)
  then show ?case
    by (auto simp: WriteHeader_done_def close_socket_def sock_accept_def split: if_splits
        intro: conn_frame_same dest!: WriteBody_frame next_message_frame)
next
  case (3 bs ec xs c)
  then show ?case
    by (auto simp: WriteBody_done_def close_socket_def sock_accept_def split: if_splits
        intro: conn_frame_same dest!: next_message_frame)
next
  case (5 ec xs c)
  let ?c = "store_header xs c"
  have "conn_frame c (AddToIncomingMessageQueue ?c)"
    using add_frame [of ?c] by (simp add: store_defs Let_def)
  then show ?case using 5
    by (auto simp: ReadHeader_done_def Let_def start_defs store_defs split: if_splits intro: conn_frame_same)
next
  case (6 n ec xs c)
  let ?c = "store_body xs c"
  have "conn_frame c (AddToIncomingMessageQueue ?c)"
    using add_frame [of ?c] by (simp add: store_defs Let_def)
  then show ?case using 6
    by (auto simp: ReadBody_done_def start_defs store_defs Let_def split: if_splits intro: conn_frame_same)
qed (auto simp: read_done_defs start_defs store_defs split: if_splits intro!: conn_frame_same)

lemma run_task_frame: "run_task t c = Inr c' \<Longrightarrow> conn_frame c c'"
  by (cases t) (auto simp: close_socket_def intro: conn_frame_same dest: run_send_frame)

lemma conn_exec_frame: "conn_exec e c = Inr c' \<Longrightarrow> conn_frame c c'"
proof (cases e)
  case (Complete op ec xs)
  assume "conn_exec e c = Inr c'"
  then show ?thesis using Complete complete_frame [of op ec xs "c\<lparr>pending := remove1 op (pending c)\<rparr>" c']
    by (auto split: if_splits)
next
  case RunTask
  assume "conn_exec e c = Inr c'"
  then show ?thesis using RunTask run_task_frame
    by (fastforce split: list.splits)
qed (auto simp: call_defs post_task_def intro: conn_frame_same)

section \<open>The invariant under the elementary updates\<close>

lemma server_inv_upd_conn:
  assumes "server_inv s" "\<And>c. conn_ok p c \<Longrightarrow> conn_ok p (f c)"
  shows "server_inv (upd_conn p f s)"
  using assms by (auto simp: server_inv_defs upd_conn_def referenced_def split: if_splits)

lemma conn_ok_call [simp]:
  "conn_ok p (conn_Send m c) = conn_ok p c" "conn_ok p (c\<lparr>m_qMessagesIn := q\<rparr>) = conn_ok p c"
  by (simp_all add: conn_ok_def conn_Send_def post_task_def pump_inv_def pump_ok_def pump_dead_def)

lemma conn_ok_sends [simp]: "conn_ok p (fold conn_Send ms c) = conn_ok p c"
  by (induction ms arbitrary: c) simp_all

lemma start_op_pump:
  "\<not> is_data_write op \<Longrightarrow> pump_inv (start_op op c) = pump_inv c"
  by (simp add: pump_inv_def pump_ok_def pump_dead_def)

lemma conn_ok_ConnectToClient: "conn_ok p c \<Longrightarrow> conn_ok p (ConnectToClient uid c)"
proof -
  assume ok: "conn_ok p c"
  have "pump_inv (c\<lparr>conn_id := uid\<rparr>) = pump_inv c"
    by (simp add: pump_inv_def pump_ok_def pump_dead_def outgoing_def data_writes_def
        del: deqQueue_outgoing filter_pending)
  then show ?thesis using ok
    by (auto simp: conn_ok_def ConnectToClient_def WriteValidation_def ReadValidation_def start_op_pump)
      (simp_all add: start_op_def)
qed

lemma conn_ok_ReadHeader: "conn_ok p c \<Longrightarrow> conn_ok p (ReadHeader c)"
  by (auto simp: conn_ok_def ReadHeader_def start_op_pump) (simp_all add: start_op_def)

lemma conn_ok_new: "conn_ok p (new_connection OwnerServer p sk q now)"
  by (simp add: conn_ok_def new_connection_def pump_inv_def pump_ok_def outgoing_def data_writes_def
      del: deqQueue_outgoing filter_pending)

lemma server_inv_dropped_ref:
  assumes "server_inv s" "\<And>p. client = Some p \<Longrightarrow> p < next_ptr s"
  shows "server_inv (dropped_ref client s)"
  using assms by (auto simp: dropped_ref_def server_inv_defs referenced_def split: option.splits)

lemma referenced_alive: "server_inv s \<Longrightarrow> referenced p s \<Longrightarrow> p < next_ptr s"
  by (fastforce simp: server_inv_defs)

lemma server_inv_send_to:
  assumes "server_inv s" "client \<noteq> None"
  shows "\<exists>s'. send_to client m s = Inr s' \<and> server_inv s'"
  using assms server_inv_upd_conn [OF assms(1), of _ "conn_Send m"] by (auto simp: send_to_def)

lemma server_inv_fields:
  assumes "server_inv s" "conns s' = conns s" "m_deqConnections s' = m_deqConnections s"
    "server_qMessagesIn s' = server_qMessagesIn s" "next_ptr s' = next_ptr s"
    "set (held s') \<subseteq> set (held s)" "destroyed s' = destroyed s"
  shows "server_inv s'"
proof -
  have "referenced p s' \<Longrightarrow> referenced p s" for p using assms by (auto simp: referenced_def)
  then show ?thesis using assms by (auto simp: server_inv_defs)
qed

lemma server_inv_Wait [simp]:
  "server_inv (WaitForClientConnection s) = server_inv s"
  "accepts (WaitForClientConnection s) = Suc (accepts s)"
  by (simp_all add: server_inv_defs WaitForClientConnection_def referenced_def)

lemma accepts_keep [simp]: "accepts (upd_conn p f s) = accepts s" "accepts (dropped_ref client s) = accepts s"
  by (auto simp: upd_conn_def dropped_ref_def split: option.split)

section \<open>The application's contract\<close>

definition same_rest_server :: "'a server_interface_scheme \<Rightarrow> 'a server_interface_scheme \<Rightarrow> bool" where
  "same_rest_server s s' \<longleftrightarrow> m_deqConnections s' = m_deqConnections s \<and> nIDCounter s' = nIDCounter s
     \<and> server_qMessagesIn s' = server_qMessagesIn s \<and> accepts s' = accepts s
     \<and> server_ioc_stopped s' = server_ioc_stopped s \<and> m_threadContext s' = m_threadContext s
     \<and> next_ptr s' = next_ptr s \<and> held s' = held s \<and> destroyed s' = destroyed s"

text \<open>A hook that does no more to the server than send messages to \<open>p\<close>.\<close>

definition posts :: "nat \<Rightarrow> message list \<Rightarrow> 'a server_interface_scheme \<Rightarrow> 'a server_interface_scheme \<Rightarrow> bool" where
  "posts p ms s s' \<longleftrightarrow> same_rest_server s s'
     \<and> conns s' = (conns s)(p := map_option (fold conn_Send ms) (conns s p))"

lemma server_inv_posts: "server_inv s \<Longrightarrow> posts p ms s s' \<Longrightarrow> server_inv s'"
  using server_inv_fields [OF server_inv_upd_conn [of s p "fold conn_Send ms"], of s']
  by (simp add: posts_def same_rest_server_def upd_conn_def)

lemma posts_Nil: "conns s' = conns s \<Longrightarrow> same_rest_server s s' \<Longrightarrow> posts p [] s s'"
  by (simp add: posts_def option.map_id fun_eq_iff)

locale server_app =
  fixes h :: "'a server_hooks"
  assumes on_connect: "conns s p = Some c \<Longrightarrow>
      \<exists>ok ms s'. OnClientConnect h p s = Inr (ok, s') \<and> posts p ms s s'"
    and on_disconnect: "conns s p = Some c \<Longrightarrow>
      \<exists>s'. OnClientDisconnect h (Some p) s = Inr s' \<and> same_rest_server s s' \<and> conns s' = conns s"
    and on_validated: "conns s p = Some c \<Longrightarrow>
      \<exists>ms s'. OnClientValidated h p s = Inr s' \<and> posts p ms s s'"
    and on_message: "server_inv s \<Longrightarrow> p \<in> set (held s) \<Longrightarrow>
      \<exists>s'. OnMessage h (Some p) m s = Inr s' \<and> server_inv s'
        \<and> server_qMessagesIn s' = server_qMessagesIn s \<and> held s' = held s"
begin

text \<open>Accepting.\<close>

lemma accept_ok:
  assumes inv: "server_inv s"
  shows "accept_done h ec has_peer now s = Inl Terminated \<and> \<not> ec \<and> \<not> has_peer
    \<or> (\<exists>s'. accept_done h ec has_peer now s = Inr s' \<and> server_inv s' \<and> accepts s' = Suc (accepts s))"
proof (cases "ec \<or> \<not> has_peer")
  case True
  then show ?thesis using inv by (auto simp: accept_done_def)
next
  case False
  let ?p = "next_ptr s"
  let ?c = "new_connection OwnerServer ?p \<lparr>is_open = True, sent = []\<rparr> (server_qMessagesIn s) now"
  let ?s = "s\<lparr>conns := (conns s)(?p \<mapsto> ?c), next_ptr := Suc ?p, held := ?p # held s\<rparr>"
  have fresh: "conns s ?p = None" "\<not> referenced ?p s" "?p \<notin> set (destroyed s)"
    using inv by (fastforce simp: server_inv_defs)+
  have inv1: "server_inv ?s" using inv fresh(3) conn_ok_new [of ?p]
    by (auto simp: server_inv_defs referenced_def less_Suc_eq)
  obtain ok ms s1 where s1: "OnClientConnect h ?p ?s = Inr (ok, s1)" "posts ?p ms ?s s1"
    using on_connect [of ?s ?p ?c] by auto
  let ?s1 = "s1\<lparr>held := remove1 ?p (held s1)\<rparr>"
  have inv2: "server_inv s1" using server_inv_posts [OF inv1 s1(2)] .
  have inv3: "server_inv ?s1"
    using server_inv_fields [OF inv2, of ?s1] set_remove1_subset by fastforce
  have f: "m_deqConnections s1 = m_deqConnections s" "next_ptr s1 = Suc ?p" "held s1 = ?p # held s"
    "server_qMessagesIn s1 = server_qMessagesIn s" "destroyed s1 = destroyed s" "accepts s1 = accepts s"
    "conns s1 ?p \<noteq> None"
    using s1(2) by (simp_all add: posts_def same_rest_server_def)
  show ?thesis
  proof (cases ok)
    case True
    let ?s2 = "?s1\<lparr>m_deqConnections := m_deqConnections ?s1 @ [Some ?p], nIDCounter := nIDCounter s1 + 1\<rparr>"
    have "Some ?p \<notin> set (m_deqConnections s)" using fresh by (auto simp: referenced_def)
    then have "server_inv ?s2" using inv3 f fresh
      by (auto simp: server_inv_defs referenced_def)
    from server_inv_upd_conn [OF this conn_ok_ConnectToClient [where uid = "nIDCounter s1"], of ?p]
    show ?thesis
      using s1(1) False True f by (simp add: accept_done_def Let_def)
  next
    case False': False
    have "server_inv (dropped_ref (Some ?p) ?s1)"
      using server_inv_dropped_ref [OF inv3, of "Some ?p"] f by simp
    then show ?thesis using s1(1) False False' f by (simp add: accept_done_def Let_def)
  qed
qed

text \<open>Handlers of a connection: beyond a use after free, none faults.\<close>

lemma server_inv_store:
  assumes inv: "server_inv s" and c: "conns s p = Some c" "p \<notin> set (destroyed s)"
    and f: "conn_frame (load_conn s c) c'" "pump_inv c'"
  shows "server_inv (store_conn p s c')"
proof -
  have c_ok: "p < next_ptr s" "this_ptr c = p" "m_nOwnerType c = OwnerServer"
    using inv c by (auto simp: server_inv_defs conn_ok_def)
  from f(1) obtain oms where oms: "deqQueue (m_qMessagesIn c') = deqQueue (server_qMessagesIn s) @ oms"
    "\<forall>om \<in> set oms. remote om = Some p" "conn_ok p c'"
    using c_ok f(2) by (auto simp: conn_frame_def load_conn_def conn_ok_def)
  have r: "referenced q (store_conn p s c') \<Longrightarrow> referenced q s \<or> q = p" for q
    using oms by (auto simp: referenced_def store_conn_def)
  show ?thesis
    unfolding server_inv_def
  proof (intro conjI)
    show "heap_ok (store_conn p s c')" using inv oms c_ok by (simp add: server_inv_defs store_conn_def)
    have "conns (store_conn p s c') q \<noteq> None" if "referenced q (store_conn p s c')" for q
      using r [OF that] inv by (auto simp: server_inv_defs store_conn_def)
    then show "refs_ok (store_conn p s c')" using inv oms
      by (auto simp: refs_ok_def server_inv_def store_conn_def)
    show "gone_ok (store_conn p s c')" using inv r c(2)
      by (auto simp: server_inv_def gone_ok_def store_conn_def)
  qed
qed

lemma server_io_ok:
  assumes inv: "server_inv s"
  shows "server_io h p e s = Inl UseAfterFree \<or> (\<exists>s'. server_io h p e s = Inr s' \<and> server_inv s' \<and> held s' = held s)"
proof (cases "conns s p")
  case None
  then show ?thesis using inv by (simp add: server_io_def)
next
  case c: (Some c)
  have ok: "conn_ok p c" using inv c by (auto simp: server_inv_defs)
  show ?thesis
  proof (cases "\<not> (server_running s \<and> is_handler e \<and> enabled e c) \<or> p \<in> set (destroyed s)")
    case True
    then show ?thesis using inv c by (auto simp: server_io_def)
  next
    case go: False
    show ?thesis
    proof (cases "validated_now e c")
      case True
      then obtain xs where e: "e = Complete AsyncReadValidation False xs"
        by (auto simp: validated_now_def split: io_event.splits async_op.splits bool.splits)
      let ?c = "take_validation e (load_conn s c)"
      let ?s = "s\<lparr>conns := (conns s)(p \<mapsto> ?c)\<rparr>"
      have "conn_ok p ?c" using ok remove_other [of AsyncReadValidation c]
        by (simp add: e take_validation_def load_conn_def store_validation_def conn_ok_def
            pump_inv_def pump_ok_def pump_dead_def)
      then have "server_inv ?s" using server_inv_upd_conn [OF inv, of p "\<lambda>_. ?c"] c by (simp add: upd_conn_def)
      moreover obtain ms s' where s': "OnClientValidated h p ?s = Inr s'" "posts p ms ?s s'"
        using on_validated [of ?s p ?c] by auto
      ultimately have "server_inv s'" using server_inv_posts by blast
      from server_inv_upd_conn [OF this conn_ok_ReadHeader] have "server_inv (upd_conn p ReadHeader s')" .
      moreover have "held s' = held s" using s'(2) by (simp add: posts_def same_rest_server_def)
      ultimately show ?thesis using c go True s'(1) by (simp add: server_io_def upd_conn_def)
    next
      case False
      have "pump_inv (load_conn s c)" using ok
        by (simp add: load_conn_def conn_ok_def pump_inv_def pump_ok_def pump_dead_def)
      then obtain c' where c': "conn_exec e (load_conn s c) = Inr c'" "pump_inv c'"
        using pump_inv_exec by blast
      have "server_inv (store_conn p s c')"
        using server_inv_store [OF inv c _ conn_exec_frame [OF c'(1)] c'(2)] go by simp
      then show ?thesis using c go False c'(1)
        by (simp add: server_io_def store_conn_def del: conn_exec.simps)
    qed
  qed
qed

end

section \<open>Sending to all\<close>

text \<open>The connections after a message has been sent to the live ones of \<open>ds\<close> other than \<open>ignore\<close>.\<close>

definition sends_all ::
  "message \<Rightarrow> nat option \<Rightarrow> nat option list \<Rightarrow> 'a server_interface_scheme \<Rightarrow> nat \<Rightarrow> connection option" where
  "sends_all m ignore ds s = (\<lambda>p.
     if Some p \<in> set ds \<and> Some p \<noteq> ignore \<and> alive (Some p) s
     then map_option (conn_Send m) (conns s p) else conns s p)"

lemma IsConnected_Send [simp]: "IsConnected (conn_Send m c) = IsConnected c"
  by (simp add: IsConnected_def conn_Send_def post_task_def)

lemma alive_upd_send [simp]: "alive cl (upd_conn p (conn_Send m) s) = alive cl s"
  by (auto simp: alive_def upd_conn_def split: option.split)

lemma alive_cong: "conns s' = conns s \<Longrightarrow> alive cl s' = alive cl s"
  by (cases cl) (simp_all add: alive_def)

lemma alive_sends_all: "conns s' = sends_all m ignore ds s \<Longrightarrow> alive cl s' = alive cl s"
  by (auto simp: alive_def sends_all_def split: option.splits)

lemma dropped_ref_simps [simp]:
  "m_deqConnections (dropped_ref cl s) = m_deqConnections s" "conns (dropped_ref cl s) = conns s"
  "server_qMessagesIn (dropped_ref cl s) = server_qMessagesIn s" "held (dropped_ref cl s) = held s"
  "next_ptr (dropped_ref cl s) = next_ptr s" "nIDCounter (dropped_ref cl s) = nIDCounter s"
  by (simp_all add: dropped_ref_def split: option.split)

lemma upd_conn_simps [simp]:
  "m_deqConnections (upd_conn p f s) = m_deqConnections s" "server_qMessagesIn (upd_conn p f s) = server_qMessagesIn s"
  "held (upd_conn p f s) = held s" "next_ptr (upd_conn p f s) = next_ptr s"
  "destroyed (upd_conn p f s) = destroyed s" "nIDCounter (upd_conn p f s) = nIDCounter s"
  "conns (upd_conn p f s) = (conns s)(p := map_option f (conns s p))"
  by (simp_all add: upd_conn_def)

definition same_refs :: "'a server_interface_scheme \<Rightarrow> 'a server_interface_scheme \<Rightarrow> bool" where
  "same_refs s s' \<longleftrightarrow> server_qMessagesIn s' = server_qMessagesIn s \<and> held s' = held s
     \<and> next_ptr s' = next_ptr s \<and> nIDCounter s' = nIDCounter s"

definition loop_gone :: "nat option list \<Rightarrow> 'a server_interface_scheme \<Rightarrow> 'a server_interface_scheme \<Rightarrow> bool" where
  "loop_gone ds s s' \<longleftrightarrow> (\<forall>p \<in> set (destroyed s'). p \<in> set (destroyed s)
     \<or> Some p \<in> set ds \<and> \<not> alive (Some p) s \<and> \<not> referenced p s')"

lemma referenced_less:
  assumes "same_refs s s'" "\<And>p. Some p \<in> set (m_deqConnections s') \<Longrightarrow> Some p \<in> set (m_deqConnections s)"
  shows "referenced p s' \<Longrightarrow> referenced p s"
  using assms by (auto simp: referenced_def same_refs_def)

definition loop_result ::
  "message \<Rightarrow> nat option \<Rightarrow> nat \<Rightarrow> 'a server_interface_scheme \<Rightarrow> 'a server_interface_scheme \<Rightarrow> bool" where
  "loop_result m ignore i s s' \<longleftrightarrow>
     m_deqConnections s' = take i (m_deqConnections s)
       @ map (\<lambda>cl. if alive cl s then cl else None) (drop i (m_deqConnections s))
     \<and> conns s' = sends_all m ignore (drop i (m_deqConnections s)) s
     \<and> same_refs s s' \<and> loop_gone (drop i (m_deqConnections s)) s s'"

lemma loop_result_deq:
  "loop_result m ignore i s s' \<Longrightarrow> Some p \<in> set (m_deqConnections s') \<Longrightarrow> Some p \<in> set (m_deqConnections s)"
  by (auto simp: loop_result_def split: if_splits dest: in_set_takeD in_set_dropD)

lemma loop_result_send:
  assumes i: "i < length (m_deqConnections s)" "m_deqConnections s ! i = Some p" "alive (Some p) s"
    and new: "Some p \<notin> set (drop (Suc i) (m_deqConnections s))"
    and s1: "s1 = (if Some p \<noteq> ignore then upd_conn p (conn_Send m) s else s)"
    and r: "loop_result m ignore (Suc i) s1 s'"
  shows "loop_result m ignore i s s'"
proof -
  have d: "drop i (m_deqConnections s) = Some p # drop (Suc i) (m_deqConnections s)"
    using i by (metis Cons_nth_drop_Suc)
  have t: "take (Suc i) (m_deqConnections s) = take i (m_deqConnections s) @ [Some p]"
    using i by (simp add: take_Suc_conv_app_nth)
  have a: "alive cl s1 = alive cl s" for cl using s1 by simp
  have "sends_all m ignore (drop (Suc i) (m_deqConnections s)) s1 = sends_all m ignore (drop i (m_deqConnections s)) s"
    using new i(3) by (auto simp: sends_all_def fun_eq_iff a d s1)
  then show ?thesis using r i(3)
    by (auto simp: loop_result_def t d a same_refs_def loop_gone_def s1)
qed

lemma loop_result_drop:
  assumes i: "i < length (m_deqConnections s)" "m_deqConnections s ! i = Some p" "\<not> alive (Some p) s"
    and h: "same_rest_server s sh" "conns sh = conns s"
    and s1: "s1 = dropped_ref (Some p) (sh\<lparr>m_deqConnections := (m_deqConnections sh)[i := None]\<rparr>)"
    and r: "loop_result m ignore (Suc i) s1 s'"
  shows "loop_result m ignore i s s'"
proof -
  let ?ds = "m_deqConnections s"
  have d: "drop i ?ds = Some p # drop (Suc i) ?ds" using i by (metis Cons_nth_drop_Suc)
  have ds1: "m_deqConnections s1 = ?ds[i := None]" "conns s1 = conns s" "same_refs s s1"
    using h s1 by (simp_all add: same_rest_server_def same_refs_def)
  have t: "take (Suc i) (?ds[i := None]) = take i ?ds @ [None]" using i by (simp add: take_Suc_conv_app_nth)
  have a: "alive cl s1 = alive cl s" for cl using ds1(2) by (rule alive_cong)
  have c: "conns s' = sends_all m ignore (drop i ?ds) s"
    using r i(3) by (auto simp: loop_result_def sends_all_def fun_eq_iff a d ds1)
  have sr: "same_refs s s'" using r ds1(3) by (simp add: loop_result_def same_refs_def)
  have "loop_gone (drop i ?ds) s s'"
    unfolding loop_gone_def
  proof
    fix q assume "q \<in> set (destroyed s')"
    then have "q \<in> set (destroyed s1) \<or> Some q \<in> set (drop (Suc i) ?ds) \<and> \<not> alive (Some q) s \<and> \<not> referenced q s'"
      using r by (auto simp: loop_result_def loop_gone_def a ds1)
    moreover have "q = p \<and> \<not> referenced q s'" if "q \<in> set (destroyed s1)" "q \<notin> set (destroyed s)"
    proof -
      have q: "q = p" "\<not> referenced p (sh\<lparr>m_deqConnections := (m_deqConnections sh)[i := None]\<rparr>)"
        using that s1 h by (auto simp: dropped_ref_def same_rest_server_def split: if_splits)
      then have "\<not> referenced p s1" using s1 by (simp add: dropped_ref_def referenced_def)
      moreover have "same_refs s1 s'" using r by (simp add: loop_result_def)
      ultimately show ?thesis using q(1) referenced_less [of s1 s'] loop_result_deq [OF r] by blast
    qed
    ultimately show "q \<in> set (destroyed s) \<or> Some q \<in> set (drop i ?ds) \<and> \<not> alive (Some q) s \<and> \<not> referenced q s'"
      using i(3) d by auto
  qed
  then show ?thesis using r c sr i(3) by (simp add: loop_result_def ds1 t d a)
qed

context server_app
begin

lemma loop_ok:
  assumes "n = length (m_deqConnections s) - i" "i \<le> length (m_deqConnections s)"
    "distinct (drop i (m_deqConnections s))"
    "\<forall>cl \<in> set (drop i (m_deqConnections s)). \<exists>p c. cl = Some p \<and> conns s p = Some c"
  shows "\<exists>s'. message_all_loop h m ignore i n b s
      = Inr (b \<or> (\<exists>cl \<in> set (drop i (m_deqConnections s)). \<not> alive cl s), s') \<and> loop_result m ignore i s s'"
  using assms
proof (induction n arbitrary: i b s)
  case 0
  then show ?case by (auto simp: loop_result_def sends_all_def same_refs_def loop_gone_def)
next
  case (Suc n)
  let ?ds = "m_deqConnections s"
  have i: "i < length ?ds" using Suc.prems(1) by simp
  then have d: "drop i ?ds = ?ds ! i # drop (Suc i) ?ds" by (metis Cons_nth_drop_Suc)
  with Suc.prems(4) obtain p c where p: "?ds ! i = Some p" "conns s p = Some c" by auto
  have new: "Some p \<notin> set (drop (Suc i) ?ds)" using Suc.prems(3) d p by simp
  show ?case
  proof (cases "alive (Some p) s")
    case True
    let ?s1 = "if Some p \<noteq> ignore then upd_conn p (conn_Send m) s else s"
    have s1: "m_deqConnections ?s1 = ?ds" "alive cl ?s1 = alive cl s" for cl by simp_all
    have "\<exists>s'. message_all_loop h m ignore (Suc i) n b ?s1
        = Inr (b \<or> (\<exists>cl \<in> set (drop (Suc i) (m_deqConnections ?s1)). \<not> alive cl ?s1), s')
        \<and> loop_result m ignore (Suc i) ?s1 s'"
    proof (rule Suc.IH)
      show "\<forall>cl \<in> set (drop (Suc i) (m_deqConnections ?s1)). \<exists>p c. cl = Some p \<and> conns ?s1 p = Some c"
        using Suc.prems(4) d by (fastforce split: if_splits)
    qed (use Suc.prems i d in auto)
    then obtain s' where "message_all_loop h m ignore (Suc i) n b ?s1
        = Inr (b \<or> (\<exists>cl \<in> set (drop (Suc i) ?ds). \<not> alive cl s), s')" "loop_result m ignore (Suc i) ?s1 s'"
      unfolding s1 by blast
    then show ?thesis using loop_result_send [OF i p(1) True new refl] True p d
      by (auto simp: send_to_def Let_def split: if_splits)
  next
    case False
    obtain sh where sh: "OnClientDisconnect h (Some p) s = Inr sh" "same_rest_server s sh" "conns sh = conns s"
      using on_disconnect [OF p(2)] by blast
    let ?s1 = "dropped_ref (Some p) (sh\<lparr>m_deqConnections := (m_deqConnections sh)[i := None]\<rparr>)"
    have ds: "m_deqConnections sh = ?ds" using sh(2) by (simp add: same_rest_server_def)
    have al: "alive cl ?s1 = alive cl s" for cl using sh(3) by (intro alive_cong) simp
    have "\<exists>s'. message_all_loop h m ignore (Suc i) n True ?s1
        = Inr (True \<or> (\<exists>cl \<in> set (drop (Suc i) (m_deqConnections ?s1)). \<not> alive cl ?s1), s')
        \<and> loop_result m ignore (Suc i) ?s1 s'"
      by (rule Suc.IH) (use Suc.prems i d ds sh(3) in auto)
    then obtain s' where "message_all_loop h m ignore (Suc i) n True ?s1 = Inr (True, s')"
      "loop_result m ignore (Suc i) ?s1 s'" by auto
    then show ?thesis using loop_result_drop [OF i p(1) False sh(2,3) refl] False p d sh(1) ds by (auto simp: Let_def)
  qed
qed

lemma message_all_ok:
  assumes inv: "server_inv s"
  shows "\<exists>s'. MessageAllClients h m ignore s = Inr s' \<and> server_inv s'
     \<and> m_deqConnections s' = filter (\<lambda>cl. alive cl s) (m_deqConnections s)
     \<and> conns s' = sends_all m ignore (m_deqConnections s) s
     \<and> server_qMessagesIn s' = server_qMessagesIn s \<and> held s' = held s"
proof -
  let ?ds = "m_deqConnections s"
  have ex: "\<forall>cl \<in> set ?ds. \<exists>p c. cl = Some p \<and> conns s p = Some c"
  proof
    fix cl assume cl: "cl \<in> set ?ds"
    with inv obtain p where "cl = Some p" by (cases cl) (auto simp: server_inv_def refs_ok_def)
    then show "\<exists>p c. cl = Some p \<and> conns s p = Some c" using inv cl
      by (auto simp: server_inv_def refs_ok_def referenced_def)
  qed
  obtain b s1 where s1: "message_all_loop h m ignore 0 (length ?ds) False s = Inr (b, s1)"
    "b \<longleftrightarrow> (\<exists>cl \<in> set ?ds. \<not> alive cl s)" "loop_result m ignore 0 s s1"
    using loop_ok [of "length ?ds" s 0 m ignore False] ex inv by (auto simp: server_inv_def refs_ok_def)
  let ?s' = "s1\<lparr>m_deqConnections := filter (\<lambda>cl. alive cl s) ?ds\<rparr>"
  have ds1: "m_deqConnections s1 = map (\<lambda>cl. if alive cl s then cl else None) ?ds"
    "conns s1 = sends_all m ignore ?ds s" "same_refs s s1" "loop_gone ?ds s s1"
    using s1(3) by (simp_all add: loop_result_def)
  have flt: "removeAll None (map (\<lambda>cl. if alive cl s then cl else None) ds) = filter (\<lambda>cl. alive cl s) ds" for ds
    by (induction ds) (auto simp: alive_def)
  have all: "b \<or> map (\<lambda>cl. if alive cl s then cl else None) ?ds = filter (\<lambda>cl. alive cl s) ?ds"
    using s1(2) by (auto simp: map_idI)
  have ref: "referenced p ?s' \<Longrightarrow> referenced p s" for p
    using ds1(3) by (auto simp: referenced_def same_refs_def)
  have ref1: "referenced p ?s' \<Longrightarrow> referenced p s1" for p
    by (auto simp: referenced_def ds1(1) intro: rev_image_eqI)
  have ran: "\<exists>c0. conns s p = Some c0 \<and> (c = c0 \<or> c = conn_Send m c0)" if "conns s1 p = Some c" for p c
    using that by (auto simp: ds1(2) sends_all_def split: if_splits)
  have "heap_ok ?s'" using inv ran ds1(3) by (fastforce simp: server_inv_def heap_ok_def same_refs_def)
  moreover have "refs_ok ?s'" using inv ref ds1(2,3)
    by (auto simp: server_inv_def refs_ok_def same_refs_def sends_all_def)
  moreover have "gone_ok ?s'"
    unfolding gone_ok_def
  proof
    fix p assume "p \<in> set (destroyed ?s')"
    with ds1(4) have "p \<in> set (destroyed s) \<or> Some p \<in> set ?ds \<and> \<not> referenced p s1"
      by (auto simp: loop_gone_def)
    moreover have "p < next_ptr s" if "Some p \<in> set ?ds"
      using ex that inv by (fastforce simp: server_inv_def heap_ok_def)
    ultimately show "\<not> referenced p ?s' \<and> p < next_ptr ?s'"
      using inv ref ref1 ds1(3) by (auto simp: server_inv_def gone_ok_def same_refs_def)
  qed
  ultimately have "server_inv ?s'" by (simp add: server_inv_def)
  moreover have "MessageAllClients h m ignore s = Inr ?s'"
    using s1(1) all ds1(1) flt by (auto simp: MessageAllClients_def)
  ultimately show ?thesis using ds1 by (simp add: same_refs_def)
qed

lemma message_client_ok:
  assumes inv: "server_inv s" and p: "referenced p s"
  shows "\<exists>s'. MessageClient h (Some p) m s = Inr s' \<and> server_inv s'
     \<and> m_deqConnections s' = m_deqConnections s
     \<and> conns s' = (if alive (Some p) s then conns (upd_conn p (conn_Send m) s) else conns s)
     \<and> server_qMessagesIn s' = server_qMessagesIn s \<and> held s' = held s"
proof (cases "alive (Some p) s")
  case True
  then show ?thesis using server_inv_upd_conn [OF inv, of p "conn_Send m"]
    by (simp add: MessageClient_def send_to_def)
next
  case False
  obtain c where "conns s p = Some c" using inv p by (auto simp: server_inv_def refs_ok_def)
  then obtain sh where sh: "OnClientDisconnect h (Some p) s = Inr sh" "same_rest_server s sh" "conns sh = conns s"
    using on_disconnect by blast
  have "None \<notin> set (m_deqConnections s)" using inv by (simp add: server_inv_def refs_ok_def)
  then have rm: "removeAll None (m_deqConnections sh) = m_deqConnections s" using sh(2)
    by (simp add: same_rest_server_def)
  let ?s' = "sh\<lparr>m_deqConnections := m_deqConnections s\<rparr>"
  have "server_inv ?s'" by (rule server_inv_fields [OF inv]) (use sh in \<open>simp_all add: same_rest_server_def\<close>)
  then show ?thesis using False sh rm by (simp add: MessageClient_def same_rest_server_def)
qed

end

section \<open>Update\<close>

text \<open>The reference definition of \<open>Update\<close>: the messages at the front of the queue, one by one.\<close>

definition handle_msg ::
  "'a server_hooks \<Rightarrow> owned_message \<Rightarrow> 'a server_interface_scheme \<Rightarrow> 'a server_interface_scheme result" where
  "handle_msg h om s =
     (let l = (case remote om of None \<Rightarrow> [] | Some p \<Rightarrow> [p]);
          s = s\<lparr>server_qMessagesIn := \<lparr>deqQueue = tl (deqQueue (server_qMessagesIn s))\<rparr>, held := l @ held s\<rparr>
      in rbind (OnMessage h (remote om) (msg om) s) (\<lambda>s.
           Inr (dropped_ref (remote om) (s\<lparr>held := drop (length l) (held s)\<rparr>))))"

lemma Update_loop_step:
  "Update_loop h n i s =
     (case deqQueue (server_qMessagesIn s) of
        [] \<Rightarrow> Inr s
      | om # _ \<Rightarrow> if i < n then rbind (handle_msg h om s) (Update_loop h n (i + 1)) else Inr s)"
proof (cases "server_qMessagesIn s")
  case (fields q)
  show ?thesis
  proof (cases q)
    case Nil
    then show ?thesis using fields by (subst Update_loop.simps) (simp add: empty_def)
  next
    case (Cons om oms)
    have a: "rbind (rbind r f) g = rbind r (\<lambda>x. rbind (f x) g)" for r :: "'x result" and f g
      by (cases r) simp_all
    show ?thesis using fields Cons
      by (subst Update_loop.simps) (simp add: empty_def pop_front_def handle_msg_def Let_def a)
  qed
qed

context server_app
begin

lemma server_inv_take:
  assumes inv: "server_inv s" and q: "deqQueue (server_qMessagesIn s) = om # oms" and p: "remote om = Some p"
  shows "server_inv (s\<lparr>server_qMessagesIn := \<lparr>deqQueue = oms\<rparr>, held := p # held s\<rparr>)"
proof -
  let ?s = "s\<lparr>server_qMessagesIn := \<lparr>deqQueue = oms\<rparr>, held := p # held s\<rparr>"
  have rp: "referenced p s" using q p by (auto simp: referenced_def intro: rev_image_eqI)
  have r: "referenced x ?s \<Longrightarrow> referenced x s" for x using rp q by (auto simp: referenced_def)
  then show ?thesis using inv q by (auto simp: server_inv_defs)
qed

lemma handle_msg_ok:
  assumes inv: "server_inv s" and q: "deqQueue (server_qMessagesIn s) = om # oms"
  shows "\<exists>s'. handle_msg h om s = Inr s' \<and> server_inv s' \<and> deqQueue (server_qMessagesIn s') = oms \<and> held s' = held s"
proof -
  have "remote om \<noteq> None" using inv q by (auto simp: server_inv_def refs_ok_def)
  then obtain p where p: "remote om = Some p" by blast
  let ?s = "s\<lparr>server_qMessagesIn := \<lparr>deqQueue = oms\<rparr>, held := p # held s\<rparr>"
  have "server_inv ?s" by (rule server_inv_take [OF inv q p])
  then obtain s1 where s1: "OnMessage h (Some p) (msg om) ?s = Inr s1" "server_inv s1"
    "server_qMessagesIn s1 = \<lparr>deqQueue = oms\<rparr>" "held s1 = p # held s"
    using on_message [of ?s p "msg om"] by auto
  let ?s2 = "s1\<lparr>held := held s\<rparr>"
  have "p < next_ptr s1" using referenced_alive [OF s1(2), of p] s1(4) by (simp add: referenced_def)
  moreover have "server_inv ?s2" using server_inv_fields [OF s1(2), of ?s2] s1(4) by auto
  ultimately have "server_inv (dropped_ref (Some p) ?s2)" using server_inv_dropped_ref [of ?s2 "Some p"] by simp
  then show ?thesis using s1 p q by (simp add: handle_msg_def)
qed

text \<open>\<open>Update\<close> handles the messages at the front of the queue, in order, and at most \<open>nMaxMessages\<close>.\<close>

lemma update_loop_ok:
  assumes "server_inv s"
  shows "\<exists>s'. Update_loop h n i s = Inr s' \<and> server_inv s' \<and> held s' = held s
     \<and> Update_loop h n i s = run_events (handle_msg h) (take (unat n - unat i) (deqQueue (server_qMessagesIn s))) s
     \<and> deqQueue (server_qMessagesIn s') = drop (unat n - unat i) (deqQueue (server_qMessagesIn s))"
  using assms
proof (induction "unat n - unat i" arbitrary: i s)
  case 0
  then have "\<not> i < n" by (simp add: word_less_nat_alt)
  then have "Update_loop h n i s = Inr s" by (subst Update_loop_step) (simp split: list.split)
  then show ?case using 0 by simp
next
  case (Suc k)
  then have lt: "i < n" by (simp add: word_less_nat_alt)
  have k: "k = unat n - unat (i + 1)"
  proof -
    have "i + 1 \<noteq> 0" using lt by (metis add.commute add_eq_0_iff word_n1_ge leD)
    then show ?thesis using Suc.hyps(2) by (simp add: unatSuc add.commute)
  qed
  show ?case
  proof (cases "deqQueue (server_qMessagesIn s)")
    case Nil
    then have "Update_loop h n i s = Inr s" by (subst Update_loop_step) simp
    then show ?thesis using Nil Suc.prems by simp
  next
    case (Cons om oms)
    from handle_msg_ok [OF Suc.prems Cons] obtain s1
      where s1: "handle_msg h om s = Inr s1" "server_inv s1" "deqQueue (server_qMessagesIn s1) = oms" "held s1 = held s"
      by blast
    have "Update_loop h n i s = Update_loop h n (i + 1) s1" using Cons lt s1(1) by (subst Update_loop_step) simp
    with Suc.hyps(1) [OF k s1(2)] s1 Cons Suc.hyps(2) k show ?thesis
      by (cases "unat n - unat i") auto
  qed
qed

text \<open>Every call keeps the invariant, or ends in one of the three ways in which a server can fail.\<close>

lemma server_context_ok:
  assumes inv: "server_inv s"
  shows "outcome {Terminated, UseAfterFree, Blocked} server_inv (server_context h e s)"
proof (cases e)
  case (SrvAccept ec hp now)
  have "server_inv (s\<lparr>accepts := accepts s - 1\<rparr>)" by (rule server_inv_fields [OF inv]) simp_all
  from accept_ok [OF this, of ec hp now] SrvAccept inv show ?thesis by auto
next
  case (SrvIo p e)
  with server_io_ok [OF inv, of p e] show ?thesis by auto
qed

lemma server_update_ok:
  assumes inv: "server_inv s"
  shows "outcome {Terminated, UseAfterFree, Blocked} server_inv
    (server_Update h (run_events (server_context h) es) n w s)"
proof -
  have loop: "outcome {Terminated, UseAfterFree, Blocked} server_inv (Update_loop h n 0 s1)" if "server_inv s1" for s1
    using update_loop_ok [OF that, of n 0] by auto
  have ctx: "outcome {Terminated, UseAfterFree, Blocked} server_inv (run_events (server_context h) es s)"
    by (rule run_events_outcome [OF server_context_ok inv])
  then have wait: "outcome {Terminated, UseAfterFree, Blocked} server_inv
    (rbind (run_events (server_context h) es s)
      (\<lambda>s. if empty (server_qMessagesIn s) then Inl Blocked else Inr s))"
    by (rule outcome_rbind) simp
  show ?thesis
    unfolding server_Update_def
  proof (rule outcome_rbind [OF _ loop])
    show "outcome {Terminated, UseAfterFree, Blocked} server_inv
      (if w \<and> empty (server_qMessagesIn s)
       then rbind (run_events (server_context h) es s)
              (\<lambda>s. if empty (server_qMessagesIn s) then Inl Blocked else Inr s)
       else Inr s)"
      using wait inv by simp
  qed
qed

lemma server_exec_ok:
  assumes inv: "server_inv s"
  shows "outcome {Terminated, UseAfterFree, Blocked} server_inv (server_exec h e s)"
proof (cases e)
  case (SvStart t)
  have "server_inv (s\<lparr>accepts := Suc (accepts s), m_threadContext := True\<rparr>)"
    "server_inv (s\<lparr>accepts := Suc (accepts s)\<rparr>)"
    by (rule server_inv_fields [OF inv]; simp)+
  then show ?thesis using SvStart by (simp add: server_Start_def Let_def WaitForClientConnection_def)
next
  case SvStop
  have "server_inv (server_Stop s)" by (rule server_inv_fields [OF inv]) (simp_all add: server_Stop_def Let_def)
  then show ?thesis using SvStop by simp
next
  case (SvUpdate n w es)
  with server_update_ok [OF inv] show ?thesis by simp
next
  case (SvMessageClient p m)
  with message_client_ok [OF inv, of p m] inv show ?thesis by auto
next
  case (SvMessageAll m ignore)
  with message_all_ok [OF inv, of m ignore] show ?thesis by auto
next
  case (SvContext e)
  with server_context_ok [OF inv, of e] show ?thesis by simp
qed

lemma server_run_ok:
  "server_inv s \<Longrightarrow> outcome {Terminated, UseAfterFree, Blocked} server_inv (server_run h es s)"
  by (rule run_events_outcome [OF server_exec_ok])

end

interpretation base_app: server_app "base_hooks :: 'a server_hooks"
proof unfold_locales
  fix s :: "'a server_interface_scheme" and p :: nat and c and m
  have refl: "same_rest_server s s" by (simp add: same_rest_server_def)
  have nil: "posts p [] s s" by (rule posts_Nil) (simp_all add: refl)
  show "\<exists>ok ms s'. OnClientConnect base_hooks p s = Inr (ok, s') \<and> posts p ms s s'"
    using nil by (auto simp: base_hooks_def)
  show "\<exists>s'. OnClientDisconnect base_hooks (Some p) s = Inr s' \<and> same_rest_server s s' \<and> conns s' = conns s"
    using refl by (simp add: base_hooks_def)
  show "\<exists>ms s'. OnClientValidated base_hooks p s = Inr s' \<and> posts p ms s s'"
    using nil by (auto simp: base_hooks_def)
  assume "server_inv s"
  then show "\<exists>s'. OnMessage base_hooks (Some p) m s = Inr s' \<and> server_inv s'
        \<and> server_qMessagesIn s' = server_qMessagesIn s \<and> held s' = held s"
    by (simp add: base_hooks_def)
qed

end
