(* ===== verification/NetLink.thy ===== *)
theory NetLink
  imports NetConversation NetClient NetServer
begin

text \<open>
  One end of a connection between a client and a server of \<open>net_client.hpp\<close> and \<open>net_server.hpp\<close>: the
  connection object, which appends to a queue that its owner shares with other connections and that
  another thread empties, seen apart from that queue.
\<close>

section \<open>The queue behind a connection\<close>

text \<open>A connection only appends to the queue it refers to, so its steps do not depend on what is there:
  the same connection with \<open>q\<close> in front of its queue makes the same steps.\<close>

definition pre :: "owned_message list \<Rightarrow> connection \<Rightarrow> connection" where
  "pre q c = c\<lparr>m_qMessagesIn := \<lparr>deqQueue = q @ deqQueue (m_qMessagesIn c)\<rparr>\<rparr>"

lemma pre_fields [simp]:
  "this_ptr (pre q c) = this_ptr c" "m_socket (pre q c) = m_socket c" "m_qMessagesOut (pre q c) = m_qMessagesOut c"
  "deqQueue (m_qMessagesIn (pre q c)) = q @ deqQueue (m_qMessagesIn c)"
  "m_msgTemporaryIn (pre q c) = m_msgTemporaryIn c" "m_nOwnerType (pre q c) = m_nOwnerType c"
  "conn_id (pre q c) = conn_id c" "m_nHandshakeOut (pre q c) = m_nHandshakeOut c"
  "m_nHandshakeIn (pre q c) = m_nHandshakeIn c" "m_nHandshakeCheck (pre q c) = m_nHandshakeCheck c"
  "tasks (pre q c) = tasks c" "pending (pre q c) = pending c"
  by (simp_all add: pre_def)

lemma pre_updates [simp]:
  "(pre q c)\<lparr>pending := ops\<rparr> = pre q (c\<lparr>pending := ops\<rparr>)" "(pre q c)\<lparr>tasks := ts\<rparr> = pre q (c\<lparr>tasks := ts\<rparr>)"
  "(pre q c)\<lparr>m_socket := sk\<rparr> = pre q (c\<lparr>m_socket := sk\<rparr>)"
  "(pre q c)\<lparr>m_msgTemporaryIn := m\<rparr> = pre q (c\<lparr>m_msgTemporaryIn := m\<rparr>)"
  "(pre q c)\<lparr>m_qMessagesOut := qo\<rparr> = pre q (c\<lparr>m_qMessagesOut := qo\<rparr>)"
  "(pre q c)\<lparr>m_nHandshakeIn := w\<rparr> = pre q (c\<lparr>m_nHandshakeIn := w\<rparr>)"
  "(pre q c)\<lparr>m_nHandshakeOut := w\<rparr> = pre q (c\<lparr>m_nHandshakeOut := w\<rparr>)"
  "(pre q c)\<lparr>m_qMessagesIn := push_back om (m_qMessagesIn (pre q c))\<rparr> = pre q (c\<lparr>m_qMessagesIn := push_back om (m_qMessagesIn c)\<rparr>)"
  by (simp_all add: pre_def push_back_def)

lemma pre_calls [simp]:
  "start_op op (pre q c) = pre q (start_op op c)" "post_task t (pre q c) = pre q (post_task t c)"
  "close_socket (pre q c) = pre q (close_socket c)" "sock_accept xs (pre q c) = pre q (sock_accept xs c)"
  "conn_Send m (pre q c) = pre q (conn_Send m c)" "conn_Disconnect (pre q c) = pre q (conn_Disconnect c)"
  "ReadHeader (pre q c) = pre q (ReadHeader c)" "ReadBody (pre q c) = pre q (ReadBody c)"
  "ReadValidation (pre q c) = pre q (ReadValidation c)" "WriteValidation (pre q c) = pre q (WriteValidation c)"
  "AddToIncomingMessageQueue (pre q c) = pre q (AddToIncomingMessageQueue c)"
  "store_header xs (pre q c) = pre q (store_header xs c)" "store_body xs (pre q c) = pre q (store_body xs c)"
  "store_validation xs (pre q c) = pre q (store_validation xs c)"
  by (simp_all add: start_defs call_defs store_defs AddToIncomingMessageQueue_def Let_def)

abbreviation pres :: "owned_message list \<Rightarrow> connection result \<Rightarrow> connection result" where
  "pres q r \<equiv> rbind r (\<lambda>c. Inr (pre q c))"

lemma pre_chain [simp]:
  "WriteHeader (pre q c) = pres q (WriteHeader c)" "WriteBody (pre q c) = pres q (WriteBody c)"
  "next_message (pre q c) = pres q (next_message c)" "run_send m (pre q c) = pres q (run_send m c)"
  by (auto simp: WriteHeader_def WriteBody_def next_message_def run_send_def rbind_def Let_def
      split: sum.splits)

lemma complete_pre: "complete op ec xs (pre q c) = pres q (complete op ec xs c)"
  by (cases op) (auto simp: WriteHeader_done_def WriteBody_done_def ReadHeader_done_def ReadBody_done_def
      ReadValidation_done_def WriteValidation_done_def Connect_done_def OnClientValidated_base_def Let_def rbind_def
      split: sum.splits)

lemma conn_exec_pre: "conn_exec e (pre q c) = pres q (conn_exec e c)"
proof (cases e)
  case RunTask
  show ?thesis
  proof (cases "tasks c")
    case (Cons t ts)
    then show ?thesis using RunTask by (cases t) simp_all
  qed (use RunTask in simp)
qed (simp_all add: complete_pre)

text \<open>A connection on a queue of its own, which is what it has delivered so far.\<close>

definition with_queue :: "owned_message list \<Rightarrow> connection \<Rightarrow> connection" where
  "with_queue q c = c\<lparr>m_qMessagesIn := \<lparr>deqQueue = q\<rparr>\<rparr>"

lemma with_queue_pre: "with_queue q c = pre q (with_queue [] c)"
  by (simp add: with_queue_def pre_def)

lemma with_queue_fields [simp]:
  "this_ptr (with_queue q c) = this_ptr c" "m_socket (with_queue q c) = m_socket c"
  "deqQueue (m_qMessagesIn (with_queue q c)) = q" "m_nOwnerType (with_queue q c) = m_nOwnerType c"
  "tasks (with_queue q c) = tasks c" "pending (with_queue q c) = pending c" "outgoing (with_queue q c) = outgoing c"
  "own (with_queue q c) = own c" "conn_id (with_queue q c) = conn_id c" "with_queue q (with_queue q' c) = with_queue q c"
  "with_queue q (c\<lparr>m_qMessagesIn := q0\<rparr>) = with_queue q c"
  by (simp_all add: with_queue_def own_def fun_eq_iff outgoing_def del: deqQueue_outgoing)

lemma bytes_read_queue [simp]: "bytes_read e (with_queue q c) = bytes_read e c"
  by (cases e) simp_all

lemma with_queue_same: "m_qMessagesIn c = q \<Longrightarrow> with_queue (deqQueue q) c = c"
  by (cases c, cases q) (simp add: with_queue_def)

text \<open>What a step appends to the queue, whatever is there.\<close>

lemma exec_with_queue:
  assumes "conn_exec e (with_queue q c) = Inr c'"
  shows "\<exists>new. deqQueue (m_qMessagesIn c') = q @ new \<and> (\<forall>h. conn_exec e (with_queue h c) = Inr (with_queue (h @ new) c'))"
proof -
  have "conn_exec e (with_queue q c) = pres q (conn_exec e (with_queue [] c))"
    unfolding with_queue_pre [of q c] by (rule conn_exec_pre)
  with assms obtain c0 where c0: "conn_exec e (with_queue [] c) = Inr c0" "c' = pre q c0" by auto
  have "conn_exec e (with_queue h c) = Inr (pre h c0)" for h
    using c0(1) unfolding with_queue_pre [of h c] conn_exec_pre by simp
  moreover have "pre h c0 = with_queue (h @ deqQueue (m_qMessagesIn c0)) c'" for h
    unfolding c0(2) pre_def with_queue_def by simp
  ultimately have "conn_exec e (with_queue h c) = Inr (with_queue (h @ deqQueue (m_qMessagesIn c0)) c')" for h
    by metis
  moreover have "deqQueue (m_qMessagesIn c') = q @ deqQueue (m_qMessagesIn c0)" by (simp add: c0(2))
  ultimately show ?thesis by blast
qed

lemma exec_owner: "conn_exec e c = Inr c' \<Longrightarrow> m_nOwnerType c' = m_nOwnerType c \<and> this_ptr c' = this_ptr c \<and> own c' = own c"
  using conn_exec_frame [of e c c'] by (auto simp: conn_frame_def own_def fun_eq_iff)

lemma complete_id: "complete op ec xs c = Inr c' \<Longrightarrow> conn_id c' = conn_id c"
  by (cases op) (auto simp: read_done_defs write_done_defs start_defs store_defs Let_def split: if_splits)

lemma exec_id: "conn_exec e c = Inr c' \<Longrightarrow> conn_id c' = conn_id c"
proof (cases e)
  case RunTask
  assume ex: "conn_exec e c = Inr c'"
  show ?thesis
  proof (cases "tasks c")
    case (Cons t ts)
    then show ?thesis using ex RunTask
      by (cases t) (auto simp: write_done_defs start_defs Let_def split: if_splits)
  qed (use ex RunTask in simp)
qed (auto simp: call_defs start_defs dest: complete_id split: if_splits)

section \<open>One end of a link\<close>

text \<open>An end of a link: \<open>ms\<close> are the messages sent to it, of which it has delivered the list \<open>h\<close> and read
  \<open>n\<close> bytes, and \<open>out\<close> the messages it has been given to send, after it had written \<open>base\<close>.\<close>

definition link_end :: "u8 list \<Rightarrow> message list \<Rightarrow> message list \<Rightarrow> nat \<Rightarrow> owned_message list \<Rightarrow> connection \<Rightarrow> bool" where
  "link_end base out ms n h c \<longleftrightarrow> side_inv base [] out ms n (with_queue h c)"

lemma link_end_sized: "link_end base out ms n h c \<Longrightarrow> \<forall>m \<in> set out. well_sized m"
  by (simp add: link_end_def side_inv_def)

lemma link_end_pump:
  assumes "link_end base out ms n h c"
  shows "pump_inv (with_queue q c)"
proof -
  have "with_queue q c = (with_queue h c)\<lparr>m_qMessagesIn := \<lparr>deqQueue = q\<rparr>\<rparr>" by (simp add: with_queue_def)
  then show ?thesis using assms by (simp add: link_end_def side_inv_def Stream_def)
qed

lemma link_end_heard:
  assumes "link_end base out ms n h c"
  obtains k where "k \<le> length ms" "h = map (own c) (received [] (take k ms))"
    "AsyncReadHeader \<in> set (pending c) \<Longrightarrow> before_frame (map msg_frame ms) n k"
proof -
  have "reads ms n [] (with_queue h c)" using assms by (simp add: link_end_def side_inv_def)
  then obtain k where k: "k \<le> length ms" "h = map (own c) (received [] (take k ms))"
    "other_ops (with_queue h c) = [] \<or> other_ops (with_queue h c) = [AsyncReadHeader]
       \<and> before_frame (map msg_frame ms) n k \<or> (\<exists>l. other_ops (with_queue h c) = [AsyncReadBody l])"
    unfolding reads_def by auto
  have "before_frame (map msg_frame ms) n k" if "AsyncReadHeader \<in> set (pending c)"
  proof -
    have "AsyncReadHeader \<in> set (other_ops (with_queue h c))" using that by (simp add: other_ops_def)
    then show ?thesis using k(3) by auto
  qed
  then show thesis using that k(1,2) by blast
qed

lemma link_end_no_handshake: "link_end base out ms n h c \<Longrightarrow> AsyncReadValidation \<notin> set (pending c)"
proof
  assume l: "link_end base out ms n h c" and p: "AsyncReadValidation \<in> set (pending c)"
  have "reads ms n [] (with_queue h c)" using l by (simp add: link_end_def side_inv_def)
  from reads_only [OF this, of AsyncReadValidation] p show False by simp
qed

text \<open>A step of an end on whatever queue it refers to.\<close>

lemma link_end_exec:
  assumes l: "link_end base out ms n h c" and sz: "\<forall>m \<in> set ms. well_sized m" "\<forall>m \<in> set (sends_of e). well_sized m"
    and av: "prefix av (frames ms)" "read_ok e (drop n av)" and ex: "conn_exec e (with_queue q c) = Inr c'"
  obtains oms where "deqQueue (m_qMessagesIn c') = q @ oms" "\<forall>om \<in> set oms. \<exists>m. om = own c m"
    "link_end base (out @ sends_of e) ms (n + length (bytes_read e c)) (h @ oms) c'"
proof -
  from exec_with_queue [OF ex] obtain oms where o: "deqQueue (m_qMessagesIn c') = q @ oms"
    "conn_exec e (with_queue h c) = Inr (with_queue (h @ oms) c')" by blast
  have inv: "side_inv base [] out ms n (with_queue h c)" using l by (simp add: link_end_def)
  then have "reads ms n [] (with_queue h c)" by (simp add: side_inv_def)
  from reads_bytes [OF av(2) this] have br: "prefix (bytes_read e (with_queue h c)) (drop n av)" .
  from side_inv_exec [OF inv sz(1) av(1) br sz(2) o(2)]
  have l': "link_end base (out @ sends_of e) ms (n + length (bytes_read e c)) (h @ oms) c'" by (simp add: link_end_def)
  from link_end_heard [OF l'] obtain k where "h @ oms = map (own c') (received [] (take k ms))" by blast
  then have "set oms \<subseteq> range (own c')" by (metis append_eq_map_conv image_subset_iff list.set_map rangeI)
  moreover have "own c' = own c" using exec_owner [OF o(2)] by simp
  ultimately have "\<forall>om \<in> set oms. \<exists>m. om = own c m" by auto
  with that o(1) l' show thesis by blast
qed

lemma link_end_more: "link_end base out ms n h c \<Longrightarrow> link_end base out (ms @ ms') n h c"
  using side_inv_append [of base "[]" out ms n "with_queue h c" ms'] by (simp add: link_end_def)

lemma link_end_prefix:
  "link_end base out ms n h c \<Longrightarrow> prefix (drop (length base) (sent (m_socket c))) (frames out)"
  using written_prefix [of "with_queue h c" base] by (simp add: link_end_def side_inv_def)

lemma link_end_call:
  assumes l: "link_end base out ms n h c" and sz: "\<forall>m \<in> set ms. well_sized m" "\<forall>m \<in> set (sends_of e). well_sized m"
    and e: "conn_exec e c = Inr c'" "m_qMessagesIn c' = m_qMessagesIn c" "\<not> is_handler e"
  shows "link_end base (out @ sends_of e) ms n h c'"
proof -
  have r: "read_ok e (drop n [])" "bytes_read e c = []" using e(3) by (cases e; simp)+
  have ex: "conn_exec e (with_queue (deqQueue (m_qMessagesIn c)) c) = Inr c'" using e(1) by (simp add: with_queue_same [OF refl])
  obtain oms where "deqQueue (m_qMessagesIn c') = deqQueue (m_qMessagesIn c) @ oms"
    "link_end base (out @ sends_of e) ms (n + length (bytes_read e c)) (h @ oms) c'"
    using link_end_exec [OF l sz _ r(1) ex] by (metis Nil_prefix)
  then show ?thesis using e(2) r(2) by simp
qed

lemma link_end_send:
  assumes "link_end base out ms n h c" "\<forall>m \<in> set ms. well_sized m" "well_sized m"
  shows "link_end base (out @ [m]) ms n h (conn_Send m c)"
  using link_end_call [OF assms(1,2), of "CallSend m"] assms(3) by (simp add: sends_of_def conn_Send_def post_task_def)

lemma link_end_disconnect:
  assumes "link_end base out ms n h c" "\<forall>m \<in> set ms. well_sized m"
  shows "link_end base out ms n h (conn_Disconnect c)"
  using link_end_call [OF assms, of CallDisconnect] by (simp add: sends_of_def conn_Disconnect_def post_task_def)

lemma link_end_start: "open_conn c \<Longrightarrow> link_end (sent (m_socket c)) [] [] 0 [] c"
  using open_conn_inv [of "with_queue [] c"] by (simp add: link_end_def open_conn_def) (simp add: with_queue_def)

text \<open>The other end has nothing left to write, and this end has read everything.\<close>

lemma link_end_all:
  assumes l: "link_end base out ms n h c" and d: "link_end base' ms out' n' h' d"
    and idle: "outgoing d = []" "tasks d = []" "AsyncReadHeader \<in> set (pending c)"
    and len: "length (sent (m_socket d)) \<le> length base' + n"
  shows "h = map (own c) (received [] ms)"
proof -
  from link_end_heard [OF l] obtain k where k: "k \<le> length ms" "h = map (own c) (received [] (take k ms))"
    "AsyncReadHeader \<in> set (pending c) \<Longrightarrow> before_frame (map msg_frame ms) n k" by blast
  have "Stream (with_queue h' d) (base' @ frames ms)" using d by (simp add: link_end_def side_inv_def)
  from all_read [OF this link_end_sized [OF d] _ _ _ k(3) [OF idle(3)]] idle len
  have "take k ms = ms" by simp
  then show ?thesis using k(2) by simp
qed

lemma handler_sends: "is_handler e \<Longrightarrow> sends_of e = []"
  by (cases e) (simp_all add: sends_of_def)

lemma not_enabled_reads: "\<not> enabled e c \<Longrightarrow> is_handler e \<Longrightarrow> bytes_read e c = []"
  by (cases e) auto

section \<open>The ends inside a server and a client\<close>

context server_app
begin

lemma server_io_link:
  assumes inv: "server_inv sv" "p \<notin> set (destroyed sv)" and c: "conns sv p = Some c"
    and run: "server_running sv" "is_handler e" and l: "link_end base out ms k q c"
    and sz: "\<forall>m \<in> set ms. well_sized m" and av: "prefix av (frames ms)" "read_ok e (drop k av)"
  obtains sv' c' oms where "server_io h p e sv = Inr sv'" "server_inv sv'" "conns sv' = (conns sv)(p \<mapsto> c')"
    "m_deqConnections sv' = m_deqConnections sv" "held sv' = held sv" "destroyed sv' = destroyed sv"
    "deqQueue (server_qMessagesIn sv') = deqQueue (server_qMessagesIn sv) @ oms"
    "\<forall>om \<in> set oms. remote om = Some p" "link_end base out ms (k + length (bytes_read e c)) (q @ oms) c'"
    "own c' = own c" "conn_id c' = conn_id c"
proof (cases "enabled e c")
  case False
  then have "server_io h p e sv = Inr sv" using c by (simp add: server_io_def)
  then show thesis using that [of sv c "[]"] inv c l not_enabled_reads [OF False run(2)] by (simp add: fun_upd_idem)
next
  case True
  have own: "m_nOwnerType c = OwnerServer" "this_ptr c = p" "pump_inv c"
    using inv(1) c by (auto simp: server_inv_defs conn_ok_def)
  have "\<not> validated_now e c"
  proof
    assume "validated_now e c"
    then obtain xs where "e = Complete AsyncReadValidation False xs"
      by (auto simp: validated_now_def split: io_event.splits async_op.splits bool.splits)
    then show False using True link_end_no_handshake [OF l] by simp
  qed
  then have io: "server_io h p e sv = rbind (conn_exec e (load_conn sv c)) (\<lambda>c'. Inr (store_conn p sv c'))"
    using True c run inv(2) by (simp add: server_io_def)
  have load: "load_conn sv c = with_queue (deqQueue (server_qMessagesIn sv)) c"
    by (simp add: load_conn_def with_queue_def)
  obtain c' where c': "conn_exec e (load_conn sv c) = Inr c'" "pump_inv c'"
    using pump_inv_exec [OF link_end_pump [OF l]] unfolding load by blast
  have sv': "server_inv (store_conn p sv c')"
    by (rule server_inv_store [OF inv(1) c inv(2) conn_exec_frame [OF c'(1)] c'(2)])
  have sends: "sends_of e = []" using run(2) by (rule handler_sends)
  from link_end_exec [OF l sz _ av c'(1) [unfolded load]] sends obtain oms where o:
    "deqQueue (m_qMessagesIn c') = deqQueue (server_qMessagesIn sv) @ oms" "\<forall>om \<in> set oms. \<exists>m. om = own c m"
    "link_end base out ms (k + length (bytes_read e c)) (q @ oms) c'" by auto
  have "\<forall>om \<in> set oms. remote om = Some p" using o(2) own by (auto simp: own_def)
  moreover have "own c' = own c" "conn_id c' = conn_id c"
    using exec_owner [OF c'(1)] exec_id [OF c'(1)] unfolding load by simp_all
  ultimately show thesis using that io c'(1) o(1,3) sv' by (simp add: store_conn_def del: conn_exec.simps)
qed

end

end
