(* ===== verification/SimpleServer.thy ===== *)
theory SimpleServer
  imports NetServer
begin

text \<open>
  \<open>src/src/network/NetServer/SimpleServer.cpp\<close>: the message types of the example application and
  the server derived from the interface, which greets every client, bounces pings back and
  relays a greeting to all other clients. Console output is left out.
\<close>

section \<open>Message types\<close>

datatype CustomMsgTypes = ServerAccept | ServerDeny | ServerPing | MessageAll | ServerMessage

primrec type_id :: "CustomMsgTypes \<Rightarrow> u32" where
  "type_id ServerAccept = 0"
| "type_id ServerDeny = 1"
| "type_id ServerPing = 2"
| "type_id MessageAll = 3"
| "type_id ServerMessage = 4"

text \<open>An id off the wire need not be one of the enumerators; \<open>switch\<close> then takes no case.\<close>

definition msg_type :: "message \<Rightarrow> CustomMsgTypes option" where
  "msg_type m = (let i = header_id (header m)
     in if i = 0 then Some ServerAccept else if i = 1 then Some ServerDeny
        else if i = 2 then Some ServerPing else if i = 3 then Some MessageAll
        else if i = 4 then Some ServerMessage else None)"

definition typed_message :: "CustomMsgTypes \<Rightarrow> message" where
  "typed_message t = default_message\<lparr>header := default_header\<lparr>header_id := type_id t\<rparr>\<rparr>"

lemma msg_type_typed [simp]:
  "msg_type (typed_message t) = Some t"
  "msg_type (op_push d m) = msg_type m"
  by (cases t) (simp_all add: msg_type_def typed_message_def)

section \<open>The server\<close>

definition custom_OnClientConnect ::
  "nat \<Rightarrow> 'a server_interface_scheme \<Rightarrow> (bool \<times> 'a server_interface_scheme) result" where
  "custom_OnClientConnect client s =
     rbind (send_to (Some client) (typed_message ServerAccept) s) (\<lambda>s. Inr (True, s))"

definition client_id :: "nat option \<Rightarrow> 'a server_interface_scheme \<Rightarrow> u32 result" where
  "client_id client s = (case client of None \<Rightarrow> Inl NullDeref
     | Some p \<Rightarrow> (case conns s p of None \<Rightarrow> Inl NullDeref | Some c \<Rightarrow> Inr (GetID c)))"

definition custom_OnClientDisconnect ::
  "nat option \<Rightarrow> 'a server_interface_scheme \<Rightarrow> 'a server_interface_scheme result" where
  "custom_OnClientDisconnect client s = rbind (client_id client s) (\<lambda>_. Inr s)"

text \<open>The hooks the broadcast inside \<open>OnMessage\<close> can call.\<close>

definition custom_base :: "'a server_hooks" where
  "custom_base = base_hooks\<lparr>OnClientConnect := custom_OnClientConnect,
                            OnClientDisconnect := custom_OnClientDisconnect\<rparr>"

definition custom_OnMessage ::
  "nat option \<Rightarrow> message \<Rightarrow> 'a server_interface_scheme \<Rightarrow> 'a server_interface_scheme result" where
  "custom_OnMessage client m s =
     (case msg_type m of
        Some ServerPing \<Rightarrow> rbind (client_id client s) (\<lambda>_. send_to client m s)
      | Some MessageAll \<Rightarrow> rbind (client_id client s) (\<lambda>i.
          MessageAllClients custom_base (op_push (u32_bytes i) (typed_message ServerMessage)) client s)
      | _ \<Rightarrow> Inr s)"

definition custom_hooks :: "'a server_hooks" where
  "custom_hooks = custom_base\<lparr>OnMessage := custom_OnMessage\<rparr>"

text \<open>\<open>main\<close>: start, then \<open>n\<close> rounds of \<open>Update(100, true)\<close>, with what the context thread does
  in each round's wait.\<close>

fun server_rounds ::
  "server_event list list \<Rightarrow> 'a server_interface_scheme \<Rightarrow> 'a server_interface_scheme result" where
  "server_rounds [] s = Inr s"
| "server_rounds (es # ess) s =
     rbind (server_Update custom_hooks (run_events (server_context custom_hooks) es) 100 True s) (server_rounds ess)"

definition server_main :: "server_event list list \<Rightarrow> server_interface result" where
  "server_main ess = rbind (server_Start True new_server) (\<lambda>(_, s). server_rounds ess s)"

section \<open>The hooks keep the contract\<close>

lemma same_rest_refl [simp]: "same_rest_server s s"
  by (simp add: same_rest_server_def)

lemma posts_send: "posts p [m] s (upd_conn p (conn_Send m) s)"
  by (simp add: posts_def same_rest_server_def upd_conn_def)

lemma message_all_hooks:
  "OnClientDisconnect h = OnClientDisconnect h' \<Longrightarrow> MessageAllClients h = MessageAllClients h'"
proof -
  assume h: "OnClientDisconnect h = OnClientDisconnect h'"
  have "message_all_loop h m ig i n b s = message_all_loop h' m ig i n b s" for m ig i n b s
  proof (induction n arbitrary: i b s)
    case (Suc n)
    have "message_all_loop h m ig (Suc i) n = message_all_loop h' m ig (Suc i) n"
      using Suc.IH by blast
    then show ?case unfolding message_all_loop.simps h by (simp only:)
  qed simp
  then show ?thesis by (simp add: MessageAllClients_def fun_eq_iff)
qed

interpretation custom_broadcast: server_app "custom_base :: 'a server_hooks"
proof unfold_locales
  fix s :: "'a server_interface_scheme" and p :: nat and c and m
  assume c: "conns s p = Some c"
  show "\<exists>ok ms s'. OnClientConnect custom_base p s = Inr (ok, s') \<and> posts p ms s s'"
    using posts_send [of p _ s] by (auto simp: custom_base_def custom_OnClientConnect_def send_to_def)
  show "\<exists>s'. OnClientDisconnect custom_base (Some p) s = Inr s' \<and> same_rest_server s s' \<and> conns s' = conns s"
    using c by (simp add: custom_base_def custom_OnClientDisconnect_def client_id_def)
  show "\<exists>ms s'. OnClientValidated custom_base p s = Inr s' \<and> posts p ms s s'"
    using posts_Nil [of s s p] by (auto simp: custom_base_def base_hooks_def)
next
  fix s :: "'a server_interface_scheme" and p :: nat and m
  assume "server_inv s"
  then show "\<exists>s'. OnMessage custom_base (Some p) m s = Inr s' \<and> server_inv s'
      \<and> server_qMessagesIn s' = server_qMessagesIn s \<and> held s' = held s"
    by (simp add: custom_base_def base_hooks_def)
qed

lemma custom_message_ok:
  assumes inv: "server_inv s" and p: "p \<in> set (held s)"
  shows "\<exists>s'. custom_OnMessage (Some p) m s = Inr s' \<and> server_inv s'
      \<and> server_qMessagesIn s' = server_qMessagesIn s \<and> held s' = held s"
proof -
  obtain c where c: "conns s p = Some c"
    using inv p by (auto simp: server_inv_def refs_ok_def referenced_def)
  have ping: "server_inv (upd_conn p (conn_Send m) s)" using server_inv_upd_conn [OF inv] by simp
  from custom_broadcast.message_all_ok [OF inv] obtain sa
    where "MessageAllClients custom_base (op_push (u32_bytes (GetID c)) (typed_message ServerMessage)) (Some p) s = Inr sa"
      "server_inv sa" "server_qMessagesIn sa = server_qMessagesIn s" "held sa = held s" by blast
  then show ?thesis using ping c inv
    by (auto simp: custom_OnMessage_def client_id_def send_to_def split: option.split CustomMsgTypes.split)
qed

interpretation custom_app: server_app "custom_hooks :: 'a server_hooks"
proof unfold_locales
  fix s :: "'a server_interface_scheme" and p :: nat and c and m
  assume c: "conns s p = Some c"
  show "\<exists>ok ms s'. OnClientConnect custom_hooks p s = Inr (ok, s') \<and> posts p ms s s'"
    using custom_broadcast.on_connect [OF c] by (simp add: custom_hooks_def)
  show "\<exists>s'. OnClientDisconnect custom_hooks (Some p) s = Inr s' \<and> same_rest_server s s' \<and> conns s' = conns s"
    using custom_broadcast.on_disconnect [OF c] by (simp add: custom_hooks_def)
  show "\<exists>ms s'. OnClientValidated custom_hooks p s = Inr s' \<and> posts p ms s s'"
    using custom_broadcast.on_validated [OF c] by (simp add: custom_hooks_def)
next
  fix s :: "'a server_interface_scheme" and p :: nat and m
  assume "server_inv s" "p \<in> set (held s)"
  then show "\<exists>s'. OnMessage custom_hooks (Some p) m s = Inr s' \<and> server_inv s'
      \<and> server_qMessagesIn s' = server_qMessagesIn s \<and> held s' = held s"
    using custom_message_ok by (simp add: custom_hooks_def)
qed


section \<open>A server with one client\<close>

text \<open>The state after \<open>Start\<close> and one accepted client, and after the greeting's write has started.\<close>

definition first_client :: connection where
  "first_client = conn_Send (typed_message ServerAccept) (accepting 0 new_tsqueue 7 10000)"

definition one_client :: server_interface where
  "one_client = new_server\<lparr>conns := [0 \<mapsto> first_client], m_deqConnections := [Some 0], nIDCounter := 10001,
     accepts := 1, m_threadContext := True, next_ptr := 1\<rparr>"

lemmas server_run_defs = server_Start_def new_server_def server_running_def WaitForClientConnection_def
  accept_done_def custom_hooks_def custom_base_def custom_OnClientConnect_def send_to_def upd_conn_def

lemma one_client_reached:
  "server_run custom_hooks [SvStart True, SvContext (SrvAccept False True 7)] new_server = Inr one_client"
  by (simp add: server_run_defs one_client_def first_client_def opening_defs conn_Send_def fun_eq_iff)

lemma server_inv_one_client: "server_inv one_client"
  using custom_app.server_run_ok [OF server_inv_new, of "[SvStart True, SvContext (SrvAccept False True 7)]"]
  unfolding one_client_reached by simp

lemma alive_one_client: "alive (Some 0) one_client"
  by (simp add: alive_def one_client_def first_client_def opening_defs IsConnected_def conn_Send_def)

lemma run_from_one_client:
  "server_run custom_hooks (SvStart True # SvContext (SrvAccept False True 7) # es) new_server
     = server_run custom_hooks es one_client"
  using run_events_append [of "server_exec custom_hooks" "[SvStart True, SvContext (SrvAccept False True 7)]" es new_server]
    one_client_reached
  by (simp del: server_exec.simps)

definition greeting :: message where
  "greeting = typed_message ServerAccept"

lemma body_greeting: "body greeting = []"
  by (simp add: greeting_def typed_message_def default_message_def)

text \<open>The server after the greeting's write has been started.\<close>

definition greeted :: server_interface where
  "greeted = one_client\<lparr>conns := [0 \<mapsto> first_client\<lparr>tasks := [], m_qMessagesOut := \<lparr>deqQueue = [greeting]\<rparr>,
     pending := [AsyncWriteValidation (u64_bytes 7), AsyncReadValidation, AsyncWriteHeader (header_bytes (header greeting))]\<rparr>]\<rparr>"

lemma greeting_started: "server_io custom_hooks 0 RunTask one_client = Inr greeted"
  by (simp add: server_io_def one_client_def first_client_def opening_defs conn_Send_def server_running_def new_server_def
      validated_now_def load_conn_def store_conn_def run_send_eq outgoing_def greeting_def greeted_def tsqueue_defs
      del: deqQueue_outgoing)

lemmas greeted_defs = greeted_def one_client_def new_server_def server_running_def first_client_def
  opening_defs conn_Send_def

lemma greeting_fails:
  "server_run custom_hooks
     [SvContext (SrvIo 0 (Complete (AsyncWriteHeader (header_bytes (header greeting))) True [])),
      SvMessageAll m None,
      SvContext (SrvIo 0 (Complete AsyncReadValidation True []))] greeted = Inl UseAfterFree"
  by (simp add: greeted_defs server_io_def validated_now_def load_conn_def store_conn_def WriteHeader_done_def
      MessageAllClients_def alive_def IsConnected_def custom_hooks_def custom_base_def custom_OnClientDisconnect_def
      client_id_def dropped_ref_def referenced_def tsqueue_defs GetID_def sock_accept_def close_socket_def)

lemma server_inv_queue:
  "server_inv s \<Longrightarrow> referenced p s \<Longrightarrow> server_inv (s\<lparr>server_qMessagesIn := \<lparr>deqQueue = [\<lparr>remote = Some p, msg = m\<rparr>]\<rparr>\<rparr>)"
  by (auto simp: server_inv_defs referenced_def)

lemma server_inv_held: "server_inv s \<Longrightarrow> referenced p s \<Longrightarrow> server_inv (s\<lparr>held := [p]\<rparr>)"
  by (auto simp: server_inv_defs referenced_def)

lemma conn_ok_close: "conn_ok p c \<Longrightarrow> conn_ok p (close_socket c)"
  by (auto simp: conn_ok_def pump_inv_def pump_ok_def pump_dead_def) (simp_all add: close_socket_def)

section \<open>Properties\<close>

text \<open>C7: the example server, started and driven by any sequence of calls, connections and
  completions, keeps its invariant (every shared pointer refers to a connection, every
  connection's outgoing queue matches its write in progress, nothing destroyed is still
  referenced). It can fail in three ways only: \<open>std::terminate\<close> (a peer that is gone when its
  accept handler runs, or a second \<open>Start\<close>), a handler of a destroyed connection, and waiting.\<close>

theorem server_keeps_invariant:
  "outcome {Terminated, UseAfterFree, Blocked} server_inv (server_run custom_hooks es new_server)"
  by (rule custom_app.server_run_ok) simp

text \<open>C28: an accepted client is appended to the deque, gets the counter's value as its id and an
  open connection with the greeting posted and the challenge being written, and the next accept
  is under way. An accept whose peer is already gone takes the whole server down, because
  \<open>remote_endpoint\<close> throws out of the handler.\<close>

theorem accept_greets_and_challenges:
  "(\<exists>s' c. accept_done custom_hooks False True now s = Inr s'
     \<and> m_deqConnections s' = m_deqConnections s @ [Some (next_ptr s)] \<and> conns s' (next_ptr s) = Some c
     \<and> GetID c = nIDCounter s \<and> nIDCounter s' = nIDCounter s + 1 \<and> accepts s' = Suc (accepts s)
     \<and> IsConnected c \<and> tasks c = [TaskSend (typed_message ServerAccept)]
     \<and> pending c = [AsyncWriteValidation (u64_bytes now), AsyncReadValidation])
   \<and> accept_done custom_hooks False False now s = Inl Terminated"
  by (simp add: server_run_defs new_connection_def Let_def ConnectToClient_def start_defs conn_Send_def
      GetID_def IsConnected_def)

text \<open>C21: \<open>MessageAllClients\<close> posts the message to every connected client in the deque but the
  ignored one, to each once, touches no other connection, and leaves exactly the connected
  clients in the deque, in their order. Whether a client has been validated plays no role.\<close>

theorem broadcast_reaches_live_clients:
  assumes "server_inv s"
  shows "\<exists>s'. MessageAllClients custom_hooks m ignore s = Inr s' \<and> server_inv s'
     \<and> m_deqConnections s' = filter (\<lambda>cl. alive cl s) (m_deqConnections s)
     \<and> (\<forall>p. conns s' p = (if Some p \<in> set (m_deqConnections s) \<and> Some p \<noteq> ignore \<and> alive (Some p) s
                         then map_option (conn_Send m) (conns s p) else conns s p))"
  using custom_app.message_all_ok [OF assms, of m ignore] by (auto simp: sends_all_def)

text \<open>The witness's client has not answered its challenge yet.\<close>

theorem broadcast_reaches_live_clients_witness:
  "\<exists>s'. MessageAllClients custom_hooks default_message None one_client = Inr s' \<and> m_deqConnections s' = [Some 0]
     \<and> conns s' 0 = Some (conn_Send default_message first_client) \<and> AsyncReadValidation \<in> set (pending first_client)"
proof -
  have "AsyncReadValidation \<in> set (pending first_client)"
    by (simp add: first_client_def opening_defs conn_Send_def)
  with broadcast_reaches_live_clients [OF server_inv_one_client, of default_message None] alive_one_client show ?thesis
    by (auto simp: one_client_def alive_cong)
qed

text \<open>C22: \<open>Update\<close> passes the messages at the front of the incoming queue to \<open>OnMessage\<close> in the
  order of their arrival, one by one, at most \<open>nMaxMessages\<close> of them, and leaves the rest
  queued; with a message there it does not wait.\<close>

theorem update_handles_in_order:
  assumes "server_inv s" "\<not> empty (server_qMessagesIn s)"
  shows "server_Update custom_hooks during n bWait s
       = run_events (handle_msg custom_hooks) (take (unat n) (deqQueue (server_qMessagesIn s))) s
     \<and> (\<exists>s'. server_Update custom_hooks during n bWait s = Inr s' \<and> server_inv s'
          \<and> deqQueue (server_qMessagesIn s') = drop (unat n) (deqQueue (server_qMessagesIn s)))"
  using custom_app.update_loop_ok [OF assms(1), of n 0] assms(2) by (auto simp: server_Update_def)

theorem update_handles_in_order_witness:
  "\<exists>s'. server_Update custom_hooks Inr 100 True
       (one_client\<lparr>server_qMessagesIn := \<lparr>deqQueue = [\<lparr>remote = Some 0, msg = default_message\<rparr>]\<rparr>\<rparr>) = Inr s'
     \<and> deqQueue (server_qMessagesIn s') = []"
proof -
  let ?s = "one_client\<lparr>server_qMessagesIn := \<lparr>deqQueue = [\<lparr>remote = Some 0, msg = default_message\<rparr>]\<rparr>\<rparr>"
  have "referenced 0 one_client" by (simp add: referenced_def one_client_def)
  from server_inv_queue [OF server_inv_one_client this, of default_message] have "server_inv ?s" .
  from update_handles_in_order [OF this, of Inr 100 True, THEN conjunct2] show ?thesis
    by (auto simp: empty_def)
qed

text \<open>What the example server does with a message: a ping goes back to its sender unchanged, a
  \<open>MessageAll\<close> sends every other connected client a \<open>ServerMessage\<close> that carries the sender's id,
  and any other message (also one whose id is no enumerator) changes nothing.\<close>

lemma message_handling:
  assumes "server_inv s" "p \<in> set (held s)" "conns s p = Some c"
  shows "(msg_type m = Some ServerPing \<longrightarrow> custom_OnMessage (Some p) m s = Inr (upd_conn p (conn_Send m) s))
     \<and> (msg_type m = Some MessageAll \<longrightarrow> (\<exists>s'. custom_OnMessage (Some p) m s = Inr s'
          \<and> conns s' = sends_all (op_push (u32_bytes (GetID c)) (typed_message ServerMessage)) (Some p)
                         (m_deqConnections s) s))
     \<and> (msg_type m \<notin> {Some ServerPing, Some MessageAll} \<longrightarrow> custom_OnMessage (Some p) m s = Inr s)"
  using custom_broadcast.message_all_ok
      [OF assms(1), of "op_push (u32_bytes (GetID c)) (typed_message ServerMessage)" "Some p"] assms(3)
  by (auto simp: custom_OnMessage_def client_id_def send_to_def split: option.split CustomMsgTypes.split)

text \<open>\<open>MessageClient\<close> does not remove a client it finds disconnected: it resets its own copy of
  the pointer before it erases that value from the deque, so it erases null pointers and the
  dead client stays.\<close>

lemma message_client_keeps_dead_client:
  assumes "server_inv s" "referenced p s" "\<not> alive (Some p) s"
  shows "\<exists>s'. MessageClient custom_hooks (Some p) m s = Inr s' \<and> m_deqConnections s' = m_deqConnections s"
  using custom_app.message_client_ok [OF assms(1,2), of m] by auto

text \<open>A broadcast can destroy a connection whose handlers are still to run. When a write to a
  client has failed its socket is closed, and the handler of its read is still queued; a
  broadcast on the main thread that comes first drops the last shared pointer, and the handler,
  which captured the raw \<open>this\<close>, uses the destroyed object.\<close>

lemma broadcast_frees_connection_in_use:
  "server_run custom_hooks
     [SvStart True, SvContext (SrvAccept False True 7), SvContext (SrvIo 0 RunTask),
      SvContext (SrvIo 0 (Complete (AsyncWriteHeader (header_bytes (header greeting))) True [])),
      SvMessageAll m None,
      SvContext (SrvIo 0 (Complete AsyncReadValidation True []))] new_server = Inl UseAfterFree"
  unfolding run_from_one_client using greeting_fails [of m]
  by (simp add: greeting_started del: run_events.simps(1))

text \<open>The greeting overlaps the handshake. The server posts the greeting before it starts to
  write the challenge, so two writes are in progress on one socket at the same time, whose
  order is not defined. If the greeting's header goes first, the client takes it for the
  challenge, its answer is wrong, and the server disconnects it.\<close>

lemma greeting_overlaps_handshake:
  "server_run custom_hooks [SvStart True, SvContext (SrvAccept False True 7), SvContext (SrvIo 0 RunTask)] new_server
     = Inr greeted
   \<and> (\<exists>c c1 k c2. conns greeted 0 = Some c
        \<and> pending c = [AsyncWriteValidation (u64_bytes 7), AsyncReadValidation,
                       AsyncWriteHeader (header_bytes (header greeting))]
        \<and> conn_run [Complete (AsyncWriteHeader (header_bytes (header greeting))) False (header_bytes (header greeting)),
                    Complete (AsyncWriteValidation (u64_bytes 7)) False (u64_bytes 7)] c = Inr c1
        \<and> sent (m_socket c1) = header_bytes (header greeting) @ u64_bytes 7
        \<and> conn_run [Complete AsyncConnect False [],
                    Complete AsyncReadValidation False (header_bytes (header greeting))] (connecting 1 q) = Inr k
        \<and> pending k = [AsyncWriteValidation (u64_bytes (scramble 0))]
        \<and> conn_exec (Complete AsyncReadValidation False (u64_bytes (scramble 0))) c1 = Inr c2
        \<and> \<not> IsConnected c2)"
proof -
  have z: "bytes_u64 (header_bytes (header greeting)) = 0"
    by (simp add: header_bytes_def greeting_def typed_message_def default_message_def default_header_def
        u32_bytes_def bytes_u64_def nat_le_0 le_nat_zeros flip: replicate_add)
  have chk: "m_nHandshakeCheck (sock_accept xs x) = m_nHandshakeCheck x" for xs x
    by (simp add: sock_accept_def)
  obtain c where c: "conns greeted 0 = Some c" "pending c = [AsyncWriteValidation (u64_bytes 7), AsyncReadValidation,
      AsyncWriteHeader (header_bytes (header greeting))]" "deqQueue (m_qMessagesOut c) = [greeting]"
    "m_nOwnerType c = OwnerServer" "sent (m_socket c) = []" "m_nHandshakeCheck c = scramble 7"
    by (simp add: greeted_defs del: deqQueue_outgoing)
  have out: "outgoing c = [greeting]" using c(3) by (simp add: outgoing_def del: deqQueue_outgoing)
  obtain c1 where c1: "conn_run [Complete (AsyncWriteHeader (header_bytes (header greeting))) False (header_bytes (header greeting)),
      Complete (AsyncWriteValidation (u64_bytes 7)) False (u64_bytes 7)] c = Inr c1"
    "sent (m_socket c1) = header_bytes (header greeting) @ u64_bytes 7" "pending c1 = [AsyncReadValidation]"
    "m_nOwnerType c1 = OwnerServer" "m_nHandshakeCheck c1 = scramble 7"
    using c out by (simp add: WriteHeader_done_eq body_greeting next_message_eq Let_def WriteValidation_done_def chk)
  obtain k where k: "conn_run [Complete AsyncConnect False [],
      Complete AsyncReadValidation False (header_bytes (header greeting))] (connecting 1 q) = Inr k"
    "pending k = [AsyncWriteValidation (u64_bytes (scramble 0))]"
    by (simp add: opening_defs read_done_defs store_validation_full z)
  have "scramble 0 \<noteq> scramble 7" by (simp add: scramble_inject)
  then obtain c2 where c2: "conn_exec (Complete AsyncReadValidation False (u64_bytes (scramble 0))) c1 = Inr c2"
    "\<not> IsConnected c2"
    using c1(3,4,5) by (simp add: ReadValidation_done_def store_validation_full IsConnected_def close_socket_def)
  have "server_run custom_hooks [SvStart True, SvContext (SrvAccept False True 7), SvContext (SrvIo 0 RunTask)] new_server
     = Inr greeted"
    unfolding run_from_one_client by (simp add: greeting_started)
  then show ?thesis using c(1,2) c1(1,2) k c2 by blast
qed

end
