(* ===== verification/SimpleClient.thy ===== *)
theory SimpleClient
  imports NetClient SimpleServer
begin

text \<open>
  \<open>src/src/network/NetClient/SimpleClient.cpp\<close>: the example client, which pings the server when
  \<open>1\<close> is pressed and reports what the server sends. The terminal is modelled by the key of each
  round and the list of reports; a time point of the clock is its 64-bit count of nanoseconds.
\<close>

section \<open>Pings\<close>

definition ping_message :: "u64 \<Rightarrow> message" where
  "ping_message timeNow = op_push (u64_bytes timeNow) (typed_message ServerPing)"

definition PingServer :: "u64 \<Rightarrow> client_interface \<Rightarrow> client_interface" where
  "PingServer timeNow cl = client_Send (ping_message timeNow) cl"

text \<open>\<open>duration_cast\<close> truncates towards zero.\<close>

definition microseconds :: "int \<Rightarrow> int" where
  "microseconds ns = (if ns < 0 then - (- ns div 1000) else ns div 1000)"

section \<open>The main loop\<close>

datatype report = Accepted | Ping int | Hello u32 | ServerDown

definition handle_incoming :: "u64 \<Rightarrow> message \<Rightarrow> report list result" where
  "handle_incoming timeNow m =
     (case msg_type m of
        Some ServerAccept \<Rightarrow> Inr [Accepted]
      | Some ServerPing \<Rightarrow> rbind (op_pull 8 m) (\<lambda>(timeThen, _).
          Inr [Ping (microseconds (sint timeNow - sint (bytes_u64 timeThen)))])
      | Some MessageAll \<Rightarrow> Inr []
      | Some ServerMessage \<Rightarrow> rbind (op_pull 4 m) (\<lambda>(clientID, _). Inr [Hello (bytes_u32 clientID)])
      | _ \<Rightarrow> Inr [])"

text \<open>One round: the key pressed, the clock at the ping and the clock at the report. The result is
  whether to quit, the reports and the client.\<close>

definition client_round :: "int \<Rightarrow> u64 \<Rightarrow> u64 \<Rightarrow> client_interface \<Rightarrow> (bool \<times> report list \<times> client_interface) result" where
  "client_round ch t1 t2 cl =
     (let cl = (if ch = 49 then PingServer t1 cl else cl);
          bQuit = (ch \<noteq> 49 \<and> ch = 113)
      in if client_IsConnected cl then
           if \<not> empty (Incoming cl) then
             rbind (pop_front (Incoming cl)) (\<lambda>(om, q).
               rbind (handle_incoming t2 (msg om)) (\<lambda>out.
                 Inr (bQuit, out, cl\<lparr>client_qMessagesIn := q\<rparr>)))
           else Inr (bQuit, [], cl)
         else Inr (True, [ServerDown], cl))"

text \<open>The loop over the rounds; in each the context thread first runs some handlers. The
  destructor of the client disconnects.\<close>

fun client_main_loop ::
  "(io_event list \<times> int \<times> u64 \<times> u64) list \<Rightarrow> client_interface \<Rightarrow> (report list \<times> client_interface) result" where
  "client_main_loop [] cl = Inr ([], cl)"
| "client_main_loop ((es, ch, t1, t2) # rounds) cl =
     rbind (run_events client_io es cl) (\<lambda>cl.
       rbind (client_round ch t1 t2 cl) (\<lambda>(bQuit, out, cl).
         if bQuit then rbind (client_destructor [] cl) (\<lambda>cl. Inr (out, cl))
         else rbind (client_main_loop rounds cl) (\<lambda>(out', cl). Inr (out @ out', cl))))"

definition client_main :: "(io_event list \<times> int \<times> u64 \<times> u64) list \<Rightarrow> report list result" where
  "client_main rounds =
     rbind (client_Connect (Some True) True 1 new_client) (\<lambda>(_, cl).
       rbind (client_main_loop rounds cl) (\<lambda>(out, _). Inr out))"

section \<open>What the reports say\<close>

lemma body_typed [simp]: "body (typed_message t) = []"
  by (simp add: typed_message_def default_message_def)

lemma ping_simps [simp]:
  "msg_type (ping_message t) = Some ServerPing" "body (ping_message t) = u64_bytes t" "well_sized (ping_message t)"
  using well_sized_op_push [of "typed_message ServerPing" "u64_bytes t"]
  by (simp_all add: ping_message_def)

lemma report_ping: "handle_incoming t2 (ping_message t) = Inr [Ping (microseconds (sint t2 - sint t))]"
  using op_pull_op_push [of "typed_message ServerPing" "u64_bytes t"] pod_u64.repr_nonempty [of t]
  by (simp add: handle_incoming_def) (simp add: ping_message_def)

lemma report_hello:
  "handle_incoming t2 (op_push (u32_bytes i) (typed_message ServerMessage)) = Inr [Hello i]"
  using op_pull_op_push [of "typed_message ServerMessage" "u32_bytes i"] pod_u32.repr_nonempty [of i]
  by (simp add: handle_incoming_def)

definition too_short :: "message \<Rightarrow> bool" where
  "too_short m \<longleftrightarrow> msg_type m = Some ServerPing \<and> length (body m) < 8
     \<or> msg_type m = Some ServerMessage \<and> length (body m) < 4"

lemma handle_incoming_faults:
  assumes "length (body m) < 2 ^ 64"
  shows "handle_incoming t m = Inl f \<longleftrightarrow> too_short m \<and> f = OutOfBounds"
  using assms
  by (auto simp: handle_incoming_def too_short_def op_pull_cases split: option.split CustomMsgTypes.split)

section \<open>Properties\<close>

text \<open>A ping measures the round trip. The message that \<open>PingServer\<close> sends is bounced unchanged
  by the server's \<open>OnMessage\<close>, to its sender, and the client that gets it back reports the
  microseconds between the two clock readings; the greeting the server relays for another
  client is reported with that client's id.\<close>

lemma ping_measures_round_trip:
  assumes "conns s p = Some c"
  shows "custom_OnMessage (Some p) (ping_message t1) s = Inr (upd_conn p (conn_Send (ping_message t1)) s)
     \<and> well_sized (ping_message t1)
     \<and> handle_incoming t2 (ping_message t1) = Inr [Ping (microseconds (sint t2 - sint t1))]
     \<and> handle_incoming t2 (op_push (u32_bytes (GetID c)) (typed_message ServerMessage)) = Inr [Hello (GetID c)]"
  using assms by (simp add: custom_OnMessage_def client_id_def send_to_def report_ping report_hello)

text \<open>The client trusts the server's sizes. A round of the main loop is undefined behaviour
  exactly when the message it pops is a ping with fewer than eight bytes or a server message
  with fewer than four; every other round returns.\<close>

lemma client_round_faults_iff:
  assumes "\<forall>om \<in> set (deqQueue (Incoming cl)). length (body (msg om)) < 2 ^ 64"
  shows "(client_round ch t1 t2 cl = Inl f) =
     (client_IsConnected cl \<and> f = OutOfBounds
      \<and> (\<exists>om oms. deqQueue (Incoming cl) = om # oms \<and> too_short (msg om)))"
proof -
  let ?cl = "if ch = 49 then PingServer t1 cl else cl"
  have same: "client_IsConnected ?cl = client_IsConnected cl" "Incoming ?cl = Incoming cl"
    by (auto simp: PingServer_def client_Send_def client_IsConnected_def Incoming_def split: option.splits)
  show ?thesis
  proof (cases "deqQueue (Incoming cl)")
    case Nil
    then show ?thesis using same by (simp add: client_round_def Let_def empty_def)
  next
    case (Cons om oms)
    then have "length (body (msg om)) < 2 ^ 64" using assms by simp
    from handle_incoming_faults [OF this, of t2 f] show ?thesis using same Cons
      by (cases "handle_incoming t2 (msg om)") (auto simp: client_round_def Let_def empty_def pop_front_def)
  qed
qed

end
