(* ===== verification/NetSystem.thy ===== *)
theory NetSystem
  imports NetLink SimpleClient
begin

text \<open>
  The example server (\<open>SimpleServer.cpp\<close>) and any number of clients on the client interface, over a
  network that keeps the bytes of each connection in order: the handlers of all connections, in any
  order. What the programs do in between is added by the systems that extend this one.
\<close>

section \<open>The system\<close>

text \<open>Client \<open>p\<close> is linked to the server's connection \<open>p\<close>. \<open>up_skip\<close> and \<open>up_seen\<close> are what the client had
  written to the link before, and what the server has read of it since; \<open>down_skip\<close> and \<open>down_seen\<close>
  the same for the other direction. \<open>heard_up\<close> and \<open>heard_down\<close> record what the connection of either
  side has delivered.\<close>

record net_system =
  net_server :: server_interface
  net_clients :: "nat \<Rightarrow> client_interface"
  up_skip :: "nat \<Rightarrow> nat"
  up_seen :: "nat \<Rightarrow> nat"
  down_skip :: "nat \<Rightarrow> nat"
  down_seen :: "nat \<Rightarrow> nat"
  heard_up :: "nat \<Rightarrow> owned_message list"
  heard_down :: "nat \<Rightarrow> owned_message list"

text \<open>The connection of a client, also after \<open>Disconnect\<close> has released it.\<close>

definition link_conn :: "client_interface \<Rightarrow> connection option" where
  "link_conn cl = (case m_connection cl of Some c \<Rightarrow> Some c
     | None \<Rightarrow> if released cl = [] then None else Some (last (released cl)))"

definition wire :: "connection option \<Rightarrow> u8 list" where
  "wire c = (case c of None \<Rightarrow> [] | Some c \<Rightarrow> sent (m_socket c))"

definition up_arriving :: "nat \<Rightarrow> 'a net_system_scheme \<Rightarrow> u8 list" where
  "up_arriving p s = drop (up_skip s p + up_seen s p) (wire (link_conn (net_clients s p)))"

definition down_arriving :: "nat \<Rightarrow> 'a net_system_scheme \<Rightarrow> u8 list" where
  "down_arriving p s = drop (down_skip s p + down_seen s p) (wire (conns (net_server s) p))"

definition queued :: "nat \<Rightarrow> owned_message tsqueue \<Rightarrow> owned_message list" where
  "queued p q = filter (\<lambda>om. remote om = Some p) (deqQueue q)"

text \<open>What a step has put behind the old content of a queue.\<close>

definition added :: "'a tsqueue \<Rightarrow> 'a tsqueue \<Rightarrow> 'a list" where
  "added q q' = drop (length (deqQueue q)) (deqQueue q')"

definition server_handler :: "nat \<Rightarrow> io_event \<Rightarrow> 'a net_system_scheme \<Rightarrow> 'a net_system_scheme result" where
  "server_handler p e s =
     (case conns (net_server s) p of
        None \<Rightarrow> Inr s
      | Some c \<Rightarrow>
          if server_running (net_server s) \<and> is_handler e \<and> read_ok e (up_arriving p s) then
            rbind (server_io custom_hooks p e (net_server s)) (\<lambda>sv.
              Inr (s\<lparr>net_server := sv, up_seen := (up_seen s)(p := up_seen s p + length (bytes_read e c)),
                     heard_up := (heard_up s)(p := heard_up s p
                        @ added (server_qMessagesIn (net_server s)) (server_qMessagesIn sv))\<rparr>))
          else Inr s)"

definition client_handler :: "nat \<Rightarrow> io_event \<Rightarrow> 'a net_system_scheme \<Rightarrow> 'a net_system_scheme result" where
  "client_handler p e s =
     (case m_connection (net_clients s p) of
        None \<Rightarrow> Inr s
      | Some c \<Rightarrow>
          if io_running (net_clients s p) \<and> is_handler e \<and> read_ok e (down_arriving p s) then
            rbind (client_io e (net_clients s p)) (\<lambda>cl.
              Inr (s\<lparr>net_clients := (net_clients s)(p := cl),
                     down_seen := (down_seen s)(p := down_seen s p + length (bytes_read e c)),
                     heard_down := (heard_down s)(p := heard_down s p
                        @ added (client_qMessagesIn (net_clients s p)) (client_qMessagesIn cl))\<rparr>))
          else Inr s)"

section \<open>The ends of a link in the system\<close>

text \<open>\<open>ups\<close> are the messages that client \<open>p\<close> has passed to \<open>Send\<close>, of which the server has taken \<open>k\<close> from
  its queue, and \<open>downs\<close> those that the server has sent to it, of which the client has taken \<open>j\<close>.\<close>

definition server_end_ok ::
  "u8 list \<Rightarrow> message list \<Rightarrow> message list \<Rightarrow> nat \<Rightarrow> nat \<Rightarrow> 'a net_system_scheme \<Rightarrow> bool" where
  "server_end_ok d downs ups k p s \<longleftrightarrow> down_skip s p = length d
     \<and> (\<exists>c. conns (net_server s) p = Some c \<and> link_end d downs ups (up_seen s p) (heard_up s p) c)
     \<and> queued p (server_qMessagesIn (net_server s)) = drop k (heard_up s p) \<and> k \<le> length (heard_up s p)"

definition client_end_ok ::
  "u8 list \<Rightarrow> message list \<Rightarrow> message list \<Rightarrow> nat \<Rightarrow> nat \<Rightarrow> 'a net_system_scheme \<Rightarrow> bool" where
  "client_end_ok u ups downs j p s \<longleftrightarrow> up_skip s p = length u
     \<and> (\<exists>c. link_conn (net_clients s p) = Some c \<and> link_end u ups downs (down_seen s p) (heard_down s p) c)
     \<and> deqQueue (client_qMessagesIn (net_clients s p)) = drop j (heard_down s p) \<and> j \<le> length (heard_down s p)"

definition server_ok :: "nat \<Rightarrow> 'a server_interface_scheme \<Rightarrow> bool" where
  "server_ok n sv \<longleftrightarrow> server_inv sv \<and> held sv = [] \<and> (\<forall>p. conns sv p \<noteq> None \<longleftrightarrow> p < n)"

definition net_inv ::
  "nat \<Rightarrow> (nat \<Rightarrow> u8 list) \<Rightarrow> (nat \<Rightarrow> u8 list) \<Rightarrow> (nat \<Rightarrow> message list) \<Rightarrow> (nat \<Rightarrow> message list)
   \<Rightarrow> (nat \<Rightarrow> nat) \<Rightarrow> (nat \<Rightarrow> nat) \<Rightarrow> 'a net_system_scheme \<Rightarrow> bool" where
  "net_inv n us ds ups downs ks js s \<longleftrightarrow> server_ok n (net_server s)
     \<and> (\<forall>p < n. server_end_ok (ds p) (downs p) (ups p) (ks p) p s \<and> client_end_ok (us p) (ups p) (downs p) (js p) p s)"

lemma net_invD:
  assumes "net_inv n us ds ups downs ks js s"
  shows "server_ok n (net_server s)"
    and "p < n \<Longrightarrow> server_end_ok (ds p) (downs p) (ups p) (ks p) p s"
    and "p < n \<Longrightarrow> client_end_ok (us p) (ups p) (downs p) (js p) p s"
  using assms by (simp_all add: net_inv_def)

lemma net_sized:
  assumes "net_inv n us ds ups downs ks js s" "p < n"
  shows "\<forall>m \<in> set (ups p). well_sized m" "\<forall>m \<in> set (downs p). well_sized m"
  using net_invD(2,3) [OF assms(1,2)] link_end_sized
  by (auto simp: server_end_ok_def client_end_ok_def)

text \<open>What an end's invariant depends on.\<close>

lemma server_end_cong:
  assumes "server_end_ok d downs ups k p s" "conns (net_server s') p = conns (net_server s) p"
    "queued p (server_qMessagesIn (net_server s')) = queued p (server_qMessagesIn (net_server s))"
    "down_skip s' p = down_skip s p" "up_seen s' p = up_seen s p" "heard_up s' p = heard_up s p"
  shows "server_end_ok d downs ups k p s'"
  using assms by (simp add: server_end_ok_def)

lemma client_end_cong:
  assumes "client_end_ok u ups downs j p s" "net_clients s' p = net_clients s p" "up_skip s' p = up_skip s p"
    "down_seen s' p = down_seen s p" "heard_down s' p = heard_down s p"
  shows "client_end_ok u ups downs j p s'"
  using assms by (simp add: client_end_ok_def)

lemma server_end_more: "server_end_ok d downs ups k p s \<Longrightarrow> server_end_ok d downs (ups @ ms) k p s"
  using link_end_more by (auto simp: server_end_ok_def)

lemma client_end_more: "client_end_ok u ups downs j p s \<Longrightarrow> client_end_ok u ups (downs @ ms) j p s"
  using link_end_more by (auto simp: client_end_ok_def)

lemma queued_append: "deqQueue q' = deqQueue q @ oms \<Longrightarrow> \<forall>om \<in> set oms. remote om = Some p \<Longrightarrow>
    queued r q' = queued r q @ (if r = p then oms else [])"
  by (auto simp: queued_def filter_id_conv filter_empty_conv)

lemma net_inv_cong:
  assumes "net_inv n us ds ups downs ks js s"
    "\<And>p. p < n \<Longrightarrow> ups' p = ups p \<and> downs' p = downs p \<and> ks' p = ks p \<and> js' p = js p"
  shows "net_inv n us ds ups' downs' ks' js' s"
  using assms by (simp add: net_inv_def)

text \<open>What the invariant of the network says does not depend on what a system records besides.\<close>

lemma net_inv_records:
  assumes "net_inv n us ds ups downs ks js s" "net_server s' = net_server s" "net_clients s' = net_clients s"
    "up_skip s' = up_skip s" "up_seen s' = up_seen s" "down_skip s' = down_skip s" "down_seen s' = down_seen s"
    "heard_up s' = heard_up s" "heard_down s' = heard_down s"
  shows "net_inv n us ds ups downs ks js s'"
  using assms by (simp add: net_inv_def server_end_ok_def client_end_ok_def)

text \<open>What has been read of a link is what the other end has been given to write.\<close>

lemma up_reads:
  assumes "client_end_ok u ups downs j p s" "read_ok e (up_arriving p s)"
  obtains av where "prefix av (frames ups)" "read_ok e (drop (up_seen s p) av)"
proof -
  obtain c where c: "link_conn (net_clients s p) = Some c" "up_skip s p = length u"
    "link_end u ups downs (down_seen s p) (heard_down s p) c"
    using assms(1) by (auto simp: client_end_ok_def)
  show thesis
    by (rule that [OF link_end_prefix [OF c(3)]])
      (use assms(2) c in \<open>simp add: up_arriving_def wire_def add.commute\<close>)
qed

lemma down_reads:
  assumes "server_end_ok d downs ups k p s" "read_ok e (down_arriving p s)"
  obtains av where "prefix av (frames downs)" "read_ok e (drop (down_seen s p) av)"
proof -
  obtain c where c: "conns (net_server s) p = Some c" "down_skip s p = length d"
    "link_end d downs ups (up_seen s p) (heard_up s p) c"
    using assms(1) by (auto simp: server_end_ok_def)
  show thesis
    by (rule that [OF link_end_prefix [OF c(3)]])
      (use assms(2) c in \<open>simp add: down_arriving_def wire_def add.commute\<close>)
qed

section \<open>Handlers\<close>

lemmas custom_io_link = server_app.server_io_link [OF custom_app.server_app_axioms]

text \<open>A handler of the server's connection \<open>p\<close>. The state changes only where the result shows.\<close>

lemma server_handler_inv:
  assumes inv: "net_inv n us ds ups downs ks js s" and live: "p \<notin> set (destroyed (net_server s))"
  obtains sv x y where "server_handler p e s = Inr (s\<lparr>net_server := sv, up_seen := x, heard_up := y\<rparr>)"
    "net_inv n us ds ups downs ks js (s\<lparr>net_server := sv, up_seen := x, heard_up := y\<rparr>)"
    "m_deqConnections sv = m_deqConnections (net_server s)" "destroyed sv = destroyed (net_server s)"
    "\<And>q. map_option conn_id (conns sv q) = map_option conn_id (conns (net_server s) q)"
proof (cases "p < n \<and> server_running (net_server s) \<and> is_handler e \<and> read_ok e (up_arriving p s)")
  case False
  have "conns (net_server s) p = None" if "\<not> p < n" using net_invD(1) [OF inv] that by (auto simp: server_ok_def)
  then have "server_handler p e s = Inr s" using False by (auto simp: server_handler_def split: option.split)
  then show thesis using that [where sv = "net_server s" and x = "up_seen s" and y = "heard_up s"] inv by simp
next
  case True
  let ?sv = "net_server s"
  note ends = net_invD(2,3) [OF inv]
  have se: "server_end_ok (ds p) (downs p) (ups p) (ks p) p s" and ce: "client_end_ok (us p) (ups p) (downs p) (js p) p s"
    using ends True by simp_all
  from se obtain c where c: "conns ?sv p = Some c" "link_end (ds p) (downs p) (ups p) (up_seen s p) (heard_up s p) c"
    by (auto simp: server_end_ok_def)
  from up_reads [OF ce] True obtain av where av: "prefix av (frames (ups p))" "read_ok e (drop (up_seen s p) av)" by blast
  have sinv: "server_inv ?sv" using net_invD(1) [OF inv] by (simp add: server_ok_def)
  have pre: "server_running ?sv" "is_handler e" "p < n" using True by simp_all
  obtain sv' c' oms where sv':
    "server_io custom_hooks p e ?sv = Inr sv'" "server_inv sv'" "conns sv' = (conns ?sv)(p \<mapsto> c')"
    "m_deqConnections sv' = m_deqConnections ?sv" "held sv' = held ?sv" "destroyed sv' = destroyed ?sv"
    "deqQueue (server_qMessagesIn sv') = deqQueue (server_qMessagesIn ?sv) @ oms" "\<forall>om \<in> set oms. remote om = Some p"
    "link_end (ds p) (downs p) (ups p) (up_seen s p + length (bytes_read e c)) (heard_up s p @ oms) c'"
    "own c' = own c" "conn_id c' = conn_id c"
    by (rule custom_io_link [OF sinv live c(1) pre(1,2) c(2) net_sized(1) [OF inv pre(3)] av])
  have add: "added (server_qMessagesIn ?sv) (server_qMessagesIn sv') = oms" using sv'(7) by (simp add: added_def)
  let ?s = "s\<lparr>net_server := sv', up_seen := (up_seen s)(p := up_seen s p + length (bytes_read e c)),
     heard_up := (heard_up s)(p := heard_up s p @ oms)\<rparr>"
  have "server_handler p e s = Inr ?s" using True c(1) sv'(1) add by (simp add: server_handler_def)
  moreover have "net_inv n us ds ups downs ks js ?s"
    unfolding net_inv_def
  proof (intro conjI allI impI)
    show "server_ok n (net_server ?s)" using net_invD(1) [OF inv] sv'(2,3,5) c(1) by (auto simp: server_ok_def)
    fix q assume q: "q < n"
    show "client_end_ok (us q) (ups q) (downs q) (js q) q ?s" by (rule client_end_cong [OF ends(2) [OF q]]) simp_all
    show "server_end_ok (ds q) (downs q) (ups q) (ks q) q ?s"
    proof (cases "q = p")
      case True
      then show ?thesis using se sv'(3,9) queued_append [OF sv'(7,8)] by (simp add: server_end_ok_def)
    next
      case False
      then show ?thesis using sv'(3) queued_append [OF sv'(7,8), of q] by (intro server_end_cong [OF ends(1) [OF q]]) simp_all
    qed
  qed
  ultimately show thesis by (rule that) (use sv'(3,4,6,11) c(1) in auto)
qed

text \<open>A handler of a client.\<close>

lemma client_io_link:
  assumes c: "m_connection cl = Some c" and run: "io_running cl" "is_handler e"
    and l: "link_end base out ms k h c" and sz: "\<forall>m \<in> set ms. well_sized m"
    and av: "prefix av (frames ms)" "read_ok e (drop k av)"
  obtains cl' c' oms where "client_io e cl = Inr cl'" "link_conn cl' = Some c'"
    "deqQueue (client_qMessagesIn cl') = deqQueue (client_qMessagesIn cl) @ oms"
    "link_end base out ms (k + length (bytes_read e c)) (h @ oms) c'"
proof -
  have load: "c\<lparr>m_qMessagesIn := client_qMessagesIn cl\<rparr> = with_queue (deqQueue (client_qMessagesIn cl)) c"
    by (simp add: with_queue_def)
  obtain c' where c': "conn_exec e (with_queue (deqQueue (client_qMessagesIn cl)) c) = Inr c'"
    using pump_inv_exec [OF link_end_pump [OF l]] by blast
  have sends: "sends_of e = []" using run(2) by (rule handler_sends)
  from link_end_exec [OF l sz _ av c'] sends obtain oms where o:
    "deqQueue (m_qMessagesIn c') = deqQueue (client_qMessagesIn cl) @ oms"
    "link_end base out ms (k + length (bytes_read e c)) (h @ oms) c'" by auto
  let ?cl = "cl\<lparr>m_connection := Some c', client_qMessagesIn := m_qMessagesIn c', ioc_stopped := \<not> has_work c'\<rparr>"
  have "client_io e cl = Inr ?cl" using c run c' by (simp add: client_io_def load del: conn_exec.simps)
  then show thesis by (rule that) (use o in \<open>simp_all add: link_conn_def\<close>)
qed

lemma client_handler_inv:
  assumes inv: "net_inv n us ds ups downs ks js s" and p: "p < n"
  obtains cls x y where "client_handler p e s = Inr (s\<lparr>net_clients := cls, down_seen := x, heard_down := y\<rparr>)"
    "net_inv n us ds ups downs ks js (s\<lparr>net_clients := cls, down_seen := x, heard_down := y\<rparr>)"
proof (cases "m_connection (net_clients s p) \<noteq> None \<and> io_running (net_clients s p) \<and> is_handler e \<and> read_ok e (down_arriving p s)")
  case False
  then have "client_handler p e s = Inr s" by (auto simp: client_handler_def split: option.split)
  then show thesis using that [where cls = "net_clients s" and x = "down_seen s" and y = "heard_down s"] inv by simp
next
  case True
  let ?cl = "net_clients s p"
  from True obtain c0 where Some: "m_connection ?cl = Some c0" by blast
  note ends = net_invD(2,3) [OF inv]
  have se: "server_end_ok (ds p) (downs p) (ups p) (ks p) p s" and ce: "client_end_ok (us p) (ups p) (downs p) (js p) p s"
    using ends p by simp_all
  from ce Some have c: "link_end (us p) (ups p) (downs p) (down_seen s p) (heard_down s p) c0"
    by (simp add: client_end_ok_def link_conn_def)
  from down_reads [OF se] True obtain av where av: "prefix av (frames (downs p))" "read_ok e (drop (down_seen s p) av)" by blast
  from client_io_link [OF Some _ _ c _ av] True net_sized [OF inv p] obtain cl' c' oms where cl':
    "client_io e ?cl = Inr cl'" "link_conn cl' = Some c'"
    "deqQueue (client_qMessagesIn cl') = deqQueue (client_qMessagesIn ?cl) @ oms"
    "link_end (us p) (ups p) (downs p) (down_seen s p + length (bytes_read e c0)) (heard_down s p @ oms) c'"
    by blast
  have add: "added (client_qMessagesIn ?cl) (client_qMessagesIn cl') = oms" using cl'(3) by (simp add: added_def)
  let ?s = "s\<lparr>net_clients := (net_clients s)(p := cl'),
     down_seen := (down_seen s)(p := down_seen s p + length (bytes_read e c0)),
     heard_down := (heard_down s)(p := heard_down s p @ oms)\<rparr>"
  have "client_handler p e s = Inr ?s" using True Some cl'(1) add by (simp add: client_handler_def)
  moreover have "net_inv n us ds ups downs ks js ?s"
    unfolding net_inv_def
  proof (intro conjI allI impI)
    show "server_ok n (net_server ?s)" using net_invD(1) [OF inv] by simp
    fix q assume q: "q < n"
    show "server_end_ok (ds q) (downs q) (ups q) (ks q) q ?s" by (rule server_end_cong [OF ends(1) [OF q]]) simp_all
    show "client_end_ok (us q) (ups q) (downs q) (js q) q ?s"
    proof (cases "q = p")
      case True
      then show ?thesis using ce cl'(2-4) by (auto simp: client_end_ok_def)
    next
      case False
      then show ?thesis by (intro client_end_cong [OF ends(2) [OF q]]) simp_all
    qed
  qed
  ultimately show thesis by (rule that)
qed

section \<open>The server takes a message\<close>

lemma received_append: "received st (ms @ ms') = received st ms @ received (last_body st ms) ms'"
  by (induction ms arbitrary: st) auto

lemma length_received [simp]: "length (received st ms) = length ms"
  by (induction ms arbitrary: st) auto

lemma received_nth:
  assumes "i < k" "k \<le> length ms"
  shows "received st (take k ms) ! i = received st ms ! i"
proof -
  have "received st ms = received st (take k ms) @ received (last_body st (take k ms)) (drop k ms)"
    by (metis append_take_drop_id received_append)
  then show ?thesis using assms by (simp add: nth_append)
qed

text \<open>The message at the front of the server's queue is the next one of the client it comes from.\<close>

lemma front_message:
  assumes inv: "net_inv n us ds ups downs ks js s" and q: "deqQueue (server_qMessagesIn (net_server s)) = om # oms"
  obtains p c where "p < n" "conns (net_server s) p = Some c" "ks p < length (ups p)"
    "om = \<lparr>remote = Some p, msg = received [] (ups p) ! ks p\<rparr>"
proof -
  have sinv: "server_inv (net_server s)" using net_invD(1) [OF inv] by (simp add: server_ok_def)
  then obtain p where p: "remote om = Some p" using q by (cases "remote om") (auto simp: server_inv_def refs_ok_def)
  then have "referenced p (net_server s)" using q by (auto simp: referenced_def intro: rev_image_eqI)
  then have pn: "p < n" using sinv net_invD(1) [OF inv] by (auto simp: server_inv_def refs_ok_def server_ok_def)
  from net_invD(2) [OF inv pn] obtain c where c: "conns (net_server s) p = Some c"
    "link_end (ds p) (downs p) (ups p) (up_seen s p) (heard_up s p) c"
    "queued p (server_qMessagesIn (net_server s)) = drop (ks p) (heard_up s p)" by (auto simp: server_end_ok_def)
  have own: "own c m = \<lparr>remote = Some p, msg = m\<rparr>" for m
    using sinv c(1) by (auto simp: server_inv_defs conn_ok_def own_def)
  from link_end_heard [OF c(2)] obtain k where k: "k \<le> length (ups p)"
    "heard_up s p = map (own c) (received [] (take k (ups p)))" by blast
  have d: "drop (ks p) (heard_up s p) = om # queued p \<lparr>deqQueue = oms\<rparr>" using c(3) q p by (simp add: queued_def)
  have b: "ks p < length (heard_up s p)"
  proof (rule ccontr)
    assume "\<not> ks p < length (heard_up s p)"
    then show False using d by simp
  qed
  then have "heard_up s p ! ks p = om" using d by (metis Cons_nth_drop_Suc list.inject)
  then have "om = own c (received [] (ups p) ! ks p)" using k b received_nth [of "ks p" k "ups p" "[]"] by simp
  with own that pn c(1) b k show thesis by simp
qed

text \<open>The server has handled that message, and sent the messages \<open>new q\<close> to client \<open>q\<close>.\<close>

lemma link_end_sends:
  assumes "link_end base out ms n h c" "\<forall>m \<in> set ms. well_sized m" "\<forall>m \<in> set new. well_sized m"
  shows "link_end base (out @ new) ms n h (fold conn_Send new c)"
  using assms
proof (induction new arbitrary: out c)
  case (Cons m new)
  from Cons.IH [OF link_end_send [OF Cons.prems(1,2)]] Cons.prems(2,3) show ?case by fastforce
qed simp

lemma taken_inv:
  assumes inv: "net_inv n us ds ups downs ks js s" and ok: "server_ok n sv"
    and q: "deqQueue (server_qMessagesIn (net_server s)) = om # oms" "remote om = Some p" "deqQueue (server_qMessagesIn sv) = oms"
    and c: "\<And>q. q < n \<Longrightarrow> conns sv q = map_option (fold conn_Send (new q)) (conns (net_server s) q)"
    and new: "\<And>q m. q < n \<Longrightarrow> m \<in> set (new q) \<Longrightarrow> well_sized m"
  shows "net_inv n us ds ups (\<lambda>q. downs q @ new q) (ks(p := Suc (ks p))) js (s\<lparr>net_server := sv\<rparr>)"
  unfolding net_inv_def
proof (intro conjI allI impI)
  fix r assume r: "r < n"
  note ends = net_invD(2,3) [OF inv r]
  have qd: "queued r (server_qMessagesIn (net_server s)) = (if r = p then [om] else []) @ queued r (server_qMessagesIn sv)"
    using q by (simp add: queued_def)
  from ends(1) obtain d where d: "conns (net_server s) r = Some d"
    "link_end (ds r) (downs r) (ups r) (up_seen s r) (heard_up s r) d"
    "queued r (server_qMessagesIn (net_server s)) = drop (ks r) (heard_up s r)" "ks r \<le> length (heard_up s r)"
    "down_skip s r = length (ds r)" by (auto simp: server_end_ok_def)
  have sz: "\<forall>m \<in> set (ups r). well_sized m" using link_end_sized ends(2) by (auto simp: client_end_ok_def)
  have l: "link_end (ds r) (downs r @ new r) (ups r) (up_seen s r) (heard_up s r) (fold conn_Send (new r) d)"
    by (rule link_end_sends [OF d(2) sz]) (use new r in blast)
  have k: "queued r (server_qMessagesIn sv) = drop ((ks(p := Suc (ks p))) r) (heard_up s r)
      \<and> (ks(p := Suc (ks p))) r \<le> length (heard_up s r)"
  proof (cases "r = p")
    case True
    have dr: "drop (ks p) (heard_up s p) = om # queued p (server_qMessagesIn sv)" using qd d(3) True by simp
    then have "drop (Suc (ks p)) (heard_up s p) = queued p (server_qMessagesIn sv)" by (metis drop_Suc list.sel(3) tl_drop)
    moreover have "ks p < length (heard_up s p)" using dr by (metis drop_all linorder_not_le list.distinct(1))
    ultimately show ?thesis using True by simp
  qed (use qd d in simp)
  show "server_end_ok (ds r) (downs r @ new r) (ups r) ((ks(p := Suc (ks p))) r) r (s\<lparr>net_server := sv\<rparr>)"
    using c [OF r] d l k by (simp add: server_end_ok_def)
  show "client_end_ok (us r) (ups r) (downs r @ new r) (js r) r (s\<lparr>net_server := sv\<rparr>)"
    by (rule client_end_cong [OF client_end_more [OF ends(2)]]) simp_all
qed (use ok in simp)

section \<open>The calls of a client\<close>

text \<open>A client has passed the messages \<open>new\<close> to \<open>Send\<close>, and has taken \<open>j\<close> messages in all.\<close>

lemma client_step_inv:
  assumes inv: "net_inv n us ds ups downs ks js s" and p: "p < n"
    and c: "link_conn cl = Some c" "link_end (us p) (ups p @ new) (downs p) (down_seen s p) (heard_down s p) c"
    and j: "deqQueue (client_qMessagesIn cl) = drop j (heard_down s p)" "j \<le> length (heard_down s p)"
  shows "net_inv n us ds (ups(p := ups p @ new)) downs ks (js(p := j)) (s\<lparr>net_clients := (net_clients s)(p := cl)\<rparr>)"
  unfolding net_inv_def
proof (intro conjI allI impI)
  fix r assume r: "r < n"
  note ends = net_invD(2,3) [OF inv r]
  let ?s = "s\<lparr>net_clients := (net_clients s)(p := cl)\<rparr>"
  show "server_end_ok (ds r) (downs r) ((ups(p := ups p @ new)) r) (ks r) r ?s"
    using server_end_cong [OF ends(1), of ?s] server_end_cong [OF server_end_more [OF ends(1)], of ?s]
    by (cases "r = p") simp_all
  show "client_end_ok (us r) ((ups(p := ups p @ new)) r) (downs r) ((js(p := j)) r) r ?s"
    using client_end_cong [OF ends(2), of ?s] ends(2) c j by (cases "r = p") (auto simp: client_end_ok_def)
qed (use net_invD(1) [OF inv] in simp)

lemma disconnect_link:
  assumes "link_conn cl = Some c" "link_end base out ts k h c" "\<forall>m \<in> set ts. well_sized m"
  obtains cl' c' where "client_destructor [] cl = Inr cl'" "link_conn cl' = Some c'" "link_end base out ts k h c'"
    "client_qMessagesIn cl' = client_qMessagesIn cl"
proof -
  let ?c = "case m_connection cl of None \<Rightarrow> c | Some c \<Rightarrow> if IsConnected c then conn_Disconnect c else c"
  obtain cl' where cl': "client_destructor [] cl = Inr cl'" "link_conn cl' = Some ?c"
    "client_qMessagesIn cl' = client_qMessagesIn cl"
    using assms(1)
    by (auto simp: client_destructor_def client_Disconnect_def client_IsConnected_def link_conn_def Let_def split: option.splits if_splits)
  moreover have "link_end base out ts k h ?c"
    using assms link_end_disconnect by (auto simp: link_conn_def split: option.split)
  ultimately show thesis using that by blast
qed

lemma send_link:
  assumes "link_conn cl = Some c" "link_end base out ts k h c" "\<forall>m \<in> set ts. well_sized m" "well_sized m"
  obtains c' where "link_conn (client_Send m cl) = Some c'"
    "link_end base (out @ (if client_IsConnected cl then [m] else [])) ts k h c'"
proof (cases "client_IsConnected cl")
  case True
  then have "m_connection cl = Some c" using assms(1) by (auto simp: client_IsConnected_def link_conn_def split: option.splits)
  then have "link_conn (client_Send m cl) = Some (conn_Send m c)" using True by (simp add: client_Send_def link_conn_def)
  then show thesis using that link_end_send [OF assms(2-4)] True by simp
qed (use that assms in \<open>simp add: client_Send_def\<close>)

lemma client_Send_frame [simp]:
  "client_IsConnected (client_Send m cl) = client_IsConnected cl"
  "client_qMessagesIn (client_Send m cl) = client_qMessagesIn cl"
  by (auto simp: client_Send_def client_IsConnected_def split: option.splits)

lemma link_conn_queue [simp]: "link_conn (cl\<lparr>client_qMessagesIn := q\<rparr>) = link_conn cl"
  by (simp add: link_conn_def split: option.split)

lemma queue_update: "q\<lparr>deqQueue := xs\<rparr> = \<lparr>deqQueue = xs\<rparr>"
  by (cases q) simp

text \<open>The round without the ping at its start.\<close>

lemma round_cases:
  "client_round ch t1 t2 cl =
     (let cl = (if ch = 49 then PingServer t1 cl else cl)
      in if \<not> client_IsConnected cl then Inr (True, [ServerDown], cl)
         else (case deqQueue (client_qMessagesIn cl) of
             [] \<Rightarrow> Inr (ch = 113, [], cl)
           | om # oms \<Rightarrow> rbind (handle_incoming t2 (msg om)) (\<lambda>out.
               Inr (ch = 113, out, cl\<lparr>client_qMessagesIn := \<lparr>deqQueue = oms\<rparr>\<rparr>))))"
  by (auto simp: client_round_def Let_def Incoming_def empty_def pop_front_def queue_update split: list.split)

text \<open>What a round can do: ping, and handle the next of the messages that the server has sent, of
  which it has taken \<open>j\<close>.\<close>

definition pinged :: "int \<Rightarrow> u64 \<Rightarrow> client_interface \<Rightarrow> message list" where
  "pinged ch t1 cl = (if ch = 49 \<and> client_IsConnected cl then [ping_message t1] else [])"

lemma round_link:
  assumes c: "link_conn cl = Some c" "link_end base ups downs k h c" and q: "deqQueue (client_qMessagesIn cl) = drop j h"
    and j: "j \<le> length h" and sz: "\<forall>m \<in> set downs. well_sized m"
    and ok: "\<And>i. i < length downs \<Longrightarrow> handle_incoming t2 (received [] downs ! i) = Inr (rep i)"
  obtains bQuit out cl' c' j' where "client_round ch t1 t2 cl = Inr (bQuit, out, cl')" "link_conn cl' = Some c'"
    "link_end base (ups @ pinged ch t1 cl) downs k h c'" "deqQueue (client_qMessagesIn cl') = drop j' h" "j' \<le> length h"
    "j' = j \<and> out \<in> {[], [ServerDown]} \<or> j' = Suc j \<and> j < length downs \<and> out = rep j"
proof -
  let ?cl = "if ch = 49 then PingServer t1 cl else cl"
  obtain c' where c': "link_conn ?cl = Some c'" "link_end base (ups @ pinged ch t1 cl) downs k h c'"
  proof (cases "ch = 49")
    case True
    show thesis by (rule send_link [OF c sz, of "ping_message t1"]) (use that True in \<open>simp_all add: PingServer_def pinged_def\<close>)
  qed (use that c in \<open>simp add: pinged_def\<close>)
  have q': "deqQueue (client_qMessagesIn ?cl) = drop j h" using q by (simp add: PingServer_def)
  show thesis
  proof (cases "\<not> client_IsConnected ?cl \<or> drop j h = []")
    case True
    then have "\<exists>bQuit out. client_round ch t1 t2 cl = Inr (bQuit, out, ?cl) \<and> out \<in> {[], [ServerDown]}"
      using q' by (auto simp: round_cases Let_def)
    then show thesis using that c' q' j by blast
  next
    case False
    then have jl: "j < length h" by simp
    then have d: "drop j h = h ! j # drop (Suc j) h" by (simp add: Cons_nth_drop_Suc)
    from link_end_heard [OF c(2)] obtain i where i: "i \<le> length downs" "h = map (own c) (received [] (take i downs))" by blast
    then have m: "msg (h ! j) = received [] downs ! j" "j < length downs"
      using jl received_nth [of j i downs "[]"] by (simp_all add: own_def)
    then have "client_round ch t1 t2 cl = Inr (ch = 113, rep j, ?cl\<lparr>client_qMessagesIn := \<lparr>deqQueue = drop (Suc j) h\<rparr>\<rparr>)"
      using False q' ok [of j] unfolding round_cases d by (simp add: Let_def)
    then show thesis by (rule that [OF _ _ c'(2), where j' = "Suc j"]) (use c'(1) m(2) jl in simp_all)
  qed
qed

section \<open>From the start on\<close>

text \<open>\<open>n\<close> clients are linked to the server: their connections have been validated, and every message sent so
  far (the greeting) has been handled. \<open>linked_reached\<close> gives calls of both programs that end there.\<close>

definition all_listed :: "nat \<Rightarrow> 'a server_interface_scheme \<Rightarrow> bool" where
  "all_listed n sv \<longleftrightarrow> destroyed sv = [] \<and> (\<forall>p < n. Some p \<in> set (m_deqConnections sv))"

definition linked :: "nat \<Rightarrow> server_interface \<Rightarrow> (nat \<Rightarrow> client_interface) \<Rightarrow> bool" where
  "linked n sv cls \<longleftrightarrow> server_ok n sv \<and> all_listed n sv \<and> deqQueue (server_qMessagesIn sv) = []
     \<and> (\<forall>p < n. (\<exists>c. conns sv p = Some c \<and> open_conn c) \<and> (\<exists>c. m_connection (cls p) = Some c \<and> open_conn c)
          \<and> deqQueue (client_qMessagesIn (cls p)) = [])"

definition fresh :: "'a net_system_scheme \<Rightarrow> bool" where
  "fresh s \<longleftrightarrow> (\<forall>p. up_skip s p = length (wire (link_conn (net_clients s p))) \<and> up_seen s p = 0
     \<and> down_skip s p = length (wire (conns (net_server s) p)) \<and> down_seen s p = 0
     \<and> heard_up s p = [] \<and> heard_down s p = [])"

lemma start_inv:
  assumes "linked n (net_server s) (net_clients s)" "fresh s"
  shows "net_inv n (\<lambda>p. wire (link_conn (net_clients s p))) (\<lambda>p. wire (conns (net_server s) p))
    (\<lambda>_. []) (\<lambda>_. []) (\<lambda>_. 0) (\<lambda>_. 0) s"
  unfolding net_inv_def
proof (intro conjI allI impI)
  fix p assume p: "p < n"
  from assms(1) p obtain c d where cd: "conns (net_server s) p = Some d" "open_conn d" "m_connection (net_clients s p) = Some c"
    "open_conn c" "deqQueue (client_qMessagesIn (net_clients s p)) = []" "deqQueue (server_qMessagesIn (net_server s)) = []"
    by (auto simp: linked_def)
  show "server_end_ok (wire (conns (net_server s) p)) [] [] 0 p s"
    using cd assms(2) link_end_start [of d] by (simp add: server_end_ok_def fresh_def wire_def queued_def)
  show "client_end_ok (wire (link_conn (net_clients s p))) [] [] 0 p s"
    using cd assms(2) link_end_start [of c] by (simp add: client_end_ok_def fresh_def wire_def link_conn_def)
qed (use assms(1) in \<open>simp add: linked_def\<close>)

section \<open>A drained link\<close>

definition idle :: "connection \<Rightarrow> bool" where
  "idle c \<longleftrightarrow> outgoing c = [] \<and> tasks c = [] \<and> AsyncReadHeader \<in> set (pending c)"

text \<open>Everything written on the link of client \<open>p\<close> has been read, and every message handled.\<close>

definition link_settled :: "nat \<Rightarrow> 'a net_system_scheme \<Rightarrow> bool" where
  "link_settled p s \<longleftrightarrow> up_arriving p s = [] \<and> down_arriving p s = []
     \<and> queued p (server_qMessagesIn (net_server s)) = [] \<and> deqQueue (client_qMessagesIn (net_clients s p)) = []
     \<and> (case (link_conn (net_clients s p), conns (net_server s) p) of (Some c, Some d) \<Rightarrow> idle c \<and> idle d | _ \<Rightarrow> False)"

lemma settled_counts:
  assumes inv: "net_inv n us ds ups downs ks js s" and p: "p < n" and st: "link_settled p s"
  shows "ks p = length (ups p) \<and> js p = length (downs p)"
proof -
  from net_invD(2) [OF inv p] obtain d where d: "conns (net_server s) p = Some d"
    "link_end (ds p) (downs p) (ups p) (up_seen s p) (heard_up s p) d"
    "queued p (server_qMessagesIn (net_server s)) = drop (ks p) (heard_up s p)" "ks p \<le> length (heard_up s p)"
    "down_skip s p = length (ds p)" by (auto simp: server_end_ok_def)
  from net_invD(3) [OF inv p] obtain c where c: "link_conn (net_clients s p) = Some c"
    "link_end (us p) (ups p) (downs p) (down_seen s p) (heard_down s p) c"
    "deqQueue (client_qMessagesIn (net_clients s p)) = drop (js p) (heard_down s p)"
    "js p \<le> length (heard_down s p)" "up_skip s p = length (us p)" by (auto simp: client_end_ok_def)
  have q: "outgoing c = []" "tasks c = []" "AsyncReadHeader \<in> set (pending c)"
    "outgoing d = []" "tasks d = []" "AsyncReadHeader \<in> set (pending d)"
    "length (sent (m_socket c)) \<le> length (us p) + up_seen s p" "length (sent (m_socket d)) \<le> length (ds p) + down_seen s p"
    "drop (ks p) (heard_up s p) = []" "drop (js p) (heard_down s p) = []"
    using st c(1,3,5) d(1,3,5) by (simp_all add: link_settled_def idle_def up_arriving_def down_arriving_def wire_def)
  have "length (heard_up s p) = length (ups p)" "length (heard_down s p) = length (downs p)"
    using link_end_all [OF d(2) c(2)] link_end_all [OF c(2) d(2)] q by simp_all
  then show ?thesis using q(9,10) c(4) d(4) by simp
qed

section \<open>One client\<close>

definition server_end :: connection where
  "server_end = (new_connection OwnerServer 0 \<lparr>is_open = True, sent = []\<rparr> new_tsqueue 7)\<lparr>pending := [AsyncReadHeader]\<rparr>"

definition one_link :: server_interface where
  "one_link = new_server\<lparr>conns := [0 \<mapsto> server_end], m_deqConnections := [Some 0], m_threadContext := True, next_ptr := 1\<rparr>"

definition linked_client :: client_interface where
  "linked_client = new_client\<lparr>thrContext := True, m_connection := Some
     ((new_connection OwnerClient 1 \<lparr>is_open = True, sent = []\<rparr> new_tsqueue 0)\<lparr>pending := [AsyncReadHeader]\<rparr>)\<rparr>"

lemma one_link_ok: "linked 1 one_link (\<lambda>_. linked_client)"
proof -
  have "server_inv one_link"
    by (auto simp: server_inv_defs one_link_def new_server_def server_end_def new_connection_def referenced_def conn_ok_def
        pump_inv_def pump_ok_def outgoing_def data_writes_def simp del: deqQueue_outgoing filter_pending)
  then show ?thesis
    by (auto simp: linked_def server_ok_def all_listed_def one_link_def new_server_def linked_client_def new_client_def
        open_conn_def server_end_def new_connection_def outgoing_def default_message_def simp del: deqQueue_outgoing)
qed

text \<open>The code gets there: the server starts, accepts a client, challenges and greets it, and the client
  connects, answers, and reports the greeting.\<close>

definition server_opening :: "server_call list" where
  "server_opening = SvStart True # SvContext (SrvAccept False True 7) # map (\<lambda>e. SvContext (SrvIo 0 e))
     [Complete (AsyncWriteValidation (u64_bytes 7)) False (u64_bytes 7),
      Complete AsyncReadValidation False (u64_bytes (scramble 7)), RunTask,
      Complete (AsyncWriteHeader (header_bytes (header greeting))) False (header_bytes (header greeting))]"

definition client_opening :: "client_call list" where
  "client_opening = ClConnect (Some True) True 1 # map ClIo
     [Complete AsyncConnect False [], Complete AsyncReadValidation False (u64_bytes 7),
      Complete (AsyncWriteValidation (u64_bytes (scramble 7))) False (u64_bytes (scramble 7)),
      Complete AsyncReadHeader False (header_bytes (header greeting))]"

lemma server_opens:
  "case server_run custom_hooks server_opening new_server of Inl _ \<Rightarrow> False
   | Inr sv \<Rightarrow> m_deqConnections sv = [Some 0] \<and> destroyed sv = [] \<and> held sv = [] \<and> next_ptr sv = 1
       \<and> deqQueue (server_qMessagesIn sv) = [] \<and> server_running sv \<and> (case conns sv 0 of None \<Rightarrow> False | Some c \<Rightarrow> open_conn c)"
  unfolding server_opening_def run_from_one_client
  by (simp add: server_io_def one_client_def first_client_def opening_defs conn_Send_def server_running_def new_server_def
      validated_now_def take_validation_def load_conn_def store_conn_def upd_conn_def run_send_eq outgoing_def greeting_def tsqueue_defs
      WriteValidation_done_def store_validation_full WriteHeader_done_eq next_message_eq sock_accept_def
      custom_hooks_def custom_base_def base_hooks_def open_conn_def Let_def default_message_def
      del: deqQueue_outgoing)

lemma client_opens:
  "case rbind (client_run client_opening new_client) (client_round 0 0 0) of Inl _ \<Rightarrow> False
   | Inr (bQuit, out, cl) \<Rightarrow> \<not> bQuit \<and> out = [Accepted] \<and> io_running cl \<and> deqQueue (client_qMessagesIn cl) = []
       \<and> (case m_connection cl of None \<Rightarrow> False | Some c \<Rightarrow> open_conn c)"
  by (simp add: client_opening_def client_defs new_client_def io_running_def has_work_def opening_defs read_done_defs
      store_validation_full store_header_full client_round_def Incoming_def handle_incoming_def tsqueue_defs
      open_conn_def outgoing_def default_message_def greeting_def typed_message_def default_header_def Let_def IsConnected_def
      msg_type_def
      del: deqQueue_outgoing)

lemma linked_reached:
  "\<exists>sv cl cl'. server_run custom_hooks server_opening new_server = Inr sv \<and> client_run client_opening new_client = Inr cl
     \<and> client_round 0 0 0 cl = Inr (False, [Accepted], cl') \<and> linked 1 sv (\<lambda>_. cl') \<and> server_running sv \<and> io_running cl'"
proof -
  from server_opens obtain sv c where sv: "server_run custom_hooks server_opening new_server = Inr sv"
    "m_deqConnections sv = [Some 0]" "destroyed sv = []" "held sv = []" "next_ptr sv = 1"
    "deqQueue (server_qMessagesIn sv) = []" "server_running sv" "conns sv 0 = Some c" "open_conn c"
    by (auto split: sum.splits option.splits)
  have inv: "server_inv sv"
    using custom_app.server_run_ok [OF server_inv_new, of server_opening] sv(1) by simp
  then have "conns sv p \<noteq> None \<longleftrightarrow> p < 1" for p using sv(5,8) by (auto simp: server_inv_def heap_ok_def)
  then have ok: "server_ok 1 sv" "all_listed 1 sv" using inv sv(2-4) by (simp_all add: server_ok_def all_listed_def)
  from client_opens obtain cl cl' d where cl: "client_run client_opening new_client = Inr cl"
    "client_round 0 0 0 cl = Inr (False, [Accepted], cl')" "io_running cl'" "deqQueue (client_qMessagesIn cl') = []"
    "m_connection cl' = Some d" "open_conn d"
    by (cases "client_run client_opening new_client") (auto split: sum.splits option.splits)
  show ?thesis using ok sv cl by (auto simp: linked_def)
qed

end
