(* ===== verification/PingSystem.thy ===== *)
theory PingSystem
  imports NetSystem
begin

text \<open>
  The example server (\<open>SimpleServer.cpp\<close>) with any number of example clients (\<open>SimpleClient.cpp\<close>): every
  client pings whenever its user likes, the server handles its messages whenever it calls \<open>Update\<close>,
  and the handlers of all connections run in any order in between. The system starts where the
  connections have been made and validated and the greetings handled; the opening of one client,
  from the start of both programs on, is \<open>linked_reached\<close>.
\<close>

section \<open>The system\<close>

text \<open>Recorded of each client: the times of the pings sent, how many of them the server has handled, and
  the reports of the client's rounds with their clock.\<close>

record ping_system = net_system +
  asked :: "nat \<Rightarrow> u64 list"
  bounced :: "nat \<Rightarrow> nat"
  reported :: "nat \<Rightarrow> (u64 \<times> report list) list"

definition update_step :: "size_t \<Rightarrow> ping_system \<Rightarrow> ping_system result" where
  "update_step n s =
     rbind (server_Update custom_hooks Inr n False (net_server s)) (\<lambda>sv.
       Inr (s\<lparr>net_server := sv, bounced := (\<lambda>p. bounced s p +
              (length (queued p (server_qMessagesIn (net_server s))) - length (queued p (server_qMessagesIn sv))))\<rparr>))"

text \<open>A round of the client's main loop, and the destructor of the client when it quits. A report is
  recorded unless it only says that the server is down.\<close>

definition round_step :: "nat \<Rightarrow> int \<Rightarrow> u64 \<Rightarrow> u64 \<Rightarrow> ping_system \<Rightarrow> ping_system result" where
  "round_step p ch t1 t2 s =
     (let cl = net_clients s p
      in rbind (client_round ch t1 t2 cl) (\<lambda>(bQuit, out, cl').
         rbind (if bQuit then client_destructor [] cl' else Inr cl') (\<lambda>cl'.
           Inr (s\<lparr>net_clients := (net_clients s)(p := cl'),
                  asked := (asked s)(p := asked s p @ (if ch = 49 \<and> client_IsConnected cl then [t1] else [])),
                  reported := (reported s)(p := reported s p
                     @ (if out = [] \<or> out = [ServerDown] then [] else [(t2, out)]))\<rparr>))))"

datatype ping_event =
    ServerHandler nat io_event
  | ClientHandler nat io_event
  | ServerUpdate size_t
  | ClientRound nat int u64 u64

fun ping_exec :: "ping_event \<Rightarrow> ping_system \<Rightarrow> ping_system result" where
  "ping_exec (ServerHandler p e) s = server_handler p e s"
| "ping_exec (ClientHandler p e) s = client_handler p e s"
| "ping_exec (ServerUpdate n) s = update_step n s"
| "ping_exec (ClientRound p ch t1 t2) s = round_step p ch t1 t2 s"

abbreviation ping_run :: "ping_event list \<Rightarrow> ping_system \<Rightarrow> ping_system result" where
  "ping_run \<equiv> run_events ping_exec"

section \<open>Invariant\<close>

definition reports_ok :: "u64 list \<Rightarrow> (u64 \<times> report list) list \<Rightarrow> bool" where
  "reports_ok ts rs \<longleftrightarrow> length rs \<le> length ts
     \<and> (\<forall>i < length rs. snd (rs ! i) = [Ping (microseconds (sint (fst (rs ! i)) - sint (ts ! i)))])"

definition pings :: "(nat \<Rightarrow> u64 list) \<Rightarrow> nat \<Rightarrow> message list" where
  "pings ts p = map ping_message (ts p)"

definition ping_inv :: "nat \<Rightarrow> (nat \<Rightarrow> u8 list) \<Rightarrow> (nat \<Rightarrow> u8 list) \<Rightarrow> ping_system \<Rightarrow> bool" where
  "ping_inv n us ds s \<longleftrightarrow>
     net_inv n us ds (pings (asked s)) (pings (\<lambda>p. take (bounced s p) (asked s p))) (bounced s) (\<lambda>p. length (reported s p)) s
     \<and> all_listed n (net_server s) \<and> (\<forall>p < n. bounced s p \<le> length (asked s p) \<and> reports_ok (asked s p) (reported s p))"

lemma received_pings [simp]: "received [] (map ping_message ts) = map ping_message ts"
proof -
  have "stale_free [] (map ping_message ts)" by (rule stale_free_all) (simp add: pod_u64.repr_nonempty)
  then show ?thesis by (simp add: received_iff)
qed

section \<open>The handlers\<close>

lemma ping_server_handler:
  assumes inv: "ping_inv n us ds s"
  shows "\<exists>s'. server_handler p e s = Inr s' \<and> ping_inv n us ds s'"
proof -
  from inv have I: "net_inv n us ds (pings (asked s)) (pings (\<lambda>p. take (bounced s p) (asked s p))) (bounced s)
      (\<lambda>p. length (reported s p)) s" "p \<notin> set (destroyed (net_server s))"
    by (simp_all add: ping_inv_def all_listed_def)
  show ?thesis
    by (rule server_handler_inv [OF I, of e], rule exI, rule conjI, assumption)
      (use inv in \<open>simp add: ping_inv_def all_listed_def\<close>)
qed

lemma ping_client_handler:
  assumes inv: "ping_inv n us ds s" and p: "p < n"
  shows "\<exists>s'. client_handler p e s = Inr s' \<and> ping_inv n us ds s'"
proof -
  from inv have I: "net_inv n us ds (pings (asked s)) (pings (\<lambda>p. take (bounced s p) (asked s p))) (bounced s)
      (\<lambda>p. length (reported s p)) s"
    by (simp add: ping_inv_def)
  show ?thesis
    by (rule client_handler_inv [OF I p, of e], rule exI, rule conjI, assumption) (use inv in \<open>simp add: ping_inv_def\<close>)
qed

section \<open>The server handles a ping\<close>

lemma handle_ping:
  assumes ok: "server_ok n sv" "all_listed n sv" and c: "conns sv p = Some c"
    and q: "deqQueue (server_qMessagesIn sv) = \<lparr>remote = Some p, msg = ping_message t\<rparr> # oms"
  obtains sv' where "handle_msg custom_hooks \<lparr>remote = Some p, msg = ping_message t\<rparr> sv = Inr sv'"
    "server_ok n sv'" "all_listed n sv'"
    "conns sv' = (conns sv)(p \<mapsto> conn_Send (ping_message t) c)" "deqQueue (server_qMessagesIn sv') = oms"
proof -
  let ?om = "\<lparr>remote = Some p, msg = ping_message t\<rparr>"
  let ?s = "sv\<lparr>server_qMessagesIn := \<lparr>deqQueue = oms\<rparr>, held := []\<rparr>"
  have inv: "server_inv sv" using ok by (simp add: server_ok_def)
  have "p < n" using ok(1) c by (auto simp: server_ok_def)
  then have "Some p \<in> set (m_deqConnections sv)" using ok(2) by (simp add: all_listed_def)
  then have h: "handle_msg custom_hooks ?om sv = Inr (upd_conn p (conn_Send (ping_message t)) ?s)"
    using ok c q by (simp add: handle_msg_def custom_hooks_def custom_OnMessage_def client_id_def send_to_def
        dropped_ref_def referenced_def server_ok_def upd_conn_def Let_def)
  from custom_app.handle_msg_ok [OF inv q] h have "server_inv (upd_conn p (conn_Send (ping_message t)) ?s)" by auto
  then have "server_ok n (upd_conn p (conn_Send (ping_message t)) ?s)" using ok(1) c by (auto simp: server_ok_def)
  moreover have "all_listed n (upd_conn p (conn_Send (ping_message t)) ?s)" using ok(2) by (simp add: all_listed_def)
  ultimately show thesis using that [OF h] c by simp
qed

lemma handle_front_inv:
  assumes inv: "ping_inv n us ds s" and q: "deqQueue (server_qMessagesIn (net_server s)) = om # oms"
  obtains sv p where "handle_msg custom_hooks om (net_server s) = Inr sv" "remote om = Some p"
    "deqQueue (server_qMessagesIn sv) = oms" "ping_inv n us ds (s\<lparr>net_server := sv, bounced := (bounced s)(p := Suc (bounced s p))\<rparr>)"
proof -
  from inv have I: "net_inv n us ds (pings (asked s)) (pings (\<lambda>p. take (bounced s p) (asked s p))) (bounced s)
      (\<lambda>p. length (reported s p)) s" and al: "all_listed n (net_server s)" by (simp_all add: ping_inv_def)
  from front_message [OF I q] obtain p c where p: "p < n" "conns (net_server s) p = Some c" "bounced s p < length (asked s p)"
    "om = \<lparr>remote = Some p, msg = ping_message (asked s p ! bounced s p)\<rparr>" by (auto simp: pings_def)
  let ?b = "bounced s p" and ?ts = "asked s p"
  from handle_ping [OF net_invD(1) [OF I] al p(2) q [unfolded p(4)]] obtain sv where sv:
    "handle_msg custom_hooks om (net_server s) = Inr sv" "server_ok n sv" "all_listed n sv"
    "conns sv = (conns (net_server s))(p \<mapsto> conn_Send (ping_message (?ts ! ?b)) c)" "deqQueue (server_qMessagesIn sv) = oms"
    unfolding p(4) by blast
  let ?new = "\<lambda>q. if q = p then [ping_message (?ts ! ?b)] else []"
  let ?s = "s\<lparr>net_server := sv, bounced := (bounced s)(p := Suc ?b)\<rparr>"
  have rm: "remote om = Some p" using p(4) by simp
  have "net_inv n us ds (pings (asked s)) (\<lambda>q. pings (\<lambda>p. take (bounced s p) (asked s p)) q @ ?new q)
      ((bounced s)(p := Suc ?b)) (\<lambda>p. length (reported s p)) (s\<lparr>net_server := sv\<rparr>)"
    by (rule taken_inv [OF I sv(2) q rm sv(5)]) (use sv(4) p(2) in \<open>auto simp: option.map_id split: if_splits\<close>)
  then have "net_inv n us ds (pings (asked ?s)) (pings (\<lambda>p. take (bounced ?s p) (asked ?s p))) (bounced ?s)
      (\<lambda>p. length (reported ?s p)) (s\<lparr>net_server := sv\<rparr>)"
    by (rule net_inv_cong) (use p(3) in \<open>auto simp: pings_def take_Suc_conv_app_nth\<close>)
  then have "ping_inv n us ds ?s" using sv(3) p(3) inv net_inv_records [of n us ds _ _ _ _ "s\<lparr>net_server := sv\<rparr>" ?s]
    by (simp add: ping_inv_def)
  then show thesis using that [OF sv(1) rm] sv(5) by simp
qed

lemma handle_many_inv:
  assumes "ping_inv n us ds s"
  shows "\<exists>sv. run_events (handle_msg custom_hooks) (take m (deqQueue (server_qMessagesIn (net_server s)))) (net_server s) = Inr sv
     \<and> ping_inv n us ds (s\<lparr>net_server := sv, bounced := (\<lambda>p. bounced s p
         + length (queued p \<lparr>deqQueue = take m (deqQueue (server_qMessagesIn (net_server s)))\<rparr>))\<rparr>)"
  using assms
proof (induction m arbitrary: s)
  case 0
  then show ?case by (simp add: queued_def)
next
  case (Suc m)
  show ?case
  proof (cases "deqQueue (server_qMessagesIn (net_server s))")
    case Nil
    then show ?thesis using Suc.prems by (simp add: queued_def)
  next
    case (Cons om oms)
    from handle_front_inv [OF Suc.prems Cons] obtain sv p where sv: "handle_msg custom_hooks om (net_server s) = Inr sv"
      "remote om = Some p" "deqQueue (server_qMessagesIn sv) = oms"
      "ping_inv n us ds (s\<lparr>net_server := sv, bounced := (bounced s)(p := Suc (bounced s p))\<rparr>)" by blast
    have "(\<lambda>r. ((bounced s)(p := Suc (bounced s p))) r + length (queued r \<lparr>deqQueue = take m oms\<rparr>))
        = (\<lambda>r. bounced s r + length (queued r \<lparr>deqQueue = om # take m oms\<rparr>))"
      using sv(2) by (auto simp: queued_def fun_eq_iff)
    then show ?thesis using Suc.IH [OF sv(4)] Cons sv(1,3) by simp
  qed
qed

lemma update_step_inv:
  assumes inv: "ping_inv n us ds s"
  shows "\<exists>s'. update_step m s = Inr s' \<and> ping_inv n us ds s'"
proof -
  let ?sv = "net_server s" and ?q = "deqQueue (server_qMessagesIn (net_server s))"
  have "server_inv ?sv" using inv net_invD(1) by (fastforce simp: ping_inv_def server_ok_def)
  from custom_app.update_loop_ok [OF this, of m 0] obtain sv where sv:
    "Update_loop custom_hooks m 0 ?sv = Inr sv"
    "run_events (handle_msg custom_hooks) (take (unat m) ?q) ?sv = Inr sv"
    "deqQueue (server_qMessagesIn sv) = drop (unat m) ?q" by auto
  have "length (queued p (server_qMessagesIn ?sv)) - length (queued p (server_qMessagesIn sv))
      = length (queued p \<lparr>deqQueue = take (unat m) ?q\<rparr>)" for p
  proof -
    have "queued p (server_qMessagesIn ?sv) = queued p \<lparr>deqQueue = take (unat m) ?q\<rparr> @ queued p (server_qMessagesIn sv)"
      using sv(3) by (metis append_take_drop_id filter_append queued_def tsqueue.select_convs(1))
    then show ?thesis by simp
  qed
  moreover have "server_Update custom_hooks Inr m False ?sv = Inr sv" using sv(1) by (simp add: server_Update_def)
  ultimately show ?thesis using handle_many_inv [OF inv, of "unat m"] sv(2) by (simp add: update_step_def)
qed

section \<open>A round of a client\<close>

lemma reports_ok_more: "reports_ok ts rs \<Longrightarrow> reports_ok (ts @ ts') rs"
  by (auto simp: reports_ok_def nth_append)

lemma reports_ok_next:
  "reports_ok ts rs \<Longrightarrow> length rs < length ts \<Longrightarrow>
   reports_ok ts (rs @ [(t, [Ping (microseconds (sint t - sint (ts ! length rs)))])])"
  by (auto simp: reports_ok_def nth_append less_Suc_eq)

lemma round_step_inv:
  assumes inv: "ping_inv n us ds s" and p: "p < n"
  shows "\<exists>s'. round_step p ch t1 t2 s = Inr s' \<and> ping_inv n us ds s'"
proof -
  let ?cl = "net_clients s p" and ?ts = "asked s p" and ?b = "bounced s p" and ?h = "heard_down s p" and ?rs = "reported s p"
  let ?new = "if ch = 49 \<and> client_IsConnected ?cl then [t1] else []"
  let ?downs = "map ping_message (take ?b ?ts)"
  have I: "net_inv n us ds (pings (asked s)) (pings (\<lambda>p. take (bounced s p) (asked s p))) (bounced s)
      (\<lambda>p. length (reported s p)) s" and b: "?b \<le> length ?ts" "reports_ok ?ts ?rs"
    using inv p by (simp_all add: ping_inv_def)
  from net_invD(3) [OF I p] obtain c where c: "link_conn ?cl = Some c"
    "link_end (us p) (map ping_message ?ts) ?downs (down_seen s p) ?h c"
    "deqQueue (client_qMessagesIn ?cl) = drop (length ?rs) ?h" "length ?rs \<le> length ?h"
    by (auto simp: client_end_ok_def pings_def)
  have sz: "\<forall>m \<in> set ?downs. well_sized m" by simp
  obtain bQuit out cl1 c1 j where r: "client_round ch t1 t2 ?cl = Inr (bQuit, out, cl1)" "link_conn cl1 = Some c1"
    "link_end (us p) (map ping_message ?ts @ pinged ch t1 ?cl) ?downs (down_seen s p) ?h c1"
    "deqQueue (client_qMessagesIn cl1) = drop j ?h" "j \<le> length ?h"
    "j = length ?rs \<and> out \<in> {[], [ServerDown]} \<or> j = Suc (length ?rs) \<and> length ?rs < length ?downs
       \<and> out = [Ping (microseconds (sint t2 - sint (?ts ! length ?rs)))]"
    by (rule round_link [OF c sz, where ?t2.0 = t2 and rep = "\<lambda>i. [Ping (microseconds (sint t2 - sint (?ts ! i)))]"])
      (use report_ping in simp)
  obtain cl2 c2 where cl2: "(if bQuit then client_destructor [] cl1 else Inr cl1) = Inr cl2" "link_conn cl2 = Some c2"
    "link_end (us p) (map ping_message ?ts @ pinged ch t1 ?cl) ?downs (down_seen s p) ?h c2"
    "client_qMessagesIn cl2 = client_qMessagesIn cl1"
  proof (cases bQuit)
    case True
    show thesis by (rule disconnect_link [OF r(2,3) sz]) (use that True in simp)
  qed (use that r(2,3) in simp)
  let ?rep = "if out = [] \<or> out = [ServerDown] then [] else [(t2, out)]"
  let ?s = "s\<lparr>net_clients := (net_clients s)(p := cl2), asked := (asked s)(p := ?ts @ ?new),
     reported := (reported s)(p := ?rs @ ?rep)\<rparr>"
  have step: "round_step p ch t1 t2 s = Inr ?s" using r(1) cl2(1) by (simp add: round_step_def)
  have reps: "reports_ok (?ts @ ?new) (?rs @ ?rep)" "j = length (?rs @ ?rep)"
    using r(6) reports_ok_more [OF b(2)] reports_ok_next [where t = t2, OF b(2)] b(2)
      reports_ok_more [OF reports_ok_next [where t = t2, OF b(2)]] by auto
  have q2: "deqQueue (client_qMessagesIn cl2) = drop j ?h" using r(4) cl2(4) by simp
  have "net_inv n us ds ((pings (asked s))(p := pings (asked s) p @ pinged ch t1 ?cl))
      (pings (\<lambda>p. take (bounced s p) (asked s p))) (bounced s)
      ((\<lambda>p. length (reported s p))(p := j)) (s\<lparr>net_clients := (net_clients s)(p := cl2)\<rparr>)"
    by (rule client_step_inv [OF I p cl2(2) _ q2 r(5)]) (use cl2(3) in \<open>simp add: pings_def\<close>)
  then have "net_inv n us ds (pings (asked ?s)) (pings (\<lambda>p. take (bounced ?s p) (asked ?s p))) (bounced ?s)
      (\<lambda>p. length (reported ?s p)) (s\<lparr>net_clients := (net_clients s)(p := cl2)\<rparr>)"
    by (rule net_inv_cong) (use b(1) reps(2) in \<open>auto simp: pings_def pinged_def\<close>)
  then have "net_inv n us ds (pings (asked ?s)) (pings (\<lambda>p. take (bounced ?s p) (asked ?s p))) (bounced ?s)
      (\<lambda>p. length (reported ?s p)) ?s" by (rule net_inv_records) simp_all
  moreover have "bounced ?s r \<le> length (asked ?s r) \<and> reports_ok (asked ?s r) (reported ?s r)" if "r < n" for r
    using inv that le_SucI [OF b(1)] reps(1) by (cases "r = p") (simp_all add: ping_inv_def)
  ultimately have "ping_inv n us ds ?s" using inv by (simp add: ping_inv_def)
  then show ?thesis using step by blast
qed

section \<open>Runs\<close>

definition ping_start :: "server_interface \<Rightarrow> (nat \<Rightarrow> client_interface) \<Rightarrow> ping_system" where
  "ping_start sv cls = \<lparr>net_server = sv, net_clients = cls,
     up_skip = (\<lambda>p. length (wire (link_conn (cls p)))), up_seen = (\<lambda>_. 0),
     down_skip = (\<lambda>p. length (wire (conns sv p))), down_seen = (\<lambda>_. 0),
     heard_up = (\<lambda>_. []), heard_down = (\<lambda>_. []), asked = (\<lambda>_. []), bounced = (\<lambda>_. 0), reported = (\<lambda>_. [])\<rparr>"

lemma ping_start_inv:
  assumes "linked n sv cls"
  shows "ping_inv n (\<lambda>p. wire (link_conn (cls p))) (\<lambda>p. wire (conns sv p)) (ping_start sv cls)"
  using start_inv [of n "ping_start sv cls"] assms
  by (simp add: ping_inv_def ping_start_def fresh_def pings_def [abs_def] reports_ok_def linked_def)

fun of_client :: "nat \<Rightarrow> ping_event \<Rightarrow> bool" where
  "of_client n (ServerUpdate m) = True"
| "of_client n (ServerHandler p e) = (p < n)"
| "of_client n (ClientHandler p e) = (p < n)"
| "of_client n (ClientRound p ch t1 t2) = (p < n)"

lemma ping_run_inv:
  assumes "ping_inv n us ds s" "\<forall>e \<in> set es. of_client n e"
  shows "\<exists>s'. ping_run es s = Inr s' \<and> ping_inv n us ds s'"
  using assms
proof (induction es arbitrary: s)
  case (Cons e es)
  have "\<exists>s1. ping_exec e s = Inr s1 \<and> ping_inv n us ds s1"
    using Cons.prems ping_server_handler ping_client_handler update_step_inv round_step_inv by (cases e) auto
  then show ?case using Cons.IH Cons.prems(2) by fastforce
qed simp

lemma settled_reports:
  assumes inv: "ping_inv n us ds s" and p: "p < n" and st: "link_settled p s"
  shows "length (reported s p) = length (asked s p)"
proof -
  from inv have "net_inv n us ds (pings (asked s)) (pings (\<lambda>p. take (bounced s p) (asked s p))) (bounced s)
      (\<lambda>p. length (reported s p)) s" by (simp add: ping_inv_def)
  from settled_counts [OF this p st] show ?thesis by (simp add: pings_def)
qed

definition one_ping :: "ping_event list" where
  "one_ping = (let m = ping_message 2000;
       write = [RunTask, Complete (AsyncWriteHeader (header_bytes (header m))) False (header_bytes (header m)),
                Complete (AsyncWriteBody (body m)) False (body m)];
       read = [Complete AsyncReadHeader False (header_bytes (header m)), Complete (AsyncReadBody 8) False (body m)]
     in ClientRound 0 49 2000 2000 # map (ClientHandler 0) write @ map (ServerHandler 0) read
        @ ServerUpdate 100 # map (ServerHandler 0) write @ map (ClientHandler 0) read @ [ClientRound 0 0 0 5000])"

lemma one_ping_returns:
  "case ping_run one_ping (ping_start one_link (\<lambda>_. linked_client)) of Inl _ \<Rightarrow> False
   | Inr s \<Rightarrow> link_settled 0 s \<and> asked s 0 = [2000] \<and> reported s 0 = [(5000, [Ping 3])]"
  by code_simp

section \<open>Properties\<close>

text \<open>C6: pings come back. With any number of linked clients that ping whenever they like, a server that
  handles its messages whenever it calls \<open>Update\<close>, and the handlers of all connections in any order
  in between, with transfers that succeed or fail and clients that quit, nothing faults. The
  \<open>i\<close>-th report of a client is always the time between its \<open>i\<close>-th ping and the report, however the
  pings of the clients interleave, and when everything written has been read and handled, every
  ping has been reported.\<close>

theorem pings_return:
  assumes "linked n sv cls" "\<forall>e \<in> set es. of_client n e"
  shows "\<exists>s. ping_run es (ping_start sv cls) = Inr s
     \<and> (\<forall>p < n. length (reported s p) \<le> length (asked s p)
          \<and> (\<forall>i < length (reported s p). snd (reported s p ! i)
               = [Ping (microseconds (sint (fst (reported s p ! i)) - sint (asked s p ! i)))])
          \<and> (link_settled p s \<longrightarrow> length (reported s p) = length (asked s p)))"
proof -
  from ping_run_inv [OF ping_start_inv [OF assms(1)] assms(2)] obtain s us ds
    where s: "ping_run es (ping_start sv cls) = Inr s" "ping_inv n us ds s" by blast
  have "reports_ok (asked s p) (reported s p)" if "p < n" for p
    using s(2) that by (simp add: ping_inv_def)
  then show ?thesis using s settled_reports [OF s(2)] by (auto simp: reports_ok_def)
qed

theorem pings_return_witness:
  "\<exists>s. ping_run one_ping (ping_start one_link (\<lambda>_. linked_client)) = Inr s \<and> asked s 0 = [2000] \<and> length (reported s 0) = 1
     \<and> snd (reported s 0 ! 0) = [Ping (microseconds (sint (fst (reported s 0 ! 0)) - 2000))]"
proof -
  have ev: "\<forall>e \<in> set one_ping. of_client 1 e" by (simp add: one_ping_def Let_def)
  from pings_return [OF one_link_ok ev] one_ping_returns show ?thesis by (auto split: sum.splits)
qed

end
