(* ===== verification/NetProgress.thy ===== *)
theory NetProgress
  imports NetConversation
begin

text \<open>
  A conversation between two connections (\<open>NetConversation\<close>) never gets stuck: as long as no transfer
  has failed and nobody has disconnected, what has been sent can still be written, read and delivered.
\<close>

section \<open>Open connections\<close>

text \<open>A socket that is open, and that no posted task is going to close.\<close>

definition open_end :: "connection \<Rightarrow> bool" where
  "open_end c \<longleftrightarrow> IsConnected c \<and> TaskClose \<notin> set (tasks c)"

text \<open>A connection stays open as long as its transfers succeed and nobody closes it.\<close>

fun io_fails :: "io_event \<Rightarrow> bool" where
  "io_fails (Complete op ec xs) = ec"
| "io_fails _ = False"

lemma open_end_updates [simp]:
  "open_end (c\<lparr>pending := ops\<rparr>) = open_end c" "open_end (c\<lparr>m_qMessagesIn := q\<rparr>) = open_end c"
  "open_end (c\<lparr>m_qMessagesOut := q'\<rparr>) = open_end c" "open_end (c\<lparr>m_msgTemporaryIn := m\<rparr>) = open_end c"
  "open_end (start_op op c) = open_end c" "open_end (sock_accept xs c) = open_end c" "open_end (conn_Send m c) = open_end c"
  "open_end (store_header xs c) = open_end c" "open_end (store_body xs c) = open_end c"
  by (simp_all add: open_end_def IsConnected_def start_defs store_defs Let_def conn_Send_def)

lemma open_end_sends [simp]: "open_end (fold conn_Send ms c) = open_end c"
  by (induction ms arbitrary: c) simp_all

lemma open_end_chain:
  "WriteHeader c = Inr c' \<Longrightarrow> open_end c' = open_end c" "WriteBody c = Inr c' \<Longrightarrow> open_end c' = open_end c"
  "next_message c = Inr c' \<Longrightarrow> open_end c' = open_end c" "run_send m c = Inr c' \<Longrightarrow> open_end c' = open_end c"
  by (auto simp: write_done_defs Let_def split: if_splits)

lemma exec_open:
  assumes "open_end c" "AsyncReadValidation \<notin> set (pending c)" "\<not> io_fails e" "e \<noteq> CallDisconnect" "conn_exec e c = Inr c'"
  shows "open_end c'"
proof (cases e)
  case RunTask
  show ?thesis
  proof (cases "tasks c")
    case (Cons t ts)
    have "open_end (c\<lparr>tasks := ts\<rparr>)" using assms(1) Cons by (simp add: open_end_def IsConnected_def)
    moreover obtain m where "t = TaskSend m" using assms(1) Cons by (cases t) (auto simp: open_end_def)
    ultimately show ?thesis using assms(5) RunTask Cons open_end_chain(4) by simp
  qed (use assms RunTask in simp)
next
  case (Complete op ec xs)
  show ?thesis
  proof (cases "op \<in> set (pending c) \<and> transfer_ok op ec xs")
    case True
    let ?c = "c\<lparr>pending := remove1 op (pending c)\<rparr>"
    have ex: "complete op False xs ?c = Inr c'" "open_end ?c" "op \<noteq> AsyncReadValidation"
      using assms True Complete by auto
    then show ?thesis
      by (cases op) (auto simp: WriteHeader_done_def WriteBody_done_def Connect_done_def ReadHeader_done_def ReadBody_done_def
          WriteValidation_done_def AddToIncomingMessageQueue_def ReadHeader_def ReadBody_def ReadValidation_def Let_def
          dest!: open_end_chain split: if_splits)
  qed (use assms Complete in auto)
qed (use assms in auto)

section \<open>A connection that goes on\<close>

definition lively :: "connection \<Rightarrow> bool" where
  "lively c \<longleftrightarrow> pump_inv c \<and> open_end c \<and> other_ops c \<noteq> []"

lemma lively_pump: "lively c \<Longrightarrow> pump_ok c"
  by (auto simp: lively_def pump_inv_def pump_dead_def open_end_def IsConnected_def)

lemma reads_no_validation: "reads ms n q c \<Longrightarrow> AsyncReadValidation \<notin> set (pending c)"
  using reads_only [of ms n q c AsyncReadValidation] by auto

lemma data_writes_remove:
  "\<not> is_data_write op \<Longrightarrow> filter is_data_write (remove1 op (pending c)) = data_writes c"
  by (simp add: filter_remove1 remove1_idem data_writes_def del: filter_pending)

text \<open>A read that has succeeded is followed by the next, and leaves the writing side alone.\<close>

lemma read_done:
  assumes rd: "reads ms n q c" and op: "op \<in> set (pending c)" "\<not> is_data_write op"
    and ex: "complete op False xs (c\<lparr>pending := remove1 op (pending c)\<rparr>) = Inr c'"
  shows "other_ops c' \<noteq> []" "tasks c' = tasks c" "outgoing c' = outgoing c" "data_writes c' = data_writes c"
proof -
  have o: "op = AsyncReadHeader \<or> (\<exists>n. op = AsyncReadBody n)" using reads_only [OF rd op] by blast
  then show "other_ops c' \<noteq> []" using ex
    by (auto simp: ReadHeader_done_def ReadBody_done_def store_defs AddToIncomingMessageQueue_def ReadHeader_def ReadBody_def
        start_op_def other_ops_def Let_def split: if_splits)
  show "tasks c' = tasks c" "outgoing c' = outgoing c" "data_writes c' = data_writes c" using o ex op
    by (auto simp: ReadHeader_done_def ReadBody_done_def store_defs AddToIncomingMessageQueue_def ReadHeader_def ReadBody_def
        data_writes_remove Let_def split: if_splits)
qed

lemma lively_exec:
  assumes l: "lively c" and rd: "reads ms n q c" and e: "\<not> io_fails e" "e \<noteq> CallDisconnect" and ex: "conn_exec e c = Inr c'"
  shows "lively c'"
proof -
  have "pump_inv c'" using pump_inv_exec [of c e] l ex by (auto simp: lively_def)
  moreover have "open_end c'" using exec_open [OF _ reads_no_validation [OF rd] e ex] l by (simp add: lively_def)
  moreover have "other_ops c' \<noteq> []"
  proof (cases "\<exists>op xs. e = Complete op False xs \<and> op \<in> set (pending c) \<and> \<not> is_data_write op")
    case True
    then obtain op xs where o: "e = Complete op False xs" "op \<in> set (pending c)" "\<not> is_data_write op" by blast
    show ?thesis
    proof (cases "transfer_ok op False xs")
      case True
      then show ?thesis using read_done(1) [OF rd o(2,3)] ex o by simp
    qed (use ex o l in \<open>simp add: lively_def\<close>)
  next
    case False
    have "reader_view c' = reader_view c" by (rule writer_keeps_reader [OF ex]) (use False e(1) in fastforce)
    then show ?thesis using l by (simp add: lively_def reader_view_def)
  qed
  ultimately show ?thesis by (simp add: lively_def)
qed

section \<open>What is left to do\<close>

text \<open>A posted message is written in three steps: its task, its header, its body.\<close>

definition load :: "connection \<Rightarrow> nat" where
  "load c = 3 * length (tasks c) + 2 * length (outgoing c)
     - (if \<exists>bs. AsyncWriteBody bs \<in> set (data_writes c) then 1 else 0)"

definition unread :: "conversation \<Rightarrow> bool \<Rightarrow> nat" where
  "unread v s = length (frames (wrote v (\<not> s))) - seen v s"

definition left_over :: "conversation \<Rightarrow> nat" where
  "left_over v = load (side v True) + load (side v False) + unread v True + unread v False"

text \<open>A task runs.\<close>

lemma task_progress:
  assumes "lively c" "tasks c \<noteq> []"
  obtains c' where "conn_exec RunTask c = Inr c'" "load c' < load c"
proof -
  obtain t ts where t: "tasks c = t # ts" using assms(2) by (cases "tasks c") auto
  obtain m where m: "t = TaskSend m" using assms(1) t by (cases t) (auto simp: lively_def open_end_def)
  have w: "write_matches (outgoing c) (data_writes c)" using lively_pump [OF assms(1)] by (simp add: pump_ok_def)
  show thesis
  proof (cases "outgoing c")
    case Nil
    then show thesis using w t m that by (auto simp: run_send_eq push_back_def load_def Let_def)
  next
    case (Cons x xs)
    then show thesis using w t m that by (auto simp: run_send_eq push_back_def load_def Let_def)
  qed
qed

text \<open>A write succeeds.\<close>

lemma write_progress:
  assumes "lively c" "outgoing c \<noteq> []"
  obtains op bs c' where "is_data_write op" "conn_exec (Complete op False bs) c = Inr c'" "load c' < load c"
proof -
  obtain m ms where m: "outgoing c = m # ms" using assms(2) by (cases "outgoing c") auto
  have w: "write_matches (m # ms) (data_writes c)" using lively_pump [OF assms(1)] m by (simp add: pump_ok_def)
  have rm: "data_writes (c\<lparr>pending := remove1 op (pending c)\<rparr>) = remove1 op (data_writes c)" if "is_data_write op" for op
    by (simp add: data_writes_def filter_remove1 del: filter_pending)
  have mem: "op \<in> set (pending c)" if "data_writes c = [op]" for op
  proof -
    have "op \<in> set (data_writes c)" using that by simp
    then show ?thesis by (simp add: data_writes_def del: filter_pending)
  qed
  show thesis
  proof (cases "data_writes c = [AsyncWriteBody (body m)]")
    case True
    let ?op = "AsyncWriteBody (body m)"
    have "\<exists>c'. conn_exec (Complete ?op False (body m)) c = Inr c' \<and> load c' < load c"
      using mem [OF True] True m rm [of ?op]
      by (auto simp: WriteBody_done_def next_message_eq load_def Let_def split: list.split)
    then show thesis using that [of ?op "body m"] by auto
  next
    case False
    let ?op = "AsyncWriteHeader (header_bytes (header m))"
    have d: "data_writes c = [?op]" using w False by auto
    have "\<exists>c'. conn_exec (Complete ?op False (header_bytes (header m))) c = Inr c' \<and> load c' < load c"
      using mem [OF d] d m rm [of ?op]
      by (auto simp: WriteHeader_done_eq WriteBody_eq next_message_eq load_def Let_def split: list.split)
    then show thesis using that [of ?op "header_bytes (header m)"] by auto
  qed
qed

section \<open>A step that makes progress\<close>

text \<open>What is left of a stream behind the reader is enough for its next read.\<close>

lemma next_header:
  assumes sz: "\<forall>m \<in> set ms. well_sized m" and pos: "before_frame (map msg_frame ms) n k" and more: "drop n (frames ms) \<noteq> []"
  shows "8 \<le> length (drop n (frames ms))"
proof -
  let ?fs = "map msg_frame ms"
  have k: "k < length ?fs"
  proof (rule ccontr)
    assume "\<not> k < length ?fs"
    then have "drop n (frames_text ?fs) = []" using pos by (simp add: before_frame_def)
    then show False using more by (simp add: frames_eq)
  qed
  then have "length (fst (?fs ! k)) = 8" by (simp add: msg_frame_def)
  then show ?thesis using pos unfolding frames_eq frames_text_split [OF k] by (simp add: before_frame_def)
qed

lemma next_body:
  assumes pos: "in_frame 8 (map msg_frame ms) n k"
  shows "length (body (ms ! k)) \<le> length (drop n (frames ms))"
proof -
  let ?fs = "map msg_frame ms"
  have k: "k < length ?fs" using pos by (simp add: in_frame_def)
  then have "length (fst (?fs ! k)) = 8" "snd (?fs ! k) = body (ms ! k)" by (simp_all add: msg_frame_def)
  then show ?thesis using pos unfolding frames_eq frames_text_split [OF k] by (simp add: in_frame_def)
qed

text \<open>A side that has everything of the other before it reads on, unless it is at the end.\<close>

lemma read_progress:
  assumes rd: "reads ms n q c" and l: "other_ops c \<noteq> []" and sz: "\<forall>m \<in> set ms. well_sized m"
    and more: "\<not> (AsyncReadHeader \<in> set (pending c) \<and> drop n (frames ms) = [])"
  obtains op xs where "\<not> is_data_write op" "op \<in> set (pending c)" "transfer_ok op False xs" "prefix xs (drop n (frames ms))"
    "xs \<noteq> []" "read_ok (Complete op False xs) (drop n (frames ms))"
proof -
  let ?av = "drop n (frames ms)"
  from rd l obtain k where "other_ops c = [AsyncReadHeader] \<and> before_frame (map msg_frame ms) n k
      \<or> other_ops c = [AsyncReadBody (length (body (ms ! k)))] \<and> in_frame 8 (map msg_frame ms) n k \<and> body (ms ! k) \<noteq> []"
    unfolding reads_def by auto
  then show thesis
  proof
    assume h: "other_ops c = [AsyncReadHeader] \<and> before_frame (map msg_frame ms) n k"
    then have p: "AsyncReadHeader \<in> set (pending c)" by (metis other_ops_def filter_set list.set_intros(1) mem_Collect_eq set_filter)
    then have "8 \<le> length ?av" using next_header [OF sz] h more by blast
    then show thesis using p by (intro that [of AsyncReadHeader "take 8 ?av"]) (auto simp: take_is_prefix)
  next
    assume b: "other_ops c = [AsyncReadBody (length (body (ms ! k)))] \<and> in_frame 8 (map msg_frame ms) n k \<and> body (ms ! k) \<noteq> []"
    let ?l = "length (body (ms ! k))"
    have p: "AsyncReadBody ?l \<in> set (pending c)" using b by (metis other_ops_def filter_set list.set_intros(1) mem_Collect_eq set_filter)
    have "?l \<le> length ?av" using next_body b by blast
    then show thesis using p b by (intro that [of "AsyncReadBody ?l" "take ?l ?av"]) (auto simp: take_is_prefix)
  qed
qed

lemma talk_step:
  assumes "read_ok e (arriving s v)" "sends_of e = []" "conn_exec e (side v s) = Inr c'"
  shows "talk (s, e) v = Inr (v\<lparr>side := (side v)(s := c'), seen := (seen v)(s := seen v s + length (bytes_read e (side v s)))\<rparr>)"
  using assms by (simp add: talk_def talk_ok_def)

lemma left_over_less:
  assumes "load c' < load (side v s) \<or> seen v s < k \<and> seen v s < length (frames (wrote v (\<not> s)))"
    and "seen v s \<le> k" "load c' \<le> load (side v s)"
  shows "left_over (v\<lparr>side := (side v)(s := c'), seen := (seen v)(s := k)\<rparr>) < left_over v"
  using assms by (cases s) (auto simp: left_over_def unread_def)

lemma progress:
  assumes inv: "conversation_inv base q v" and l: "\<And>s. lively (side v s)" and ns: "\<not> settled v t"
  obtains s e v' where "talk (s, e) v = Inr v'" "sends_of e = []" "\<not> io_fails e" "e \<noteq> CallDisconnect"
    "wrote v' = wrote v" "left_over v' < left_over v"
proof -
  note I = inv [unfolded conversation_inv_def, rule_format]
  consider s where "tasks (side v s) \<noteq> []" | s where "outgoing (side v s) \<noteq> []"
    | "\<And>s. tasks (side v s) = [] \<and> outgoing (side v s) = []" by blast
  then show thesis
  proof cases
    case 1
    obtain c' where c': "conn_exec RunTask (side v s) = Inr c'" "load c' < load (side v s)" using task_progress [OF l 1] .
    have st: "talk (s, RunTask) v = Inr (v\<lparr>side := (side v)(s := c'), seen := (seen v)(s := seen v s)\<rparr>)"
      using talk_step [OF _ _ c'(1)] by (simp add: sends_of_def)
    show thesis
      by (rule that [OF st _ _ _ _ left_over_less]) (use c'(2) in \<open>simp_all add: sends_of_def\<close>)
  next
    case 2
    obtain op bs c' where c': "is_data_write op" "conn_exec (Complete op False bs) (side v s) = Inr c'"
      "load c' < load (side v s)" using write_progress [OF l 2] .
    have br: "read_ok (Complete op False bs) (arriving s v)" "bytes_read (Complete op False bs) (side v s) = []"
      using c'(1) by (cases op; simp)+
    have st: "talk (s, Complete op False bs) v = Inr (v\<lparr>side := (side v)(s := c'), seen := (seen v)(s := seen v s)\<rparr>)"
      using talk_step [OF br(1) _ c'(2)] br(2) by (simp add: sends_of_def)
    show thesis
      by (rule that [OF st _ _ _ _ left_over_less]) (use c'(3) in \<open>simp_all add: sends_of_def\<close>)
  next
    case 3
    let ?c = "side v t" and ?ms = "wrote v (\<not> t)" and ?n = "seen v t"
    have "Stream (side v (\<not> t)) (base (\<not> t) @ frames ?ms)" using I [of "\<not> t"] by (simp add: side_inv_def)
    then have "sent (m_socket (side v (\<not> t))) = base (\<not> t) @ frames ?ms"
      using 3 [of "\<not> t"] lively_pump [OF l] by (simp add: Stream_def backlog_def posted_def)
    then have ar: "arriving t v = drop ?n (frames ?ms)" using I [of "\<not> t"] by (simp add: arriving_def)
    have rd: "reads ?ms ?n (q t) ?c" and sz: "\<forall>m \<in> set ?ms. well_sized m" using I [of t] I [of "\<not> t"] by (simp_all add: side_inv_def)
    have "\<not> (AsyncReadHeader \<in> set (pending ?c) \<and> drop ?n (frames ?ms) = [])" using ns 3 ar by (simp add: settled_def)
    from read_progress [OF rd _ sz this] l [of t] obtain op xs where x: "\<not> is_data_write op" "op \<in> set (pending ?c)"
      "transfer_ok op False xs" "prefix xs (drop ?n (frames ?ms))" "xs \<noteq> []" "read_ok (Complete op False xs) (drop ?n (frames ?ms))"
      by (auto simp: lively_def)
    let ?e = "Complete op False xs"
    have br: "bytes_read ?e ?c = xs" using x(1-3) by simp
    obtain c' where c': "conn_exec ?e ?c = Inr c'" using pump_inv_exec [of ?c ?e] l [of t] by (auto simp: lively_def)
    have "complete op False xs (?c\<lparr>pending := remove1 op (pending ?c)\<rparr>) = Inr c'" using c' x(2,3) by simp
    from read_done [OF rd x(2,1) this] have ld: "load c' = load ?c" by (simp add: load_def)
    have lt: "0 < length xs" "?n < length (frames ?ms)" using x(4,5) by (auto simp: prefix_def) (metis drop_all linorder_not_le append_is_Nil_conv)
    have st: "talk (t, ?e) v = Inr (v\<lparr>side := (side v)(t := c'), seen := (seen v)(t := ?n + length xs)\<rparr>)"
      using talk_step [OF _ _ c'] x(6) ar br by (simp add: sends_of_def del: bytes_read.simps read_ok.simps)
    show thesis
      by (rule that [OF st _ _ _ _ left_over_less]) (use ld lt in \<open>simp_all add: sends_of_def\<close>)
  qed
qed

text \<open>Events that are not failures, and no call to disconnect.\<close>

definition goes_well :: "bool \<times> io_event \<Rightarrow> bool" where
  "goes_well se \<longleftrightarrow> \<not> io_fails (snd se) \<and> snd se \<noteq> CallDisconnect"

lemma talk_lively:
  assumes inv: "conversation_inv base q v" and l: "\<And>s. lively (side v s)" and e: "goes_well se" and t: "talk se v = Inr v'"
  shows "lively (side v' s)"
proof -
  obtain r e where se: "se = (r, e)" by (cases se)
  show ?thesis
  proof (cases "talk_ok r e v")
    case True
    then obtain c' where c': "conn_exec e (side v r) = Inr c'" "side v' = (side v)(r := c')"
      using t se by (auto simp: talk_def)
    have "reads (wrote v (\<not> r)) (seen v r) (q r) (side v r)"
      using inv [unfolded conversation_inv_def, rule_format, of r] by (simp add: side_inv_def)
    from lively_exec [OF l this _ _ c'(1)] e se have "lively c'" by (simp add: goes_well_def)
    then show ?thesis using c'(2) l by simp
  qed (use t se l in \<open>simp add: talk_def\<close>)
qed

lemma talk_run_lively:
  assumes "conversation_inv base q v" "\<And>s. lively (side v s)" "\<forall>se \<in> set es. goes_well se" "talk_run es v = Inr v'"
  shows "lively (side v' s)"
  using assms
proof (induction es arbitrary: v)
  case (Cons se es)
  then obtain v1 where v1: "talk se v = Inr v1" "talk_run es v1 = Inr v'" by auto
  obtain w where "talk se v = Inr w" "conversation_inv base q w" using talk_inv [OF Cons.prems(1)] by blast
  then have "conversation_inv base q v1" using v1(1) by simp
  then show ?case using Cons.IH [of v1] talk_lively [OF Cons.prems(1,2) _ v1(1)] Cons.prems(3) v1(2) by auto
qed simp

text \<open>Whatever has been done so far, the two sides can finish.\<close>

lemma can_settle:
  assumes "conversation_inv base q v" "\<And>s. lively (side v s)"
  shows "\<exists>es v'. talk_run es v = Inr v' \<and> (\<forall>se \<in> set es. goes_well se \<and> sends_of (snd se) = []) \<and> wrote v' = wrote v
     \<and> conversation_inv base q v' \<and> (\<forall>s. settled v' s)"
  using assms
proof (induction "left_over v" arbitrary: v rule: less_induct)
  case less
  show ?case
  proof (cases "\<forall>s. settled v s")
    case True
    then show ?thesis using less.prems by (intro exI [of _ "[]"]) simp
  next
    case False
    then obtain t where "\<not> settled v t" by blast
    from progress [OF less.prems this] obtain s e v1 where p: "talk (s, e) v = Inr v1" "sends_of e = []" "goes_well (s, e)"
      "wrote v1 = wrote v" "left_over v1 < left_over v" by (metis goes_well_def snd_conv)
    obtain w where "talk (s, e) v = Inr w" "conversation_inv base q w" using talk_inv [OF less.prems(1)] by blast
    then have inv: "conversation_inv base q v1" using p(1) by simp
    have l: "lively (side v1 r)" for r by (rule talk_lively [OF less.prems p(3,1)])
    from less.hyps [OF p(5) inv l] obtain es v' where "talk_run es v1 = Inr v'"
      "\<forall>se \<in> set es. goes_well se \<and> sends_of (snd se) = []" "wrote v' = wrote v1" "conversation_inv base q v'" "\<forall>s. settled v' s" by blast
    then show ?thesis using p by (intro exI [of _ "(s, e) # es"]) simp
  qed
qed

lemma settled_received:
  assumes inv: "conversation_inv base q v" and se: "settled v s"
  shows "deqQueue (m_qMessagesIn (side v s)) = q s @ map (own (side v s)) (received [] (wrote v (\<not> s)))"
proof -
  have "reads (wrote v (\<not> s)) (seen v s) (q s) (side v s)"
    using inv [unfolded conversation_inv_def, rule_format, of s] by (simp add: side_inv_def)
  moreover have "AsyncReadHeader \<in> set (other_ops (side v s))" using se by (simp add: settled_def other_ops_def)
  ultimately obtain k where
    "deqQueue (m_qMessagesIn (side v s)) = q s @ map (own (side v s)) (received [] (take k (wrote v (\<not> s))))"
    "before_frame (map msg_frame (wrote v (\<not> s))) (seen v s) k" unfolding reads_def by fastforce
  then show ?thesis using settled_all [OF inv se] by simp
qed

lemma open_conn_lively:
  assumes "open_conn c" "IsConnected c"
  shows "lively c"
proof -
  have "data_writes c = []" "other_ops c = [AsyncReadHeader]"
    using assms(1) by (simp_all add: open_conn_def data_writes_def other_ops_def del: filter_pending)
  then show ?thesis using assms by (simp add: lively_def pump_inv_def pump_ok_def open_end_def open_conn_def)
qed

section \<open>Properties\<close>



end
