(* ===== verification/RelaySystem.thy ===== *)
theory RelaySystem
  imports NetSystem NetProgress
begin

text \<open>
  The example server with any number of clients that send it whatever the message types allow, by the
  calls of the client interface or by the example program, and whose connections may fail: what each
  client is sent in the end, against a specification of the server as a relay.
\<close>

section \<open>The relay\<close>

text \<open>An entry of the server's history is a message it has handled: the client it came from, the message,
  and the clients that were listed and connected at that moment.\<close>

type_synonym relay_entry = "nat \<times> message \<times> nat list"

definition listeners :: "'a server_interface_scheme \<Rightarrow> nat list" where
  "listeners s = map the (filter (\<lambda>cl. alive cl s) (m_deqConnections s))"

definition hello_message :: "u32 \<Rightarrow> message" where
  "hello_message i = op_push (u32_bytes i) (typed_message ServerMessage)"

text \<open>What the handling of an entry sends to client \<open>q\<close>, where \<open>ids\<close> are the ids of the clients: a ping goes
  back to its sender, a greeting to all the others.\<close>

fun relayed :: "(nat \<Rightarrow> u32) \<Rightarrow> nat \<Rightarrow> relay_entry \<Rightarrow> message list" where
  "relayed ids q (p, m, ls) =
     (if msg_type m = Some ServerPing then (if q = p then [m] else [])
      else if msg_type m = Some MessageAll then (if q \<noteq> p \<and> q \<in> set ls then [hello_message (ids p)] else [])
      else [])"

definition inbox :: "(nat \<Rightarrow> u32) \<Rightarrow> relay_entry list \<Rightarrow> nat \<Rightarrow> message list" where
  "inbox ids es q = concat (map (relayed ids q) es)"

definition said :: "relay_entry list \<Rightarrow> nat \<Rightarrow> message list" where
  "said es p = map (fst \<circ> snd) (filter (\<lambda>e. fst e = p) es)"

section \<open>The system\<close>

text \<open>Recorded: the messages that each client has passed to \<open>Send\<close>, the server's history, and the reports
  of each client's rounds with their clock.\<close>

record relay_system = net_system +
  given :: "nat \<Rightarrow> message list"
  history :: "relay_entry list"
  shown :: "nat \<Rightarrow> (u64 \<times> report list) list"

text \<open>The entries that the handling of a list of messages adds.\<close>

fun serve_log :: "owned_message list \<Rightarrow> server_interface \<Rightarrow> relay_entry list" where
  "serve_log [] sv = []"
| "serve_log (om # oms) sv = (the (remote om), msg om, listeners sv) #
     (case handle_msg custom_hooks om sv of Inl _ \<Rightarrow> [] | Inr sv' \<Rightarrow> serve_log oms sv')"

definition serve :: "size_t \<Rightarrow> relay_system \<Rightarrow> relay_system result" where
  "serve m s =
     rbind (server_Update custom_hooks Inr m False (net_server s)) (\<lambda>sv.
       Inr (s\<lparr>net_server := sv, history := history s
              @ serve_log (take (unat m) (deqQueue (server_qMessagesIn (net_server s)))) (net_server s)\<rparr>))"

definition say :: "nat \<Rightarrow> message \<Rightarrow> relay_system \<Rightarrow> relay_system" where
  "say p m s = (let cl = net_clients s p
     in s\<lparr>net_clients := (net_clients s)(p := client_Send m cl),
          given := (given s)(p := given s p @ (if client_IsConnected cl then [m] else []))\<rparr>)"

definition relay_round :: "nat \<Rightarrow> int \<Rightarrow> u64 \<Rightarrow> u64 \<Rightarrow> relay_system \<Rightarrow> relay_system result" where
  "relay_round p ch t1 t2 s =
     (let cl = net_clients s p
      in rbind (client_round ch t1 t2 cl) (\<lambda>(bQuit, out, cl').
         rbind (if bQuit then client_destructor [] cl' else Inr cl') (\<lambda>cl'.
           Inr (s\<lparr>net_clients := (net_clients s)(p := cl'), given := (given s)(p := given s p @ pinged ch t1 cl),
                  shown := (shown s)(p := shown s p @ (if out = [] \<or> out = [ServerDown] then [] else [(t2, out)]))\<rparr>))))"

datatype relay_event =
    AtServer nat io_event
  | AtClient nat io_event
  | Serve size_t
  | Say nat message
  | Round nat int u64 u64

fun relay_exec :: "relay_event \<Rightarrow> relay_system \<Rightarrow> relay_system result" where
  "relay_exec (AtServer p e) s = server_handler p e s"
| "relay_exec (AtClient p e) s = client_handler p e s"
| "relay_exec (Serve m) s = serve m s"
| "relay_exec (Say p m) s = Inr (say p m s)"
| "relay_exec (Round p ch t1 t2) s = relay_round p ch t1 t2 s"

abbreviation relay_run :: "relay_event list \<Rightarrow> relay_system \<Rightarrow> relay_system result" where
  "relay_run \<equiv> run_events relay_exec"

text \<open>The messages sent announce their size, and a ping carries a time.\<close>

definition sound :: "message \<Rightarrow> bool" where
  "sound m \<longleftrightarrow> well_sized m \<and> (msg_type m = Some ServerPing \<longrightarrow> 8 \<le> length (body m))"

fun sound_event :: "nat \<Rightarrow> relay_event \<Rightarrow> bool" where
  "sound_event n (AtServer p e) = (p < n)"
| "sound_event n (AtClient p e) = (p < n)"
| "sound_event n (Serve m) = True"
| "sound_event n (Say p m) = (p < n \<and> sound m)"
| "sound_event n (Round p ch t1 t2) = (p < n)"

section \<open>What the server sends\<close>

text \<open>Every message the server sends has a body that its receiver can read.\<close>

definition readable :: "message \<Rightarrow> bool" where
  "readable m \<longleftrightarrow> well_sized m \<and> (msg_type m = Some ServerPing \<and> 8 \<le> length (body m) \<or> (\<exists>i. m = hello_message i))"

lemma readable_hello: "readable (hello_message i)"
  using well_sized_op_push [of "typed_message ServerMessage" "u32_bytes i"] by (auto simp: readable_def hello_message_def)

lemma readable_body: "readable m \<Longrightarrow> body m \<noteq> []"
  by (auto simp: readable_def hello_message_def pod_u32.repr_nonempty)

lemma received_readable: "\<forall>m \<in> set ms. readable m \<Longrightarrow> received [] ms = ms"
  using stale_free_all [of ms "[]"] readable_body by (auto simp: received_iff)

definition report_of :: "u64 \<Rightarrow> message \<Rightarrow> report list" where
  "report_of t m = (case handle_incoming t m of Inl _ \<Rightarrow> [] | Inr out \<Rightarrow> out)"

lemma readable_report:
  assumes "readable m"
  shows "handle_incoming t m = Inr (report_of t m) \<and> report_of t m \<noteq> [] \<and> report_of t m \<noteq> [ServerDown]"
  using assms unfolding readable_def
proof (elim conjE disjE exE)
  fix i assume "m = hello_message i"
  then show ?thesis by (simp add: report_of_def hello_message_def report_hello)
next
  assume "msg_type m = Some ServerPing" "8 \<le> length (body m)" "well_sized m"
  then have "length (body m) < 2 ^ 64"
    using unsigned_less [of "header_size (header m)", where ?'a = nat] by (simp add: well_sized_def)
  then show ?thesis using \<open>msg_type m = Some ServerPing\<close> \<open>8 \<le> length (body m)\<close>
    by (auto simp: report_of_def handle_incoming_def op_pull_cases)
qed

lemma msg_type_header: "header m = header m' \<Longrightarrow> msg_type m = msg_type m'"
  by (simp add: msg_type_def)

text \<open>A ping is received as it was sent.\<close>

lemma received_ping:
  assumes "\<forall>m \<in> set ms. sound m" "i < length ms" "msg_type (received st ms ! i) = Some ServerPing"
  shows "readable (received st ms ! i)"
  using assms
proof (induction ms arbitrary: i st)
  case (Cons m ms)
  show ?case
  proof (cases i)
    case 0
    have "body m \<noteq> []"
    proof
      assume "body m = []"
      then show False using Cons.prems 0 msg_type_header [of "m\<lparr>body := st\<rparr>" m] by (auto simp: sound_def)
    qed
    then show ?thesis using Cons.prems 0 by (auto simp: sound_def readable_def)
  next
    case (Suc j)
    then show ?thesis using Cons.IH [of j] Cons.prems by (auto split: if_splits)
  qed
qed simp

section \<open>The server handles a message\<close>

lemma set_listeners: "q \<in> set (listeners s) \<longleftrightarrow> Some q \<in> set (m_deqConnections s) \<and> alive (Some q) s"
  by (force simp: listeners_def alive_def split: option.splits)

lemma handle_relays:
  assumes ok: "server_ok n sv" and c: "conns sv p = Some c" "conn_id c = ids p"
    and q: "deqQueue (server_qMessagesIn sv) = \<lparr>remote = Some p, msg = m\<rparr> # oms"
  obtains sv' where "handle_msg custom_hooks \<lparr>remote = Some p, msg = m\<rparr> sv = Inr sv'" "server_ok n sv'"
    "deqQueue (server_qMessagesIn sv') = oms"
    "conns sv' = (\<lambda>q. map_option (fold conn_Send (relayed ids q (p, m, listeners sv))) (conns sv q))"
    "\<forall>q \<in> set (listeners sv). Some q \<in> set (m_deqConnections sv')"
proof -
  let ?om = "\<lparr>remote = Some p, msg = m\<rparr>" and ?s = "sv\<lparr>server_qMessagesIn := \<lparr>deqQueue = oms\<rparr>, held := [p]\<rparr>"
  have inv: "server_inv sv" "held sv = []" using ok by (simp_all add: server_ok_def)
  have inv1: "server_inv ?s" using custom_app.server_inv_take [OF inv(1) q, of p] inv(2) by simp
  have al: "alive cl ?s = alive cl sv" for cl by (rule alive_cong) simp
  have "\<exists>s1. custom_OnMessage (Some p) m ?s = Inr s1
      \<and> conns s1 = (\<lambda>q. map_option (fold conn_Send (relayed ids q (p, m, listeners sv))) (conns sv q))
      \<and> (\<forall>q \<in> set (listeners sv). Some q \<in> set (m_deqConnections s1))"
  proof (cases "msg_type m = Some MessageAll")
    case True
    from custom_broadcast.message_all_ok [OF inv1, of "hello_message (conn_id c)" "Some p"] obtain s1
      where "MessageAllClients custom_base (hello_message (conn_id c)) (Some p) ?s = Inr s1"
        "conns s1 = sends_all (hello_message (conn_id c)) (Some p) (m_deqConnections sv) ?s"
        "m_deqConnections s1 = filter (\<lambda>cl. alive cl sv) (m_deqConnections sv)" by (auto simp: al)
    then show ?thesis using True c
      by (auto simp: custom_OnMessage_def client_id_def GetID_def hello_message_def sends_all_def al set_listeners
          fun_eq_iff option.map_id)
  next
    case False
    then show ?thesis using c
      by (auto simp: custom_OnMessage_def client_id_def send_to_def option.map_id fun_eq_iff
          set_listeners split: option.split CustomMsgTypes.split)
  qed
  then obtain s1 where s1: "custom_OnMessage (Some p) m ?s = Inr s1"
    "conns s1 = (\<lambda>q. map_option (fold conn_Send (relayed ids q (p, m, listeners sv))) (conns sv q))"
    "\<forall>q \<in> set (listeners sv). Some q \<in> set (m_deqConnections s1)" by blast
  let ?sv' = "dropped_ref (Some p) (s1\<lparr>held := drop 1 (held s1)\<rparr>)"
  have h: "handle_msg custom_hooks ?om sv = Inr ?sv'"
    using s1(1) q inv(2) by (simp add: handle_msg_def custom_hooks_def Let_def)
  from custom_app.handle_msg_ok [OF inv(1) q] h have r: "server_inv ?sv'" "deqQueue (server_qMessagesIn ?sv') = oms"
    "held ?sv' = held sv" by auto
  have cs: "conns ?sv' = (\<lambda>q. map_option (fold conn_Send (relayed ids q (p, m, listeners sv))) (conns sv q))"
    using s1(2) by simp
  have "server_ok n ?sv'" using r(1,3) inv(2) ok unfolding server_ok_def cs by simp
  then show thesis using that [OF h _ r(2) cs] s1(3) by simp
qed

section \<open>Invariant\<close>

lemma said_snoc: "said (es @ [(p, m, ls)]) q = said es q @ (if q = p then [m] else [])"
  by (simp add: said_def)

lemma inbox_append: "inbox ids (es @ es') q = inbox ids es q @ inbox ids es' q"
  by (simp add: inbox_def)

definition shown_ok :: "message list \<Rightarrow> (u64 \<times> report list) list \<Rightarrow> bool" where
  "shown_ok ms rs \<longleftrightarrow> length rs \<le> length ms
     \<and> (\<forall>i < length rs. handle_incoming (fst (rs ! i)) (ms ! i) = Inr (snd (rs ! i)))"

lemma shown_ok_more: "shown_ok ms rs \<Longrightarrow> shown_ok (ms @ ms') rs"
  by (auto simp: shown_ok_def nth_append)

lemma shown_ok_next:
  "shown_ok ms rs \<Longrightarrow> length rs < length ms \<Longrightarrow> handle_incoming t (ms ! length rs) = Inr out \<Longrightarrow> shown_ok ms (rs @ [(t, out)])"
  by (auto simp: shown_ok_def nth_append less_Suc_eq)

text \<open>What holds of one client, apart from the network.\<close>

definition relay_client_ok :: "(nat \<Rightarrow> u32) \<Rightarrow> nat \<Rightarrow> relay_system \<Rightarrow> bool" where
  "relay_client_ok ids p s \<longleftrightarrow> (\<exists>c. conns (net_server s) p = Some c \<and> conn_id c = ids p)
     \<and> (\<forall>m \<in> set (given s p). sound m) \<and> (\<forall>m \<in> set (inbox ids (history s) p). readable m)
     \<and> prefix (said (history s) p) (received [] (given s p)) \<and> shown_ok (inbox ids (history s) p) (shown s p)"

definition relay_net :: "nat \<Rightarrow> (nat \<Rightarrow> u8 list) \<Rightarrow> (nat \<Rightarrow> u8 list) \<Rightarrow> (nat \<Rightarrow> u32) \<Rightarrow> relay_system \<Rightarrow> bool" where
  "relay_net n us ds ids s \<longleftrightarrow> net_inv n us ds (given s) (inbox ids (history s))
     (\<lambda>p. length (said (history s) p)) (\<lambda>p. length (shown s p)) s"

text \<open>As long as no transfer fails, every client stays listed and connected.\<close>

definition all_open :: "nat \<Rightarrow> relay_system \<Rightarrow> bool" where
  "all_open n s \<longleftrightarrow> (\<forall>p < n. Some p \<in> set (m_deqConnections (net_server s))
       \<and> (\<exists>c. conns (net_server s) p = Some c \<and> open_end c))
     \<and> (\<forall>e \<in> set (history s). \<forall>q < n. q \<in> set (snd (snd e)))"

definition relay_inv ::
  "nat \<Rightarrow> (nat \<Rightarrow> u8 list) \<Rightarrow> (nat \<Rightarrow> u8 list) \<Rightarrow> (nat \<Rightarrow> u32) \<Rightarrow> bool \<Rightarrow> relay_system \<Rightarrow> bool" where
  "relay_inv n us ds ids b s \<longleftrightarrow> relay_net n us ds ids s \<and> (\<forall>p < n. relay_client_ok ids p s) \<and> (b \<longrightarrow> all_open n s)"

text \<open>The faults that a run can end in, where \<open>b\<close> says that no transfer of the server fails.\<close>

abbreviation relay_faults :: "bool \<Rightarrow> fault set" where
  "relay_faults b \<equiv> (if b then {} else {UseAfterFree})"

section \<open>Steps\<close>

text \<open>A handler of a connection that has been destroyed.\<close>

lemma destroyed_handler:
  assumes "p \<in> set (destroyed (net_server s))"
  shows "server_handler p e s = Inl UseAfterFree \<or> server_handler p e s = Inr s"
proof (cases "conns (net_server s) p")
  case (Some c)
  show ?thesis
  proof (cases "server_running (net_server s) \<and> is_handler e \<and> enabled e c")
    case True
    then show ?thesis using assms Some by (auto simp: server_handler_def server_io_def)
  next
    case False
    then have "server_io custom_hooks p e (net_server s) = Inr (net_server s)" using Some by (simp add: server_io_def)
    then show ?thesis using Some False not_enabled_reads by (auto simp: server_handler_def added_def)
  qed
qed (simp add: server_handler_def)

lemma listed_not_destroyed: "server_inv sv \<Longrightarrow> Some p \<in> set (m_deqConnections sv) \<Longrightarrow> p \<notin> set (destroyed sv)"
  by (auto simp: server_inv_def gone_ok_def referenced_def)

lemma server_io_conns:
  assumes "server_io custom_hooks p e sv = Inr sv'" "conns sv p = Some c" "AsyncReadValidation \<notin> set (pending c)"
  shows "conns sv' = conns sv \<or> (\<exists>c'. conn_exec e (load_conn sv c) = Inr c' \<and> conns sv' = (conns sv)(p \<mapsto> c'))"
proof (cases "server_running sv \<and> is_handler e \<and> enabled e c \<and> p \<notin> set (destroyed sv)")
  case True
  have "\<not> validated_now e c"
  proof
    assume "validated_now e c"
    then obtain xs where "e = Complete AsyncReadValidation False xs"
      by (auto simp: validated_now_def split: io_event.splits async_op.splits bool.splits)
    then show False using True assms(3) by simp
  qed
  then show ?thesis using True assms(1,2) by (auto simp: server_io_def store_conn_def simp del: conn_exec.simps)
qed (use assms in \<open>auto simp: server_io_def split: if_splits\<close>)

lemma handler_open:
  assumes "server_handler p e s = Inr s'" "conns (net_server s) p = Some c" "AsyncReadValidation \<notin> set (pending c)"
    "open_end c" "\<not> io_fails e" "conns (net_server s) q = Some d" "open_end d"
  shows "\<exists>d'. conns (net_server s') q = Some d' \<and> open_end d'"
proof (cases "server_running (net_server s) \<and> is_handler e \<and> read_ok e (up_arriving p s)")
  case True
  with assms(1,2) obtain sv where sv: "server_io custom_hooks p e (net_server s) = Inr sv" "net_server s' = sv"
    by (auto simp: server_handler_def)
  have "open_end c'" if "conn_exec e (load_conn (net_server s) c) = Inr c'" for c'
    by (rule exec_open [OF _ _ assms(5) _ that]) (use assms(3,4) True in \<open>auto simp: load_conn_def\<close>)
  with server_io_conns [OF sv(1) assms(2,3)] show ?thesis using assms(6,7) sv(2) by auto
qed (use assms in \<open>auto simp: server_handler_def\<close>)

lemma relay_server_handler:
  assumes inv: "relay_inv n us ds ids b s" and p: "p < n" and e: "b \<longrightarrow> \<not> io_fails e"
  shows "outcome (relay_faults b) (relay_inv n us ds ids b) (server_handler p e s)"
proof -
  have I: "net_inv n us ds (given s) (inbox ids (history s)) (\<lambda>p. length (said (history s) p)) (\<lambda>p. length (shown s p)) s"
    using inv by (simp add: relay_inv_def relay_net_def)
  have sinv: "server_inv (net_server s)" using net_invD(1) [OF I] by (simp add: server_ok_def)
  show ?thesis
  proof (cases "p \<in> set (destroyed (net_server s))")
    case True
    then have "\<not> b" using listed_not_destroyed [OF sinv] inv p by (auto simp: relay_inv_def all_open_def)
    then show ?thesis using destroyed_handler [OF True, of e] inv by auto
  next
    case False
    show ?thesis
    proof (rule server_handler_inv [OF I False, of e])
      fix sv x y
      let ?s = "s\<lparr>net_server := sv, up_seen := x, heard_up := y\<rparr>"
      assume h: "server_handler p e s = Inr ?s" "net_inv n us ds (given s) (inbox ids (history s))
          (\<lambda>p. length (said (history s) p)) (\<lambda>p. length (shown s p)) ?s"
          "m_deqConnections sv = m_deqConnections (net_server s)"
        and ids: "\<And>q. map_option conn_id (conns sv q) = map_option conn_id (conns (net_server s) q)"
      have "relay_client_ok ids q ?s" if "relay_client_ok ids q s" for q
        using that ids [of q] by (auto simp: relay_client_ok_def)
      moreover have "all_open n ?s" if b
      proof -
        from net_invD(2) [OF I p] obtain c where c: "conns (net_server s) p = Some c"
          "link_end (ds p) (inbox ids (history s) p) (given s p) (up_seen s p) (heard_up s p) c" by (auto simp: server_end_ok_def)
        have ao: "all_open n s" using inv that by (simp add: relay_inv_def)
        then have "open_end c" using c(1) p by (auto simp: all_open_def)
        from handler_open [OF h(1) c(1) link_end_no_handshake [OF c(2)] this] e that h(3) ao
        show ?thesis by (fastforce simp: all_open_def)
      qed
      ultimately show ?thesis using h(1,2) inv by (simp add: relay_inv_def relay_net_def)
    qed
  qed
qed

lemma relay_client_handler:
  assumes inv: "relay_inv n us ds ids b s" and p: "p < n"
  shows "outcome (relay_faults b) (relay_inv n us ds ids b) (client_handler p e s)"
proof -
  have I: "net_inv n us ds (given s) (inbox ids (history s)) (\<lambda>p. length (said (history s) p)) (\<lambda>p. length (shown s p)) s"
    using inv by (simp add: relay_inv_def relay_net_def)
  show ?thesis
    by (rule client_handler_inv [OF I p, of e]) (use inv in \<open>simp add: relay_inv_def relay_net_def relay_client_ok_def all_open_def\<close>)
qed

text \<open>The server handles the message at the front of its queue.\<close>

lemma conn_id_sends [simp]: "conn_id (fold conn_Send ms c) = conn_id c"
  by (induction ms arbitrary: c) (simp_all add: conn_Send_def post_task_def)

lemma relayed_readable:
  assumes "msg_type m = Some ServerPing \<Longrightarrow> readable m" "x \<in> set (relayed ids q (p, m, ls))"
  shows "readable x"
  using assms readable_hello by (auto split: if_splits)

lemma prefix_nth_snoc: "prefix xs ys \<Longrightarrow> length xs < length ys \<Longrightarrow> prefix (xs @ [ys ! length xs]) ys"
  by (metis prefix_def append_one_prefix)

lemma handle_entry_inv:
  assumes inv: "relay_inv n us ds ids b s" and q: "deqQueue (server_qMessagesIn (net_server s)) = om # oms"
  obtains sv p where "handle_msg custom_hooks om (net_server s) = Inr sv" "remote om = Some p"
    "deqQueue (server_qMessagesIn sv) = oms"
    "relay_inv n us ds ids b (s\<lparr>net_server := sv, history := history s @ [(p, msg om, listeners (net_server s))]\<rparr>)"
proof -
  let ?es = "history s"
  have I: "net_inv n us ds (given s) (inbox ids ?es) (\<lambda>p. length (said ?es p)) (\<lambda>p. length (shown s p)) s"
    using inv by (simp add: relay_inv_def relay_net_def)
  from front_message [OF I q] obtain p c where p: "p < n" "conns (net_server s) p = Some c"
    "length (said ?es p) < length (given s p)" "om = \<lparr>remote = Some p, msg = received [] (given s p) ! length (said ?es p)\<rparr>" .
  let ?m = "received [] (given s p) ! length (said ?es p)"
  have P: "conn_id c = ids p" "\<forall>m \<in> set (given s p). sound m" using inv p(1,2) by (auto simp: relay_inv_def relay_client_ok_def)
  obtain sv where sv: "handle_msg custom_hooks \<lparr>remote = Some p, msg = ?m\<rparr> (net_server s) = Inr sv" "server_ok n sv"
    "deqQueue (server_qMessagesIn sv) = oms"
    "conns sv = (\<lambda>q. map_option (fold conn_Send (relayed ids q (p, ?m, listeners (net_server s)))) (conns (net_server s) q))"
    "\<forall>q \<in> set (listeners (net_server s)). Some q \<in> set (m_deqConnections sv)"
    by (rule handle_relays [where ids = ids, OF net_invD(1) [OF I] p(2) P(1) q [unfolded p(4)]])
  have rm: "remote om = Some p" using p(4) by simp
  have rd: "readable x" if "x \<in> set (relayed ids r (p, ?m, listeners (net_server s)))" for r x
    using relayed_readable [OF _ that] received_ping [OF P(2), of "length (said ?es p)" "[]"] p(3) by blast
  let ?e = "(p, ?m, listeners (net_server s))"
  let ?s = "s\<lparr>net_server := sv, history := ?es @ [?e]\<rparr>"
  have "net_inv n us ds (given s) (\<lambda>q. inbox ids ?es q @ relayed ids q ?e)
      ((\<lambda>p. length (said ?es p))(p := Suc (length (said ?es p)))) (\<lambda>p. length (shown s p)) (s\<lparr>net_server := sv\<rparr>)"
    by (rule taken_inv [OF I sv(2) q rm sv(3)]) (use sv(4) rd in \<open>simp_all add: readable_def del: relayed.simps\<close>)
  moreover have "(\<lambda>q. inbox ids ?es q @ relayed ids q ?e) = inbox ids (?es @ [?e])"
    by (simp add: inbox_append fun_eq_iff) (simp add: inbox_def)
  moreover have "(\<lambda>p. length (said ?es p))(p := Suc (length (said ?es p))) = (\<lambda>p. length (said (?es @ [?e]) p))"
    by (simp add: said_snoc fun_eq_iff)
  ultimately have "net_inv n us ds (given s) (inbox ids (?es @ [?e])) (\<lambda>p. length (said (?es @ [?e]) p))
      (\<lambda>p. length (shown s p)) (s\<lparr>net_server := sv\<rparr>)" by simp
  then have "net_inv n us ds (given s) (inbox ids (?es @ [?e])) (\<lambda>p. length (said (?es @ [?e]) p))
      (\<lambda>p. length (shown s p)) ?s" by (rule net_inv_records) simp_all
  then have "relay_net n us ds ids ?s" by (simp add: relay_net_def)
  moreover have "relay_client_ok ids r ?s" if "r < n" for r
  proof -
    have R: "relay_client_ok ids r s" using inv that by (simp add: relay_inv_def)
    have ib: "inbox ids (?es @ [?e]) r = inbox ids ?es r @ relayed ids r ?e" by (simp add: inbox_def)
    have "prefix (said (?es @ [?e]) r) (received [] (given s r))"
      using R prefix_nth_snoc [of "said ?es p" "received [] (given s p)"] p(3) by (auto simp: relay_client_ok_def said_snoc)
    then show ?thesis using R sv(4) rd shown_ok_more ib
      by (auto simp: relay_client_ok_def simp del: relayed.simps)
  qed
  moreover have "all_open n ?s" if b
  proof -
    have ao: "all_open n s" using inv that by (simp add: relay_inv_def)
    then have "q \<in> set (listeners (net_server s))" if "q < n" for q
      using that by (fastforce simp: all_open_def set_listeners alive_def open_end_def)
    then show ?thesis using ao sv(4,5) by (fastforce simp: all_open_def simp del: relayed.simps)
  qed
  ultimately have "relay_inv n us ds ids b ?s" by (simp add: relay_inv_def)
  then show thesis using that [OF sv(1) [folded p(4)] rm sv(3)] p(4) by simp
qed

lemma serve_log_inv:
  assumes "relay_inv n us ds ids b s"
  shows "\<exists>sv. run_events (handle_msg custom_hooks) (take m (deqQueue (server_qMessagesIn (net_server s)))) (net_server s) = Inr sv
     \<and> relay_inv n us ds ids b (s\<lparr>net_server := sv, history := history s
         @ serve_log (take m (deqQueue (server_qMessagesIn (net_server s)))) (net_server s)\<rparr>)"
  using assms
proof (induction m arbitrary: s)
  case 0
  then show ?case by simp
next
  case (Suc m)
  show ?case
  proof (cases "deqQueue (server_qMessagesIn (net_server s))")
    case Nil
    then show ?thesis using Suc.prems by simp
  next
    case (Cons om oms)
    obtain sv p where sv: "handle_msg custom_hooks om (net_server s) = Inr sv" "remote om = Some p"
      "deqQueue (server_qMessagesIn sv) = oms"
      "relay_inv n us ds ids b (s\<lparr>net_server := sv, history := history s @ [(p, msg om, listeners (net_server s))]\<rparr>)"
      by (rule handle_entry_inv [OF Suc.prems Cons])
    from Suc.IH [OF sv(4)] show ?thesis using sv(1-3) Cons by simp
  qed
qed

lemma serve_inv:
  assumes inv: "relay_inv n us ds ids b s"
  shows "outcome (relay_faults b) (relay_inv n us ds ids b) (serve m s)"
proof -
  let ?sv = "net_server s"
  have "server_inv ?sv" using inv net_invD(1) by (fastforce simp: relay_inv_def relay_net_def server_ok_def)
  from custom_app.update_loop_ok [OF this, of m 0] obtain sv where sv: "Update_loop custom_hooks m 0 ?sv = Inr sv"
    "run_events (handle_msg custom_hooks) (take (unat m) (deqQueue (server_qMessagesIn ?sv))) ?sv = Inr sv" by auto
  moreover have "server_Update custom_hooks Inr m False ?sv = Inr sv" using sv(1) by (simp add: server_Update_def)
  ultimately show ?thesis using serve_log_inv [OF inv, of "unat m"] by (simp add: serve_def)
qed

text \<open>A client has been given messages to send, and has reported others.\<close>

lemma relay_client_step:
  assumes inv: "relay_inv n us ds ids b s" and p: "p < n"
    and c: "link_conn cl = Some c" "link_end (us p) (given s p @ new) (inbox ids (history s) p) (down_seen s p) (heard_down s p) c"
    and j: "deqQueue (client_qMessagesIn cl) = drop (length (shown s p @ rs)) (heard_down s p)"
      "length (shown s p @ rs) \<le> length (heard_down s p)"
    and new: "\<forall>m \<in> set new. sound m" and rs: "shown_ok (inbox ids (history s) p) (shown s p @ rs)"
  shows "relay_inv n us ds ids b (s\<lparr>net_clients := (net_clients s)(p := cl), given := (given s)(p := given s p @ new),
     shown := (shown s)(p := shown s p @ rs)\<rparr>)" (is "relay_inv n us ds ids b ?s")
proof -
  have I: "net_inv n us ds (given s) (inbox ids (history s)) (\<lambda>p. length (said (history s) p)) (\<lambda>p. length (shown s p)) s"
    using inv by (simp add: relay_inv_def relay_net_def)
  have "net_inv n us ds ((given s)(p := given s p @ new)) (inbox ids (history s)) (\<lambda>p. length (said (history s) p))
      ((\<lambda>p. length (shown s p))(p := length (shown s p @ rs))) (s\<lparr>net_clients := (net_clients s)(p := cl)\<rparr>)"
    by (rule client_step_inv [OF I p c j])
  then have "net_inv n us ds ((given s)(p := given s p @ new)) (inbox ids (history s)) (\<lambda>p. length (said (history s) p))
      (\<lambda>q. length (((shown s)(p := shown s p @ rs)) q)) (s\<lparr>net_clients := (net_clients s)(p := cl)\<rparr>)"
    by (rule net_inv_cong) simp
  then have "net_inv n us ds ((given s)(p := given s p @ new)) (inbox ids (history s)) (\<lambda>p. length (said (history s) p))
      (\<lambda>q. length (((shown s)(p := shown s p @ rs)) q)) ?s" by (rule net_inv_records) simp_all
  then have "relay_net n us ds ids ?s" by (simp add: relay_net_def)
  moreover have "relay_client_ok ids q ?s" if q: "q < n" for q
  proof -
    have R: "relay_client_ok ids q s" using inv q by (simp add: relay_inv_def)
    then have "prefix (said (history s) p) (received [] (given s p @ new))" if "q = p"
      using that by (simp add: relay_client_ok_def received_append prefix_prefix)
    then show ?thesis using R new rs by (auto simp: relay_client_ok_def)
  qed
  moreover have "all_open n ?s" if b using inv that by (simp add: relay_inv_def all_open_def)
  ultimately show ?thesis by (simp add: relay_inv_def)
qed

lemma relay_client_end:
  assumes inv: "relay_inv n us ds ids b s" and p: "p < n"
  obtains c where "link_conn (net_clients s p) = Some c"
    "link_end (us p) (given s p) (inbox ids (history s) p) (down_seen s p) (heard_down s p) c"
    "deqQueue (client_qMessagesIn (net_clients s p)) = drop (length (shown s p)) (heard_down s p)"
    "length (shown s p) \<le> length (heard_down s p)" "\<forall>m \<in> set (inbox ids (history s) p). readable m"
    "shown_ok (inbox ids (history s) p) (shown s p)"
proof -
  have I: "net_inv n us ds (given s) (inbox ids (history s)) (\<lambda>p. length (said (history s) p)) (\<lambda>p. length (shown s p)) s"
    using inv by (simp add: relay_inv_def relay_net_def)
  have "relay_client_ok ids p s" using inv p by (simp add: relay_inv_def)
  with net_invD(3) [OF I p] that show thesis by (auto simp: client_end_ok_def relay_client_ok_def)
qed

lemma readable_sized: "\<forall>m \<in> set ms. readable m \<Longrightarrow> \<forall>m \<in> set ms. well_sized m"
  by (auto simp: readable_def)

lemma say_inv:
  assumes inv: "relay_inv n us ds ids b s" and p: "p < n" and m: "sound m"
  shows "relay_inv n us ds ids b (say p m s)"
proof -
  obtain c where c: "link_conn (net_clients s p) = Some c"
    "link_end (us p) (given s p) (inbox ids (history s) p) (down_seen s p) (heard_down s p) c"
    "deqQueue (client_qMessagesIn (net_clients s p)) = drop (length (shown s p)) (heard_down s p)"
    "length (shown s p) \<le> length (heard_down s p)" "\<forall>m \<in> set (inbox ids (history s) p). readable m"
    "shown_ok (inbox ids (history s) p) (shown s p)" by (rule relay_client_end [OF inv p])
  have "well_sized m" using m by (simp add: sound_def)
  from send_link [OF c(1,2) readable_sized [OF c(5)] this] obtain c' where c':
    "link_conn (client_Send m (net_clients s p)) = Some c'"
    "link_end (us p) (given s p @ (if client_IsConnected (net_clients s p) then [m] else [])) (inbox ids (history s) p)
       (down_seen s p) (heard_down s p) c'" by blast
  have "(shown s)(p := shown s p) = shown s" by simp
  with relay_client_step [OF inv p c', of "[]"] c(3,4,6) m show ?thesis by (auto simp: say_def Let_def)
qed

lemma sound_ping: "sound (ping_message t)"
  by (simp add: sound_def)

lemma relay_round_inv:
  assumes inv: "relay_inv n us ds ids b s" and p: "p < n"
  shows "outcome (relay_faults b) (relay_inv n us ds ids b) (relay_round p ch t1 t2 s)"
proof -
  let ?cl = "net_clients s p" and ?ib = "inbox ids (history s) p"
  obtain c where c: "link_conn ?cl = Some c" "link_end (us p) (given s p) ?ib (down_seen s p) (heard_down s p) c"
    "deqQueue (client_qMessagesIn ?cl) = drop (length (shown s p)) (heard_down s p)"
    "length (shown s p) \<le> length (heard_down s p)" "\<forall>m \<in> set ?ib. readable m" "shown_ok ?ib (shown s p)"
    by (rule relay_client_end [OF inv p])
  have sz: "\<forall>m \<in> set ?ib. well_sized m" by (rule readable_sized [OF c(5)])
  have rep: "handle_incoming t2 (received [] ?ib ! i) = Inr (report_of t2 (?ib ! i))" if "i < length ?ib" for i
    using readable_report [of "?ib ! i" t2] c(5) that received_readable [OF c(5)] by simp
  obtain bQuit out cl1 c1 j where r: "client_round ch t1 t2 ?cl = Inr (bQuit, out, cl1)" "link_conn cl1 = Some c1"
    "link_end (us p) (given s p @ pinged ch t1 ?cl) ?ib (down_seen s p) (heard_down s p) c1"
    "deqQueue (client_qMessagesIn cl1) = drop j (heard_down s p)" "j \<le> length (heard_down s p)"
    "j = length (shown s p) \<and> out \<in> {[], [ServerDown]} \<or> j = Suc (length (shown s p)) \<and> length (shown s p) < length ?ib
       \<and> out = report_of t2 (?ib ! length (shown s p))"
    by (rule round_link [OF c(1-4) sz, where ?t2.0 = t2 and rep = "\<lambda>i. report_of t2 (?ib ! i)"]) (use rep in blast)+
  obtain cl2 c2 where cl2: "(if bQuit then client_destructor [] cl1 else Inr cl1) = Inr cl2" "link_conn cl2 = Some c2"
    "link_end (us p) (given s p @ pinged ch t1 ?cl) ?ib (down_seen s p) (heard_down s p) c2"
    "client_qMessagesIn cl2 = client_qMessagesIn cl1"
  proof (cases bQuit)
    case True
    show thesis by (rule disconnect_link [OF r(2,3) sz]) (use that True in simp)
  qed (use that r(2,3) in simp)
  let ?rep = "if out = [] \<or> out = [ServerDown] then [] else [(t2, out)]"
  have reps: "shown_ok ?ib (shown s p @ ?rep) \<and> j = length (shown s p @ ?rep)"
    using r(6)
  proof
    assume "j = Suc (length (shown s p)) \<and> length (shown s p) < length ?ib \<and> out = report_of t2 (?ib ! length (shown s p))"
    then show ?thesis using shown_ok_next [OF c(6), of t2 out] readable_report [of "?ib ! length (shown s p)" t2] c(5) by simp
  qed (use c(6) in auto)
  have q2: "deqQueue (client_qMessagesIn cl2) = drop (length (shown s p @ ?rep)) (heard_down s p)"
    "length (shown s p @ ?rep) \<le> length (heard_down s p)" using r(4,5) cl2(4) reps by auto
  have pg: "\<forall>m \<in> set (pinged ch t1 ?cl). sound m" by (simp add: pinged_def sound_ping)
  from relay_client_step [OF inv p cl2(2,3) q2 pg] reps r(1) cl2(1) show ?thesis
    by (simp add: relay_round_def)
qed

section \<open>Runs\<close>

definition relay_start :: "server_interface \<Rightarrow> (nat \<Rightarrow> client_interface) \<Rightarrow> relay_system" where
  "relay_start sv cls = \<lparr>net_server = sv, net_clients = cls,
     up_skip = (\<lambda>p. length (wire (link_conn (cls p)))), up_seen = (\<lambda>_. 0),
     down_skip = (\<lambda>p. length (wire (conns sv p))), down_seen = (\<lambda>_. 0),
     heard_up = (\<lambda>_. []), heard_down = (\<lambda>_. []), given = (\<lambda>_. []), history = [], shown = (\<lambda>_. [])\<rparr>"

definition uids :: "server_interface \<Rightarrow> nat \<Rightarrow> u32" where
  "uids sv p = (case conns sv p of None \<Rightarrow> 0 | Some c \<Rightarrow> GetID c)"

text \<open>Every connection is open at the start, and no transfer of the server fails.\<close>

fun transfer_fails :: "relay_event \<Rightarrow> bool" where
  "transfer_fails (AtServer p e) = io_fails e"
| "transfer_fails _ = False"

definition healthy :: "nat \<Rightarrow> server_interface \<Rightarrow> relay_event list \<Rightarrow> bool" where
  "healthy n sv es \<longleftrightarrow> list_all (\<lambda>p. alive (Some p) sv) [0..<n] \<and> list_all (\<lambda>e. \<not> transfer_fails e) es"

lemma relay_start_inv:
  assumes "linked n sv cls" "b \<Longrightarrow> \<forall>p < n. alive (Some p) sv"
  shows "relay_inv n (\<lambda>p. wire (link_conn (cls p))) (\<lambda>p. wire (conns sv p)) (uids sv) b (relay_start sv cls)"
proof -
  have "relay_client_ok (uids sv) p (relay_start sv cls)" if "p < n" for p
    using assms that by (auto simp: linked_def relay_client_ok_def relay_start_def uids_def GetID_def inbox_def said_def shown_ok_def)
  moreover have "relay_net n (\<lambda>p. wire (link_conn (cls p))) (\<lambda>p. wire (conns sv p)) (uids sv) (relay_start sv cls)"
    using start_inv [of n "relay_start sv cls"] assms
    by (simp add: relay_net_def relay_start_def fresh_def inbox_def [abs_def] said_def)
  moreover have "all_open n (relay_start sv cls)" if b
    using assms(1) assms(2) [OF that]
    by (fastforce simp: all_open_def relay_start_def linked_def all_listed_def alive_def open_end_def open_conn_def)
  ultimately show ?thesis by (simp add: relay_inv_def)
qed

lemma relay_exec_inv:
  assumes "relay_inv n us ds ids b s" "sound_event n e" "b \<Longrightarrow> \<not> transfer_fails e"
  shows "outcome (relay_faults b) (relay_inv n us ds ids b) (relay_exec e s)"
  using assms relay_server_handler relay_client_handler serve_inv say_inv relay_round_inv by (cases e) simp_all

lemma relay_run_inv:
  assumes "relay_inv n us ds ids b s" "\<forall>e \<in> set es. sound_event n e" "b \<Longrightarrow> \<forall>e \<in> set es. \<not> transfer_fails e"
  shows "outcome (relay_faults b) (relay_inv n us ds ids b) (relay_run es s)"
  using assms
proof (induction es arbitrary: s)
  case (Cons e es)
  then have "outcome (relay_faults b) (relay_inv n us ds ids b) (relay_exec e s)"
    by (intro relay_exec_inv) simp_all
  then show ?case using Cons by (cases "relay_exec e s") simp_all
qed simp

text \<open>What the invariant says about one client.\<close>

lemma relay_client_heard:
  assumes inv: "relay_inv n us ds ids b s" and p: "p < n"
  shows "prefix (map msg (heard_down s p)) (inbox ids (history s) p)"
    and "link_settled p s \<Longrightarrow> said (history s) p = received [] (given s p)
      \<and> map msg (heard_down s p) = inbox ids (history s) p \<and> length (shown s p) = length (inbox ids (history s) p)"
proof -
  let ?ib = "inbox ids (history s) p"
  obtain c where c: "link_end (us p) (given s p) ?ib (down_seen s p) (heard_down s p) c"
    "length (shown s p) \<le> length (heard_down s p)" "\<forall>m \<in> set ?ib. readable m"
    by (rule relay_client_end [OF inv p])
  from link_end_heard [OF c(1)] obtain k where k: "k \<le> length ?ib" "heard_down s p = map (own c) (received [] (take k ?ib))" by blast
  have "received [] (take k ?ib) = take k ?ib" using c(3) by (intro received_readable) (meson in_set_takeD)
  then have h: "map msg (heard_down s p) = take k ?ib" using k(2) by (simp add: own_def comp_def)
  then show "prefix (map msg (heard_down s p)) ?ib" by (simp add: take_is_prefix)
  assume st: "link_settled p s"
  have I: "net_inv n us ds (given s) (inbox ids (history s)) (\<lambda>p. length (said (history s) p)) (\<lambda>p. length (shown s p)) s"
    using inv by (simp add: relay_inv_def relay_net_def)
  from settled_counts [OF I p st] have n: "length (said (history s) p) = length (given s p)" "length (shown s p) = length ?ib" by simp_all
  have "prefix (said (history s) p) (received [] (given s p))" using inv p by (simp add: relay_inv_def relay_client_ok_def)
  then have "said (history s) p = received [] (given s p)" using n(1)
    by (metis append_eq_append_conv append_Nil2 length_received prefix_def)
  moreover have "length (heard_down s p) = length (take k ?ib)" using h by (metis length_map)
  then have "k = length ?ib" using n(2) c(2) k(1) by simp
  ultimately show "said (history s) p = received [] (given s p)
      \<and> map msg (heard_down s p) = ?ib \<and> length (shown s p) = length ?ib" using h n(2) by simp
qed

section \<open>A run with two clients\<close>

definition peer_end :: "nat \<Rightarrow> u32 \<Rightarrow> connection" where
  "peer_end p uid = (new_connection OwnerServer p \<lparr>is_open = True, sent = []\<rparr> new_tsqueue 7)
     \<lparr>pending := [AsyncReadHeader], conn_id := uid\<rparr>"

definition two_links :: server_interface where
  "two_links = new_server\<lparr>conns := [0 \<mapsto> peer_end 0 100, 1 \<mapsto> peer_end 1 101], m_deqConnections := [Some 0, Some 1],
     nIDCounter := 102, m_threadContext := True, next_ptr := 2\<rparr>"

lemma two_links_ok: "linked 2 two_links (\<lambda>_. linked_client)"
proof -
  have "server_inv two_links"
    by (auto simp: server_inv_defs two_links_def new_server_def peer_end_def new_connection_def referenced_def conn_ok_def
        pump_inv_def pump_ok_def outgoing_def data_writes_def simp del: deqQueue_outgoing filter_pending)
  then show ?thesis
    by (auto simp: linked_def server_ok_def all_listed_def two_links_def new_server_def linked_client_def new_client_def
        open_conn_def peer_end_def new_connection_def outgoing_def default_message_def less_2_cases_iff
        simp del: deqQueue_outgoing)
qed

text \<open>Client 0 greets, the server relays the greeting to client 1, and client 1 reports it.\<close>

definition one_greeting :: "relay_event list" where
  "one_greeting = (let m = typed_message MessageAll; r = hello_message 100
     in [Say 0 m, AtClient 0 RunTask,
         AtClient 0 (Complete (AsyncWriteHeader (header_bytes (header m))) False (header_bytes (header m))),
         AtServer 0 (Complete AsyncReadHeader False (header_bytes (header m))), Serve 100, AtServer 1 RunTask,
         AtServer 1 (Complete (AsyncWriteHeader (header_bytes (header r))) False (header_bytes (header r))),
         AtServer 1 (Complete (AsyncWriteBody (body r)) False (body r)),
         AtClient 1 (Complete AsyncReadHeader False (header_bytes (header r))),
         AtClient 1 (Complete (AsyncReadBody 4) False (body r)), Round 1 0 0 5000])"

lemma one_greeting_heard:
  "case relay_run one_greeting (relay_start two_links (\<lambda>_. linked_client)) of Inl _ \<Rightarrow> False
   | Inr s \<Rightarrow> link_settled 1 s \<and> history s = [(0, typed_message MessageAll, [0, 1])] \<and> shown s 1 = [(5000, [Hello 100])]"
  by code_simp

section \<open>A ping without a time\<close>

text \<open>Why a ping must carry a body. A ping without one that follows a message with one is received with
  that body under a header that announces none; the server sends it back as it is, and the client
  takes the body for the next header.\<close>

lemma empty_ping_breaks_framing:
  assumes "reading c" "body xs \<noteq> []" "length (body xs) = 8"
  shows "received [] [xs, typed_message ServerPing] = [xs, typed_message ServerPing\<lparr>body := body xs\<rparr>]"
    and "\<not> well_sized (typed_message ServerPing\<lparr>body := body xs\<rparr>)"
    and "feed (frame (typed_message ServerPing\<lparr>body := body xs\<rparr>) @ bs) c
      = rbind (conn_exec (Complete AsyncReadHeader False (body xs))
          (deliver (typed_message ServerPing\<lparr>body := body (m_msgTemporaryIn c)\<rparr>) c)) (feed bs)"
proof -
  let ?m = "typed_message ServerPing" and ?d = "deliver (typed_message ServerPing\<lparr>body := body (m_msgTemporaryIn c)\<rparr>) c"
  show "received [] [xs, ?m] = [xs, ?m\<lparr>body := body xs\<rparr>]" using assms(2) by simp
  show "\<not> well_sized (?m\<lparr>body := body xs\<rparr>)"
    using assms(2) by (simp add: well_sized_def typed_message_def default_message_def default_header_def)
  have ws: "well_sized ?m" by (simp add: well_sized_def typed_message_def default_message_def default_header_def)
  have "feed (frame (?m\<lparr>body := body xs\<rparr>) @ bs) c = feed (header_bytes (header ?m) @ body xs @ bs) c"
    by (simp add: frame_def)
  also have "\<dots> = feed (body xs @ bs) ?d"
    using feed_header [OF assms(1), of "header ?m" "body xs @ bs"] exec_header [OF assms(1) refl ws] by (simp del: conn_exec.simps)
  also have "\<dots> = rbind (conn_exec (Complete AsyncReadHeader False (body xs)) ?d) (feed bs)"
    using assms by (subst feed.simps) (simp add: reading_def del: conn_exec.simps)
  finally show "feed (frame (?m\<lparr>body := body xs\<rparr>) @ bs) c = rbind (conn_exec (Complete AsyncReadHeader False (body xs)) ?d) (feed bs)" .
qed

section \<open>Properties\<close>



end
