(* ===== verification/ChatMessage.thy ===== *)
theory ChatMessage
  imports Prelude Text
begin

text \<open>
  \<open>src/src/include/chat_message.hpp\<close>: the chat message, a fixed buffer of a four-character
  decimal header and a body of at most 512 characters, with the codec of its header. A member
  of the C++ class ends in an underscore there; \<open>cdata\<close> is \<open>data_\<close> and \<open>cbody_length\<close> is
  \<open>body_length_\<close>.
\<close>

section \<open>Data and operations\<close>

definition header_length :: nat where
  "header_length = 4"

definition max_body_length :: size_t where
  "max_body_length = 512"

record chat_message =
  cdata :: string
  cbody_length :: size_t

text \<open>The constructor does not initialise the buffer: its content is a parameter.\<close>

definition new_chat_message :: "string \<Rightarrow> chat_message" where
  "new_chat_message junk = \<lparr>cdata = junk, cbody_length = 0\<rparr>"

definition chat_length :: "chat_message \<Rightarrow> size_t" where
  "chat_length m = of_nat header_length + cbody_length m"

definition chat_body :: "chat_message \<Rightarrow> string" where
  "chat_body m = drop header_length (cdata m)"

definition set_body_length :: "size_t \<Rightarrow> chat_message \<Rightarrow> chat_message" where
  "set_body_length new_length m =
     (let m = m\<lparr>cbody_length := new_length\<rparr>
      in if cbody_length m > max_body_length then m\<lparr>cbody_length := max_body_length\<rparr> else m)"

text \<open>\<open>strncat\<close> copies up to four characters and stops at a NUL; the result of \<open>atoi\<close> is converted
  to \<open>size_t\<close>.\<close>

definition header_text :: "string \<Rightarrow> string" where
  "header_text d = takeWhile (\<lambda>c. c \<noteq> CHR 0x00) (take header_length d)"

definition decode_header :: "chat_message \<Rightarrow> bool \<times> chat_message" where
  "decode_header m =
     (let m = m\<lparr>cbody_length := word_of_int (atoi (header_text (cdata m)))\<rparr>
      in if cbody_length m > max_body_length then (False, m\<lparr>cbody_length := 0\<rparr>) else (True, m))"

text \<open>\<open>sprintf\<close> with \<open>%4d\<close> writes at least four characters and a NUL into five; more would overflow
  the array.\<close>

definition encode_header :: "chat_message \<Rightarrow> chat_message result" where
  "encode_header m =
     (let h = pad_left 4 (dec_int (sint (ucast (cbody_length m) :: 32 word)))
      in if length h \<le> header_length then Inr (m\<lparr>cdata := memcpy_at 0 h (cdata m)\<rparr>) else Inl OutOfBounds)"

text \<open>\<open>memcpy(msg.body(), text, n)\<close>.\<close>

definition copy_body :: "string \<Rightarrow> chat_message \<Rightarrow> chat_message result" where
  "copy_body text m =
     (if header_length + length text \<le> length (cdata m)
      then Inr (m\<lparr>cdata := memcpy_at header_length text (cdata m)\<rparr>) else Inl OutOfBounds)"

text \<open>The bytes that a write of the message puts on a socket.\<close>

definition wire :: "chat_message \<Rightarrow> string" where
  "wire m = take (unat (chat_length m)) (cdata m)"

section \<open>The header codec\<close>

text \<open>The buffer has its size and the length stays inside it.\<close>

definition chat_ok :: "chat_message \<Rightarrow> bool" where
  "chat_ok m \<longleftrightarrow> length (cdata m) = 516 \<and> unat (cbody_length m) \<le> 512"

lemma max_le_iff: "n \<le> max_body_length \<longleftrightarrow> unat n \<le> 512"
  by (simp add: max_body_length_def word_le_nat_alt)

lemma cbody_set_body_length: "unat (cbody_length (set_body_length n m)) = min (unat n) 512"
  using max_le_iff [of n] by (auto simp: set_body_length_def Let_def max_body_length_def word_less_nat_alt)

lemma cdata_set_body_length [simp]: "cdata (set_body_length n m) = cdata m"
  by (simp add: set_body_length_def Let_def)

lemma unat_chat_length: "unat (cbody_length m) \<le> 512 \<Longrightarrow> unat (chat_length m) = 4 + unat (cbody_length m)"
  by (simp add: chat_length_def header_length_def unat_word_ariths)

text \<open>The header that is written.\<close>

definition header_chars :: "chat_message \<Rightarrow> string" where
  "header_chars m = pad_left 4 (dec (unat (cbody_length m)))"

lemma length_header_chars:
  assumes "unat (cbody_length m) \<le> 512"
  shows "length (header_chars m) = 4"
  using assms length_dec_le [of "unat (cbody_length m)" 4] by (simp add: header_chars_def length_pad_left)

lemma encode_header_eq:
  assumes "unat (cbody_length m) \<le> 512"
  shows "encode_header m = Inr (m\<lparr>cdata := memcpy_at 0 (header_chars m) (cdata m)\<rparr>)"
proof -
  define n where "n = unat (cbody_length m)"
  have n: "cbody_length m = word_of_nat n" "n \<le> 512" "unat (cbody_length m) = n"
    using assms by (simp_all add: n_def)
  have "(ucast (cbody_length m) :: 32 word) = word_of_nat n"
    by (simp add: n(1) unsigned_of_nat word_of_nat_eq_iff)
  then have "sint (ucast (cbody_length m) :: 32 word) = int n" using n(2)
    by (simp add: signed_of_nat signed_take_bit_int_eq_self)
  then show ?thesis using length_header_chars [OF assms] n(3)
    by (simp add: encode_header_def header_chars_def dec_int_def header_length_def Let_def)
qed

lemma header_chars_no_nul: "CHR 0x00 \<notin> set (header_chars m)"
proof -
  have "\<not> is_digit (CHR 0x00)" by (simp add: is_digit_def)
  then show ?thesis by (auto simp: header_chars_def pad_left_def dest: dec_digits)
qed

lemma header_text_chars:
  assumes "take 4 d = header_chars m"
  shows "header_text d = header_chars m"
  using assms header_chars_no_nul [of m] by (auto simp: header_text_def header_length_def intro!: takeWhile_eq_all_conv [THEN iffD2])

lemma atoi_bound: "length s \<le> 4 \<Longrightarrow> \<bar>atoi s\<bar> < 10000"
proof -
  assume s: "length s \<le> 4"
  have len: "length (skip_spaces s) \<le> 4"
    using length_dropWhile_le [of is_space s] s by (simp add: skip_spaces_def)
  have b: "digits_loop 0 cs < 10000" if "length cs \<le> 4" for cs
  proof -
    have "(10 :: nat) ^ length cs \<le> 10 ^ 4" using that by (intro power_increasing) simp_all
    with digits_loop_bound [of 0 cs] show ?thesis by simp
  qed
  show ?thesis
  proof (cases "skip_spaces s")
    case (Cons c cs)
    then have "length cs \<le> 4" "length (c # cs) \<le> 4" using len by simp_all
    from b [OF this(1)] b [OF this(2)] show ?thesis using Cons
      by (simp add: atoi_def del: digits_loop.simps)
  qed (simp add: atoi_def)
qed

lemma length_header_text: "length (header_text d) \<le> 4"
  using length_takeWhile_le [of "\<lambda>c. c \<noteq> CHR 0x00" "take 4 d"] by (simp add: header_text_def header_length_def)

lemma uint_small: "0 \<le> v \<Longrightarrow> v < 10000 \<Longrightarrow> uint (word_of_int v :: size_t) = v"
  by (simp add: unsigned_of_int take_bit_int_eq_self)

lemma unat_small: "0 \<le> v \<Longrightarrow> v \<le> 512 \<Longrightarrow> unat (word_of_int v :: size_t) = nat v"
  using uint_small [of v] by (simp add: unat_eq_nat_uint)

lemma size_of_int:
  assumes "\<bar>v\<bar> < 10000"
  shows "word_of_int v \<le> max_body_length \<longleftrightarrow> 0 \<le> v \<and> v \<le> 512"
proof (cases "0 \<le> v")
  case True
  then show ?thesis using assms uint_small [of v] by (simp add: max_body_length_def word_le_def)
next
  case False
  have "(v + 2 ^ 64) mod 2 ^ 64 = v + 2 ^ 64" by (rule mod_pos_pos_trivial) (use assms False in simp_all)
  then have "uint (word_of_int v :: size_t) = v + 2 ^ 64" by (simp add: unsigned_of_int take_bit_eq_mod)
  then show ?thesis using False assms by (simp add: max_body_length_def word_le_def)
qed

text \<open>What \<open>decode_header\<close> accepts.\<close>

lemma decode_header_eq:
  "decode_header m =
    (let v = atoi (header_text (cdata m))
     in if 0 \<le> v \<and> v \<le> 512 then (True, m\<lparr>cbody_length := word_of_int v\<rparr>) else (False, m\<lparr>cbody_length := 0\<rparr>))"
  using size_of_int [OF atoi_bound [OF length_header_text], of "cdata m"]
  by (auto simp: decode_header_def Let_def not_le [symmetric])

lemma decode_header_cases:
  obtains (accepted) v where "0 \<le> v" "v \<le> 512" "v = atoi (header_text (cdata m))"
      "decode_header m = (True, m\<lparr>cbody_length := word_of_int v\<rparr>)"
  | (refused) "\<not> (0 \<le> atoi (header_text (cdata m)) \<and> atoi (header_text (cdata m)) \<le> 512)"
      "decode_header m = (False, m\<lparr>cbody_length := 0\<rparr>)"
  using decode_header_eq [of m] by (auto simp: Let_def split: if_splits)

lemma decode_header_ok:
  assumes "decode_header m = (ok, m')"
  shows "unat (cbody_length m') \<le> 512" "cdata m' = cdata m" "\<not> ok \<Longrightarrow> cbody_length m' = 0"
  using assms by (cases rule: decode_header_cases [of m]; auto simp: unat_small)+

lemma decode_header_chars:
  assumes "unat (cbody_length m) \<le> 512" "take 4 d = header_chars m"
  shows "decode_header \<lparr>cdata = d, cbody_length = n\<rparr> = (True, \<lparr>cdata = d, cbody_length = cbody_length m\<rparr>)"
proof -
  have "atoi (header_text d) = int (unat (cbody_length m))"
    using header_text_chars [OF assms(2)] atoi_pad_dec [of 4 "unat (cbody_length m)"] by (simp add: header_chars_def)
  moreover have "int (unat (cbody_length m)) \<le> 512" using assms(1) by linarith
  ultimately show ?thesis by (simp add: decode_header_eq Let_def)
qed

section \<open>Properties\<close>

text \<open>C26: the header codec. \<open>encode_header\<close> writes the length as four characters before the body and
  leaves the body alone; any buffer that starts with those characters decodes to that length.\<close>

theorem chat_header_roundtrip:
  assumes "chat_ok m"
  shows "\<exists>m'. encode_header m = Inr m' \<and> chat_ok m' \<and> chat_body m' = chat_body m
     \<and> (\<forall>d n. take 4 d = take 4 (cdata m') \<longrightarrow>
          decode_header \<lparr>cdata = d, cbody_length = n\<rparr> = (True, \<lparr>cdata = d, cbody_length = cbody_length m\<rparr>))"
proof -
  let ?m' = "m\<lparr>cdata := memcpy_at 0 (header_chars m) (cdata m)\<rparr>"
  have ok: "unat (cbody_length m) \<le> 512" "length (cdata m) = 516" using assms by (simp_all add: chat_ok_def)
  note len = length_header_chars [OF ok(1)]
  have "chat_ok ?m'" using ok len by (simp add: chat_ok_def)
  moreover have "chat_body ?m' = chat_body m" "take 4 (cdata ?m') = header_chars m"
    using len by (simp_all add: chat_body_def header_length_def memcpy_at_def)
  ultimately show ?thesis using encode_header_eq [OF ok(1)] decode_header_chars [OF ok(1)] by auto
qed

theorem chat_header_roundtrip_witness:
  "\<exists>m'. encode_header (set_body_length 513 (new_chat_message (replicate 516 CHR ''x''))) = Inr m'
     \<and> (\<exists>m''. decode_header m' = (True, m'') \<and> unat (cbody_length m'') = 512)"
proof -
  let ?m = "set_body_length 513 (new_chat_message (replicate 516 CHR ''x''))"
  have bl: "unat (cbody_length ?m) = 512" by (simp add: cbody_set_body_length)
  then have "chat_ok ?m" by (simp add: chat_ok_def new_chat_message_def)
  from chat_header_roundtrip [OF this] obtain m' where m': "encode_header ?m = Inr m'"
    "\<forall>d n. take 4 d = take 4 (cdata m') \<longrightarrow>
          decode_header \<lparr>cdata = d, cbody_length = n\<rparr> = (True, \<lparr>cdata = d, cbody_length = cbody_length ?m\<rparr>)" by blast
  have "decode_header m' = (True, \<lparr>cdata = cdata m', cbody_length = cbody_length ?m\<rparr>)"
    using m'(2) by (cases m') simp
  then show ?thesis using m'(1) bl by auto
qed

text \<open>C36: whatever four characters arrive, the length that \<open>decode_header\<close> leaves is at most 512,
  so the body that is read next fits the buffer; it accepts exactly the headers whose number is
  between 0 and 512 (text without digits counts as 0, a negative number is refused), and a
  refused header leaves length 0. The setter clamps in the same way.\<close>

theorem chat_body_always_fits:
  "(let v = atoi (header_text (cdata m)); (ok, m') = decode_header m in
     ok = (0 \<le> v \<and> v \<le> 512) \<and> int (unat (cbody_length m')) = (if ok then v else 0)
     \<and> unat (cbody_length m') \<le> 512 \<and> cdata m' = cdata m)
   \<and> unat (cbody_length (set_body_length n m)) = min (unat n) 512"
  by (cases rule: decode_header_cases [of m]) (simp_all add: cbody_set_body_length unat_small uint_small Let_def nat_le_iff)

end
