(* ===== verification/ChatRoom.thy ===== *)
theory ChatRoom
  imports ChatMessage WritePump
begin

text \<open>
  \<open>src/src/network/server.cpp\<close>: the chat server, with its room (participants and the last hundred
  messages) and its sessions (a reading chain and a queue of messages to write). Sessions are
  identified by numbers, in the order of the pointers that the room's set compares. The
  handlers run on one thread; which operation completes next, and how, is the environment's
  choice.
\<close>

section \<open>Sessions\<close>

datatype chat_op = ChReadHeader | ChReadBody nat | ChWrite string

text \<open>\<open>ss_sent\<close> is what the session's socket has accepted, \<open>ss_ops\<close> the operations in progress.\<close>

record chat_session =
  ss_sent :: string
  read_msg :: chat_message
  write_msgs :: "chat_message list"
  ss_ops :: "chat_op list"

definition new_session :: "string \<Rightarrow> chat_session" where
  "new_session junk = \<lparr>ss_sent = [], read_msg = new_chat_message junk, write_msgs = [], ss_ops = []\<rparr>"

definition start_chat_op :: "chat_op \<Rightarrow> chat_session \<Rightarrow> chat_session" where
  "start_chat_op op ss = ss\<lparr>ss_ops := ss_ops ss @ [op]\<rparr>"

definition do_read_header :: "chat_session \<Rightarrow> chat_session" where
  "do_read_header ss = start_chat_op ChReadHeader ss"

text \<open>A read or a write whose buffer does not lie in the message is undefined.\<close>

definition do_read_body :: "chat_session \<Rightarrow> chat_session result" where
  "do_read_body ss =
     (let n = unat (cbody_length (read_msg ss))
      in if header_length + n \<le> length (cdata (read_msg ss)) then Inr (start_chat_op (ChReadBody n) ss)
         else Inl OutOfBounds)"

definition do_write :: "chat_session \<Rightarrow> chat_session result" where
  "do_write ss = (case write_msgs ss of
       [] \<Rightarrow> Inl EmptyDeque
     | m # _ \<Rightarrow> if unat (chat_length m) \<le> length (cdata m) then Inr (start_chat_op (ChWrite (wire m)) ss)
                else Inl OutOfBounds)"

definition session_deliver :: "chat_message \<Rightarrow> chat_session \<Rightarrow> chat_session result" where
  "session_deliver m ss =
     (let write_in_progress = (write_msgs ss \<noteq> []);
          ss = ss\<lparr>write_msgs := write_msgs ss @ [m]\<rparr>
      in if \<not> write_in_progress then do_write ss else Inr ss)"

section \<open>The room\<close>

definition max_recent_msgs :: nat where
  "max_recent_msgs = 100"

text \<open>The room and the sessions of one server.\<close>

record chat_server =
  participants :: "nat list"
  recent_msgs :: "chat_message list"
  sessions :: "nat \<Rightarrow> chat_session option"
  next_session :: nat

definition new_chat_server :: chat_server where
  "new_chat_server = \<lparr>participants = [], recent_msgs = [], sessions = Map.empty, next_session = 0\<rparr>"

definition on_session ::
  "nat \<Rightarrow> (chat_session \<Rightarrow> chat_session result) \<Rightarrow> chat_server \<Rightarrow> chat_server result" where
  "on_session p f s = (case sessions s p of
       None \<Rightarrow> Inl NullDeref
     | Some ss \<Rightarrow> rbind (f ss) (\<lambda>ss. Inr (s\<lparr>sessions := (sessions s)(p \<mapsto> ss)\<rparr>)))"

fun deliver_recent :: "nat \<Rightarrow> chat_message list \<Rightarrow> chat_server \<Rightarrow> chat_server result" where
  "deliver_recent p [] s = Inr s"
| "deliver_recent p (m # ms) s = rbind (on_session p (session_deliver m) s) (deliver_recent p ms)"

definition room_join :: "nat \<Rightarrow> chat_server \<Rightarrow> chat_server result" where
  "room_join p s =
     (let s = s\<lparr>participants := (if p \<in> set (participants s) then participants s else insort p (participants s))\<rparr>
      in deliver_recent p (recent_msgs s) s)"

definition room_leave :: "nat \<Rightarrow> chat_server \<Rightarrow> chat_server" where
  "room_leave p s = s\<lparr>participants := removeAll p (participants s)\<rparr>"

function trim_recent :: "chat_message list \<Rightarrow> chat_message list" where
  "trim_recent ms = (if length ms > max_recent_msgs then trim_recent (tl ms) else ms)"
  by pat_completeness auto
termination
  by (relation "measure length") (auto simp: max_recent_msgs_def)

declare trim_recent.simps [simp del]

fun deliver_each :: "nat list \<Rightarrow> chat_message \<Rightarrow> chat_server \<Rightarrow> chat_server result" where
  "deliver_each [] m s = Inr s"
| "deliver_each (p # ps) m s = rbind (on_session p (session_deliver m) s) (deliver_each ps m)"

definition room_deliver :: "chat_message \<Rightarrow> chat_server \<Rightarrow> chat_server result" where
  "room_deliver m s =
     (let s = s\<lparr>recent_msgs := trim_recent (recent_msgs s @ [m])\<rparr>
      in deliver_each (participants s) m s)"

section \<open>The handlers\<close>

definition upd_session :: "nat \<Rightarrow> chat_session \<Rightarrow> chat_server \<Rightarrow> chat_server" where
  "upd_session p ss s = s\<lparr>sessions := (sessions s)(p \<mapsto> ss)\<rparr>"

definition store_text :: "nat \<Rightarrow> string \<Rightarrow> chat_session \<Rightarrow> chat_session" where
  "store_text i bs ss = ss\<lparr>read_msg := (read_msg ss)\<lparr>cdata := memcpy_at i bs (cdata (read_msg ss))\<rparr>\<rparr>"

definition read_header_done ::
  "nat \<Rightarrow> bool \<Rightarrow> string \<Rightarrow> chat_session \<Rightarrow> chat_server \<Rightarrow> chat_server result" where
  "read_header_done p ec bs ss s =
     (let ss = store_text 0 bs ss
      in if \<not> ec then
           (case decode_header (read_msg ss) of (ok, m) \<Rightarrow>
              if ok then rbind (do_read_body (ss\<lparr>read_msg := m\<rparr>)) (\<lambda>ss. Inr (upd_session p ss s))
              else Inr (room_leave p (upd_session p (ss\<lparr>read_msg := m\<rparr>) s)))
         else Inr (room_leave p (upd_session p ss s)))"

definition read_body_done ::
  "nat \<Rightarrow> bool \<Rightarrow> string \<Rightarrow> chat_session \<Rightarrow> chat_server \<Rightarrow> chat_server result" where
  "read_body_done p ec bs ss s =
     (let ss = store_text header_length bs ss
      in if \<not> ec then
           rbind (room_deliver (read_msg ss) (upd_session p ss s))
             (on_session p (\<lambda>ss. Inr (do_read_header ss)))
         else Inr (room_leave p (upd_session p ss s)))"

definition write_popped :: "chat_session \<Rightarrow> chat_session result" where
  "write_popped ss = (case write_msgs ss of
       [] \<Rightarrow> Inl EmptyDeque
     | _ # ms \<Rightarrow> (let ss = ss\<lparr>write_msgs := ms\<rparr> in if ms \<noteq> [] then do_write ss else Inr ss))"

definition write_done ::
  "nat \<Rightarrow> bool \<Rightarrow> string \<Rightarrow> chat_session \<Rightarrow> chat_server \<Rightarrow> chat_server result" where
  "write_done p ec bs ss s =
     (let ss = ss\<lparr>ss_sent := ss_sent ss @ bs\<rparr>
      in if \<not> ec then rbind (write_popped ss) (\<lambda>ss. Inr (upd_session p ss s))
         else Inr (room_leave p (upd_session p ss s)))"

text \<open>The accept handler: a new session joins the room and reads; \<open>junk\<close> is what its message
  buffer holds.\<close>

definition session_start :: "nat \<Rightarrow> chat_server \<Rightarrow> chat_server result" where
  "session_start p s = rbind (room_join p s) (on_session p (\<lambda>ss. Inr (do_read_header ss)))"

definition accept_session :: "bool \<Rightarrow> string \<Rightarrow> chat_server \<Rightarrow> chat_server result" where
  "accept_session ec junk s =
     (if \<not> ec then
        let p = next_session s;
            s = s\<lparr>sessions := (sessions s)(p \<mapsto> new_session junk), next_session := Suc p\<rparr>
        in session_start p s
      else Inr s)"

section \<open>Events\<close>

datatype chat_event = ChAccept bool string | ChDone nat chat_op bool string

fun chat_transfer :: "chat_op \<Rightarrow> bool \<Rightarrow> string \<Rightarrow> bool" where
  "chat_transfer ChReadHeader ec bs = (if ec then length bs < 4 else length bs = 4)"
| "chat_transfer (ChReadBody n) ec bs = (if ec then length bs < n else length bs = n)"
| "chat_transfer (ChWrite w) ec bs = (if ec then prefix bs w else bs = w)"

fun chat_complete ::
  "nat \<Rightarrow> chat_op \<Rightarrow> bool \<Rightarrow> string \<Rightarrow> chat_session \<Rightarrow> chat_server \<Rightarrow> chat_server result" where
  "chat_complete p ChReadHeader = read_header_done p"
| "chat_complete p (ChReadBody n) = read_body_done p"
| "chat_complete p (ChWrite w) = write_done p"

fun chat_exec :: "chat_event \<Rightarrow> chat_server \<Rightarrow> chat_server result" where
  "chat_exec (ChAccept ec junk) s = (if length junk = 516 then accept_session ec junk s else Inr s)"
| "chat_exec (ChDone p op ec bs) s =
     (case sessions s p of
        None \<Rightarrow> Inr s
      | Some ss \<Rightarrow>
          if op \<in> set (ss_ops ss) \<and> chat_transfer op ec bs
          then chat_complete p op ec bs (ss\<lparr>ss_ops := remove1 op (ss_ops ss)\<rparr>) s
          else Inr s)"

abbreviation chat_run :: "chat_event list \<Rightarrow> chat_server \<Rightarrow> chat_server result" where
  "chat_run \<equiv> run_events chat_exec"

section \<open>Queueing a message\<close>

definition enqueue :: "chat_message \<Rightarrow> chat_session \<Rightarrow> chat_session" where
  "enqueue m ss = ss\<lparr>write_msgs := write_msgs ss @ [m],
     ss_ops := ss_ops ss @ (if write_msgs ss = [] then [ChWrite (wire m)] else [])\<rparr>"

lemma chat_ok_fits: "chat_ok m \<Longrightarrow> unat (chat_length m) \<le> length (cdata m)"
  by (simp add: chat_ok_def unat_chat_length)

lemma session_deliver_eq: "chat_ok m \<Longrightarrow> session_deliver m ss = Inr (enqueue m ss)"
  by (simp add: session_deliver_def enqueue_def Let_def do_write_def start_chat_op_def chat_ok_fits)

fun is_chat_write :: "chat_op \<Rightarrow> bool" where
  "is_chat_write (ChWrite _) = True"
| "is_chat_write _ = False"

definition chat_writes :: "chat_session \<Rightarrow> chat_op list" where
  "chat_writes ss = filter is_chat_write (ss_ops ss)"

definition chat_reads :: "chat_session \<Rightarrow> chat_op list" where
  "chat_reads ss = filter (\<lambda>op. \<not> is_chat_write op) (ss_ops ss)"

fun chat_pump :: "chat_message list \<Rightarrow> chat_op list \<Rightarrow> bool" where
  "chat_pump [] ops = (ops = [])"
| "chat_pump (m # ms) ops = (ops = [ChWrite (wire m)])"

definition chat_ready :: "chat_session \<Rightarrow> bool" where
  "chat_ready ss \<longleftrightarrow> chat_pump (write_msgs ss) (chat_writes ss) \<and> (\<forall>m \<in> set (write_msgs ss). chat_ok m)"

definition chat_dead :: "chat_session \<Rightarrow> bool" where
  "chat_dead ss \<longleftrightarrow> chat_writes ss = [] \<and> write_msgs ss \<noteq> []"

text \<open>The reading chain: at most one read in progress, into a buffer that holds it.\<close>

definition chat_reading :: "chat_session \<Rightarrow> bool" where
  "chat_reading ss \<longleftrightarrow> chat_ok (read_msg ss)
     \<and> chat_reads ss \<in> {[], [ChReadHeader], [ChReadBody (unat (cbody_length (read_msg ss)))]}"

definition session_inv :: "chat_session \<Rightarrow> bool" where
  "session_inv ss \<longleftrightarrow> chat_reading ss \<and> (chat_ready ss \<or> chat_dead ss)"

definition stream :: "chat_session \<Rightarrow> string" where
  "stream ss = ss_sent ss @ concat (map wire (write_msgs ss))"

lemma enqueue_simps [simp]:
  "write_msgs (enqueue m ss) = write_msgs ss @ [m]" "read_msg (enqueue m ss) = read_msg ss"
  "ss_sent (enqueue m ss) = ss_sent ss" "chat_reads (enqueue m ss) = chat_reads ss"
  "chat_writes (enqueue m ss) = chat_writes ss @ (if write_msgs ss = [] then [ChWrite (wire m)] else [])"
  "stream (enqueue m ss) = stream ss @ wire m"
  by (simp_all add: enqueue_def chat_reads_def chat_writes_def stream_def)

lemma enqueue_reading [simp]: "chat_reading (enqueue m ss) = chat_reading ss"
  by (simp add: chat_reading_def)

lemma enqueue_ready: "chat_ready ss \<Longrightarrow> chat_ok m \<Longrightarrow> chat_ready (enqueue m ss)"
  by (cases "write_msgs ss") (auto simp: chat_ready_def)

lemma start_read_simps [simp]:
  "\<not> is_chat_write op \<Longrightarrow> chat_writes (start_chat_op op ss) = chat_writes ss"
  "\<not> is_chat_write op \<Longrightarrow> chat_reads (start_chat_op op ss) = chat_reads ss @ [op]"
  "is_chat_write op \<Longrightarrow> chat_writes (start_chat_op op ss) = chat_writes ss @ [op]"
  "is_chat_write op \<Longrightarrow> chat_reads (start_chat_op op ss) = chat_reads ss"
  "read_msg (start_chat_op op ss) = read_msg ss" "write_msgs (start_chat_op op ss) = write_msgs ss"
  "ss_sent (start_chat_op op ss) = ss_sent ss" "stream (start_chat_op op ss) = stream ss"
  by (simp_all add: start_chat_op_def chat_writes_def chat_reads_def stream_def)

text \<open>The completion of the write in progress.\<close>

definition session_written :: "chat_session \<Rightarrow> chat_session result" where
  "session_written ss = (case write_msgs ss of
       [] \<Rightarrow> Inr ss
     | m # _ \<Rightarrow> write_popped (ss\<lparr>ss_ops := remove1 (ChWrite (wire m)) (ss_ops ss),
                                ss_sent := ss_sent ss @ wire m\<rparr>))"

lemma remove_write:
  assumes "filter is_chat_write ops = [ChWrite w]"
  shows "filter is_chat_write (remove1 (ChWrite w) ops) = []"
    "filter (\<lambda>op. \<not> is_chat_write op) (remove1 (ChWrite w) ops) = filter (\<lambda>op. \<not> is_chat_write op) ops"
  using assms by (simp_all add: filter_remove1 remove1_idem)

lemma write_popped_ready:
  assumes "write_msgs ss = m # ms" "chat_writes ss = []" "\<forall>m \<in> set ms. chat_ok m"
  shows "\<exists>ss'. write_popped ss = Inr ss' \<and> chat_ready ss' \<and> write_msgs ss' = ms \<and> ss_sent ss' = ss_sent ss
     \<and> read_msg ss' = read_msg ss \<and> chat_reads ss' = chat_reads ss"
proof (cases ms)
  case Nil
  then show ?thesis using assms by (simp add: write_popped_def chat_ready_def chat_writes_def chat_reads_def)
next
  case (Cons m1 ms1)
  then show ?thesis using assms
    by (simp add: write_popped_def do_write_def chat_ok_fits chat_ready_def)
      (simp add: chat_writes_def chat_reads_def)
qed

lemma session_written_ready:
  assumes "chat_ready ss" "write_msgs ss = m # ms"
  shows "\<exists>ss'. session_written ss = Inr ss' \<and> chat_ready ss' \<and> write_msgs ss' = ms \<and> stream ss' = stream ss
     \<and> read_msg ss' = read_msg ss \<and> chat_reads ss' = chat_reads ss"
proof -
  let ?ss = "ss\<lparr>ss_ops := remove1 (ChWrite (wire m)) (ss_ops ss), ss_sent := ss_sent ss @ wire m\<rparr>"
  have w: "filter is_chat_write (ss_ops ss) = [ChWrite (wire m)]"
    using assms by (simp add: chat_ready_def chat_writes_def)
  have "write_msgs ?ss = m # ms" "chat_writes ?ss = []" "\<forall>m \<in> set ms. chat_ok m"
    using assms remove_write [OF w] by (simp_all add: chat_ready_def chat_writes_def)
  from write_popped_ready [OF this] show ?thesis using assms(2) remove_write [OF w]
    by (auto simp: session_written_def stream_def chat_reads_def)
qed

interpretation session_pump: write_pump chat_ok write_msgs chat_ready session_deliver session_written
proof unfold_locales
  fix ss m
  assume "chat_ready ss" "chat_ok m"
  then show "\<exists>ss'. session_deliver m ss = Inr ss' \<and> chat_ready ss' \<and> write_msgs ss' = write_msgs ss @ [m]"
    by (simp add: session_deliver_eq enqueue_ready)
next
  fix ss m ms
  assume "chat_ready ss" "write_msgs ss = m # ms"
  from session_written_ready [OF this]
  show "\<exists>ss'. session_written ss = Inr ss' \<and> chat_ready ss' \<and> write_msgs ss' = ms" by blast
qed

section \<open>The room as a function\<close>

lemma trim_recent_eq: "trim_recent ms = drop (length ms - 100) ms"
proof (induction ms rule: trim_recent.induct)
  case (1 ms)
  show ?case
  proof (cases "length ms > 100")
    case True
    then have "length ms - 100 = Suc (length (tl ms) - 100)" by simp
    then have "drop (length ms - 100) ms = drop (length (tl ms) - 100) (tl ms)" by (simp only: drop_Suc)
    with 1 True show ?thesis by (subst trim_recent.simps) (simp add: max_recent_msgs_def)
  next
    case False
    then show ?thesis by (subst trim_recent.simps) (simp add: max_recent_msgs_def)
  qed
qed

lemma on_session_eq: "sessions s p = Some ss \<Longrightarrow> on_session p f s = rbind (f ss) (\<lambda>ss. Inr (upd_session p ss s))"
  by (simp add: on_session_def upd_session_def)

lemma upd_session_simps [simp]:
  "participants (upd_session p ss s) = participants s" "recent_msgs (upd_session p ss s) = recent_msgs s"
  "next_session (upd_session p ss s) = next_session s" "sessions (upd_session p ss s) = (sessions s)(p \<mapsto> ss)"
  by (simp_all add: upd_session_def)

lemma deliver_each_eq:
  assumes "chat_ok m" "distinct ps" "\<forall>p \<in> set ps. sessions s p \<noteq> None"
  shows "deliver_each ps m s = Inr (s\<lparr>sessions := (\<lambda>p. if p \<in> set ps then map_option (enqueue m) (sessions s p) else sessions s p)\<rparr>)"
  using assms(2,3)
proof (induction ps arbitrary: s)
  case (Cons p ps)
  then obtain ss where ss: "sessions s p = Some ss" by auto
  have "deliver_each ps m (upd_session p (enqueue m ss) s)
      = Inr (upd_session p (enqueue m ss) s\<lparr>sessions := (\<lambda>q. if q \<in> set ps
          then map_option (enqueue m) (sessions (upd_session p (enqueue m ss) s) q)
          else sessions (upd_session p (enqueue m ss) s) q)\<rparr>)"
    by (rule Cons.IH) (use Cons.prems in auto)
  moreover have "(\<lambda>q. if q \<in> set ps then map_option (enqueue m) (sessions (upd_session p (enqueue m ss) s) q)
          else sessions (upd_session p (enqueue m ss) s) q)
      = (\<lambda>q. if q \<in> set (p # ps) then map_option (enqueue m) (sessions s q) else sessions s q)"
    using Cons.prems(1) ss by (auto simp: fun_eq_iff)
  ultimately show ?case using assms(1) ss
    by (simp add: on_session_eq session_deliver_eq upd_session_def)
qed simp

lemma deliver_recent_eq:
  assumes "\<forall>m \<in> set ms. chat_ok m" "sessions s p = Some ss"
  shows "deliver_recent p ms s = Inr (upd_session p (fold enqueue ms ss) s)"
  using assms
proof (induction ms arbitrary: s ss)
  case Nil
  then show ?case by (cases s) (auto simp: upd_session_def fun_upd_idem)
next
  case (Cons m ms)
  from Cons.IH [of "upd_session p (enqueue m ss) s" "enqueue m ss"] Cons.prems show ?case
    by (simp add: on_session_eq session_deliver_eq upd_session_def)
qed

section \<open>History and invariant\<close>

text \<open>The message an event delivers to the room, and the messages a run delivers.\<close>

fun delivered :: "chat_event \<Rightarrow> chat_server \<Rightarrow> chat_message list" where
  "delivered (ChDone p (ChReadBody n) False bs) s = (case sessions s p of
       None \<Rightarrow> []
     | Some ss \<Rightarrow> if ChReadBody n \<in> set (ss_ops ss) \<and> length bs = n
                 then [read_msg (store_text header_length bs ss)] else [])"
| "delivered _ s = []"

fun chat_history :: "chat_event list \<Rightarrow> chat_server \<Rightarrow> chat_message list" where
  "chat_history [] s = []"
| "chat_history (e # es) s = delivered e s @ (case chat_exec e s of Inl _ \<Rightarrow> [] | Inr s' \<Rightarrow> chat_history es s')"

text \<open>A participant's stream: every message of the history from some point on, which is at most
  a hundred messages before the point \<open>k\<close> at which it joined.\<close>

definition heard :: "chat_message list \<Rightarrow> chat_session \<Rightarrow> bool" where
  "heard h ss \<longleftrightarrow> chat_ready ss \<and> (\<exists>k \<le> length h. stream ss = concat (map wire (drop (k - 100) h)))"

definition room_inv :: "chat_message list \<Rightarrow> chat_server \<Rightarrow> bool" where
  "room_inv h s \<longleftrightarrow> recent_msgs s = drop (length h - 100) h \<and> (\<forall>m \<in> set h. chat_ok m)
     \<and> distinct (participants s)
     \<and> (\<forall>p ss. sessions s p = Some ss \<longrightarrow> p < next_session s \<and> session_inv ss)
     \<and> (\<forall>p \<in> set (participants s). \<exists>ss. sessions s p = Some ss \<and> heard h ss)"

lemma room_inv_new [simp]: "room_inv [] new_chat_server"
  by (simp add: room_inv_def new_chat_server_def)

lemma room_inv_upd:
  assumes "room_inv h s" "sessions s p = Some ss0" "session_inv ss" "p \<in> set (participants s) \<Longrightarrow> heard h ss"
  shows "room_inv h (upd_session p ss s)"
  using assms by (auto simp: room_inv_def)

lemma room_inv_leave:
  assumes "room_inv h s" "sessions s p = Some ss0" "session_inv ss"
  shows "room_inv h (room_leave p (upd_session p ss s))"
  using assms by (auto simp: room_inv_def room_leave_def distinct_removeAll)

lemma heard_enqueue: "heard h ss \<Longrightarrow> chat_ok m \<Longrightarrow> heard (h @ [m]) (enqueue m ss)"
proof -
  assume h: "heard h ss" and m: "chat_ok m"
  then obtain k where k: "k \<le> length h" "stream ss = concat (map wire (drop (k - 100) h))" by (auto simp: heard_def)
  then have "stream (enqueue m ss) = concat (map wire (drop (k - 100) (h @ [m])))" by simp
  moreover have "k \<le> length (h @ [m])" using k(1) by simp
  ultimately show ?thesis using h m enqueue_ready unfolding heard_def by blast
qed

lemma session_inv_enqueue: "session_inv ss \<Longrightarrow> chat_ready ss \<Longrightarrow> chat_ok m \<Longrightarrow> session_inv (enqueue m ss)"
  by (simp add: session_inv_def enqueue_ready)

lemma room_deliver_ok:
  assumes inv: "room_inv h s" and m: "chat_ok m"
  shows "\<exists>s'. room_deliver m s = Inr s' \<and> room_inv (h @ [m]) s' \<and> participants s' = participants s
    \<and> sessions s' = (\<lambda>p. if p \<in> set (participants s) then map_option (enqueue m) (sessions s p) else sessions s p)"
proof -
  let ?s = "s\<lparr>recent_msgs := trim_recent (recent_msgs s @ [m])\<rparr>"
  let ?f = "\<lambda>p. if p \<in> set (participants s) then map_option (enqueue m) (sessions s p) else sessions s p"
  have p: "\<forall>p \<in> set (participants s). \<exists>ss. sessions s p = Some ss \<and> heard h ss" using inv by (simp add: room_inv_def)
  have "room_deliver m s = Inr (?s\<lparr>sessions := ?f\<rparr>)"
  proof -
    have "distinct (participants s)" "\<forall>p \<in> set (participants s). sessions ?s p \<noteq> None"
      using inv p by (auto simp: room_inv_def)
    from deliver_each_eq [OF m this] show ?thesis
      by (simp add: room_deliver_def Let_def cong: if_cong)
  qed
  moreover have "trim_recent (recent_msgs s @ [m]) = drop (length (h @ [m]) - 100) (h @ [m])"
    using inv drop_snoc_window [of 100 h m] by (simp add: trim_recent_eq room_inv_def)
  moreover have "session_inv ss \<and> q < next_session s" if "?f q = Some ss" for q ss
    using that inv p session_inv_enqueue [OF _ _ m]
    by (fastforce simp: room_inv_def heard_def split: if_splits)
  moreover have "\<exists>ss. ?f q = Some ss \<and> heard (h @ [m]) ss" if "q \<in> set (participants s)" for q
    using that p heard_enqueue [OF _ m] by fastforce
  ultimately show ?thesis using inv m by (simp add: room_inv_def)
qed

section \<open>The handlers keep the invariant\<close>

lemma fold_enqueue:
  assumes "\<forall>m \<in> set ms. chat_ok m" "chat_ready ss"
  shows "chat_ready (fold enqueue ms ss) \<and> stream (fold enqueue ms ss) = stream ss @ concat (map wire ms)
    \<and> read_msg (fold enqueue ms ss) = read_msg ss \<and> chat_reads (fold enqueue ms ss) = chat_reads ss"
  using assms by (induction ms arbitrary: ss) (simp_all add: enqueue_ready)

lemma chat_ready_read [simp]: "\<not> is_chat_write op \<Longrightarrow> chat_ready (start_chat_op op ss) = chat_ready ss"
  by (simp add: chat_ready_def)

lemma accept_session_ok:
  assumes inv: "room_inv h s" and junk: "length junk = 516"
  shows "\<exists>s'. accept_session False junk s = Inr s' \<and> room_inv h s'"
proof -
  let ?p = "next_session s"
  let ?ss = "fold enqueue (recent_msgs s) (new_session junk)"
  let ?ps = "insort ?p (participants s)"
  have new: "chat_ready (new_session junk)" "stream (new_session junk) = []" "chat_reads (new_session junk) = []"
    "chat_ok (read_msg (new_session junk))"
    using junk by (simp_all add: new_session_def chat_ready_def chat_writes_def stream_def chat_reads_def
        chat_ok_def new_chat_message_def)
  have rec: "\<forall>m \<in> set (recent_msgs s). chat_ok m" using inv by (auto simp: room_inv_def dest: in_set_dropD)
  have fresh: "?p \<notin> set (participants s)" "sessions s ?p = None"
    using inv by (fastforce simp: room_inv_def)+
  note ss = fold_enqueue [OF rec new(1)]
  have "session_inv (do_read_header ?ss)"
    using ss new by (simp add: session_inv_def do_read_header_def chat_reading_def)
  moreover have "heard h (do_read_header ?ss)"
    using ss new inv by (auto simp: heard_def do_read_header_def room_inv_def)
  ultimately have "room_inv h (s\<lparr>participants := ?ps, sessions := (sessions s)(?p \<mapsto> do_read_header ?ss), next_session := Suc ?p\<rparr>)"
    using inv fresh by (auto simp: room_inv_def set_insort_key distinct_insort less_Suc_eq)
  moreover have "accept_session False junk s
      = Inr (s\<lparr>participants := ?ps, sessions := (sessions s)(?p \<mapsto> do_read_header ?ss), next_session := Suc ?p\<rparr>)"
    using fresh rec
    by (simp add: accept_session_def session_start_def room_join_def deliver_recent_eq [where ss = "new_session junk"]
        on_session_eq Let_def upd_session_def)
  ultimately show ?thesis by simp
qed

text \<open>A read completes: no other read is in progress, and the writing side is untouched.\<close>

lemma read_completes:
  assumes "session_inv ss" "op \<in> set (ss_ops ss)" "\<not> is_chat_write op"
  shows "chat_reads (ss\<lparr>ss_ops := remove1 op (ss_ops ss)\<rparr>) = []"
    "chat_writes (ss\<lparr>ss_ops := remove1 op (ss_ops ss)\<rparr>) = chat_writes ss"
    "op = ChReadHeader \<or> op = ChReadBody (unat (cbody_length (read_msg ss)))"
proof -
  have "op \<in> set (chat_reads ss)" using assms(2,3) by (simp add: chat_reads_def)
  then have r: "chat_reads ss = [op]" "op = ChReadHeader \<or> op = ChReadBody (unat (cbody_length (read_msg ss)))"
    using assms(1) by (auto simp: session_inv_def chat_reading_def)
  show "chat_reads (ss\<lparr>ss_ops := remove1 op (ss_ops ss)\<rparr>) = []"
    using r(1) by (simp add: chat_reads_def filter_remove1)
  show "chat_writes (ss\<lparr>ss_ops := remove1 op (ss_ops ss)\<rparr>) = chat_writes ss"
    using assms(3) by (simp add: chat_writes_def filter_remove1 remove1_idem)
  show "op = ChReadHeader \<or> op = ChReadBody (unat (cbody_length (read_msg ss)))" by (rule r(2))
qed

text \<open>The writing side of two sessions is the same.\<close>

definition same_writer :: "chat_session \<Rightarrow> chat_session \<Rightarrow> bool" where
  "same_writer ss ss' \<longleftrightarrow> write_msgs ss' = write_msgs ss \<and> chat_writes ss' = chat_writes ss \<and> ss_sent ss' = ss_sent ss"

lemma same_writer_heard: "same_writer ss ss' \<Longrightarrow> heard h ss \<Longrightarrow> heard h ss'"
  by (simp add: same_writer_def heard_def chat_ready_def stream_def)

lemma same_writer_inv: "same_writer ss ss' \<Longrightarrow> session_inv ss \<Longrightarrow> chat_reading ss' \<Longrightarrow> session_inv ss'"
  by (simp add: same_writer_def session_inv_def chat_ready_def chat_dead_def)

lemma store_text_simps [simp]:
  "chat_reads (store_text i bs ss) = chat_reads ss" "chat_writes (store_text i bs ss) = chat_writes ss"
  "write_msgs (store_text i bs ss) = write_msgs ss" "ss_sent (store_text i bs ss) = ss_sent ss"
  "cbody_length (read_msg (store_text i bs ss)) = cbody_length (read_msg ss)"
  by (simp_all add: store_text_def chat_reads_def chat_writes_def)

lemma store_text_ok:
  "chat_ok (read_msg ss) \<Longrightarrow> i + length bs \<le> 516 \<Longrightarrow> chat_ok (read_msg (store_text i bs ss))"
  by (simp add: store_text_def chat_ok_def)

lemma read_header_ok:
  assumes inv: "room_inv h s" and ss: "sessions s p = Some ss" and op: "ChReadHeader \<in> set (ss_ops ss)"
    and bs: "length bs \<le> 4"
  shows "\<exists>s'. read_header_done p ec bs (ss\<lparr>ss_ops := remove1 ChReadHeader (ss_ops ss)\<rparr>) s = Inr s' \<and> room_inv h s'"
proof -
  let ?ss = "store_text 0 bs (ss\<lparr>ss_ops := remove1 ChReadHeader (ss_ops ss)\<rparr>)"
  have si: "session_inv ss" "p \<in> set (participants s) \<Longrightarrow> heard h ss" using inv ss by (auto simp: room_inv_def)
  note rc = read_completes [OF si(1) op, simplified]
  have ok: "chat_ok (read_msg ?ss)" using si(1) bs
    by (intro store_text_ok) (simp_all add: session_inv_def chat_reading_def)
  have w: "same_writer ss ?ss" using rc(2) by (simp add: same_writer_def)
  have leave: "room_inv h (room_leave p (upd_session p (?ss\<lparr>read_msg := m\<rparr>) s))" if "chat_ok m" for m
  proof (rule room_inv_leave [OF inv ss])
    have "same_writer ss (?ss\<lparr>read_msg := m\<rparr>)" using w by (simp add: same_writer_def chat_writes_def)
    moreover have "chat_reading (?ss\<lparr>read_msg := m\<rparr>)" using rc(1) that
      by (simp add: chat_reading_def chat_reads_def store_text_def)
    ultimately show "session_inv (?ss\<lparr>read_msg := m\<rparr>)" using same_writer_inv si(1) by blast
  qed
  show ?thesis
  proof (cases ec)
    case True
    then show ?thesis using leave [OF ok] by (simp add: read_header_done_def)
  next
    case False
    obtain okb m where d: "decode_header (read_msg ?ss) = (okb, m)" by (cases "decode_header (read_msg ?ss)")
    have m: "chat_ok m" using decode_header_ok [OF d] ok by (simp add: chat_ok_def)
    let ?ss' = "start_chat_op (ChReadBody (unat (cbody_length m))) (?ss\<lparr>read_msg := m\<rparr>)"
    have body: "do_read_body (?ss\<lparr>read_msg := m\<rparr>) = Inr ?ss'"
      using m by (simp add: do_read_body_def chat_ok_def header_length_def)
    have w': "same_writer ss ?ss'" using w
      by (simp add: same_writer_def) (simp add: chat_writes_def store_text_def)
    have "chat_reads (?ss\<lparr>read_msg := m\<rparr>) = []" using rc(1) by (simp add: chat_reads_def store_text_def)
    then have "chat_reading ?ss'" using m by (simp add: chat_reading_def)
    then have "room_inv h (upd_session p ?ss' s)"
      using room_inv_upd [OF inv ss same_writer_inv [OF w' si(1)]] same_writer_heard [OF w'] si(2) by blast
    then show ?thesis using False d body leave [OF m] by (cases okb) (simp_all add: read_header_done_def)
  qed
qed

lemma read_body_ok:
  assumes inv: "room_inv h s" and ss: "sessions s p = Some ss" and op: "ChReadBody n \<in> set (ss_ops ss)"
    and bs: "if ec then length bs < n else length bs = n"
  shows "\<exists>s'. read_body_done p ec bs (ss\<lparr>ss_ops := remove1 (ChReadBody n) (ss_ops ss)\<rparr>) s = Inr s'
     \<and> room_inv (h @ (if ec then [] else [read_msg (store_text header_length bs ss)])) s'"
proof -
  let ?ss = "store_text 4 bs (ss\<lparr>ss_ops := remove1 (ChReadBody n) (ss_ops ss)\<rparr>)"
  let ?m = "read_msg ?ss"
  have si: "session_inv ss" "p \<in> set (participants s) \<Longrightarrow> heard h ss" using inv ss by (auto simp: room_inv_def)
  note rc = read_completes [OF si(1) op, simplified]
  have "unat (cbody_length (read_msg ss)) \<le> 512" "chat_ok (read_msg ss)" using si(1)
    by (simp_all add: session_inv_def chat_reading_def chat_ok_def)
  then have ok: "chat_ok ?m" using bs rc(3) by (intro store_text_ok) (auto split: if_splits)
  have w: "same_writer ss ?ss" using rc(2) by (simp add: same_writer_def)
  have "chat_reading ?ss" using rc(1) ok by (simp add: chat_reading_def)
  then have iss: "session_inv ?ss" using same_writer_inv [OF w si(1)] by blast
  have m: "?m = read_msg (store_text header_length bs ss)" by (simp add: store_text_def header_length_def)
  show ?thesis
  proof (cases ec)
    case True
    then show ?thesis using room_inv_leave [OF inv ss iss] by (simp add: read_body_done_def header_length_def)
  next
    case False
    have "room_inv h (upd_session p ?ss s)" using room_inv_upd [OF inv ss iss] same_writer_heard [OF w] si(2) by blast
    from room_deliver_ok [OF this ok] obtain s1 where s1: "room_deliver ?m (upd_session p ?ss s) = Inr s1"
      "room_inv (h @ [?m]) s1" "participants s1 = participants s"
      "sessions s1 p = Some (if p \<in> set (participants s) then enqueue ?m ?ss else ?ss)" by auto
    let ?s1 = "if p \<in> set (participants s) then enqueue ?m ?ss else ?ss"
    have s1i: "session_inv ?s1" "p \<in> set (participants s1) \<Longrightarrow> heard (h @ [?m]) ?s1"
      using s1(2,4) by (auto simp: room_inv_def)
    have "chat_reads ?s1 = []" "chat_ok (read_msg ?s1)" using rc(1) ok by auto
    then have "chat_reading (do_read_header ?s1)" by (simp add: chat_reading_def do_read_header_def)
    moreover have w1: "same_writer ?s1 (do_read_header ?s1)" by (simp add: same_writer_def do_read_header_def)
    ultimately have "session_inv (do_read_header ?s1)" using same_writer_inv s1i(1) by blast
    then have "room_inv (h @ [?m]) (upd_session p (do_read_header ?s1) s1)"
      using room_inv_upd [OF s1(2,4)] same_writer_heard [OF w1] s1i(2) by blast
    then show ?thesis using False s1(1,4) m
      by (simp add: read_body_done_def on_session_eq header_length_def Let_def)
  qed
qed

lemma write_ok:
  assumes inv: "room_inv h s" and ss: "sessions s p = Some ss" and op: "ChWrite w \<in> set (ss_ops ss)"
    and bs: "if ec then prefix bs w else bs = w"
  shows "\<exists>s'. write_done p ec bs (ss\<lparr>ss_ops := remove1 (ChWrite w) (ss_ops ss)\<rparr>) s = Inr s' \<and> room_inv h s'"
proof -
  have si: "session_inv ss" "p \<in> set (participants s) \<Longrightarrow> heard h ss" using inv ss by (auto simp: room_inv_def)
  have "ChWrite w \<in> set (chat_writes ss)" using op by (simp add: chat_writes_def)
  then have ready: "chat_ready ss" using si(1) by (auto simp: session_inv_def chat_dead_def)
  with \<open>ChWrite w \<in> set (chat_writes ss)\<close> obtain m ms
    where m: "write_msgs ss = m # ms" "w = wire m" "chat_writes ss = [ChWrite (wire m)]"
    by (cases "write_msgs ss") (auto simp: chat_ready_def)
  note rw = remove_write [OF m(3) [unfolded chat_writes_def]]
  show ?thesis
  proof (cases ec)
    case False
    from session_written_ready [OF ready m(1)] obtain ss'
      where ss': "session_written ss = Inr ss'" "chat_ready ss'" "stream ss' = stream ss"
        "read_msg ss' = read_msg ss" "chat_reads ss' = chat_reads ss" by blast
    have "session_inv ss'" using ss' si(1) by (simp add: session_inv_def chat_reading_def)
    moreover have "heard h ss'" if "p \<in> set (participants s)" using si(2) [OF that] ss' by (simp add: heard_def)
    ultimately have "room_inv h (upd_session p ss' s)" using room_inv_upd [OF inv ss] by blast
    moreover have "ss\<lparr>ss_ops := remove1 (ChWrite w) (ss_ops ss), ss_sent := ss_sent ss @ bs\<rparr>
      = ss\<lparr>ss_ops := remove1 (ChWrite (wire m)) (ss_ops ss), ss_sent := ss_sent ss @ wire m\<rparr>"
      using m bs False by simp
    ultimately show ?thesis using ss'(1) m False bs by (simp add: write_done_def session_written_def)
  next
    case True
    let ?ss = "ss\<lparr>ss_ops := remove1 (ChWrite w) (ss_ops ss), ss_sent := ss_sent ss @ bs\<rparr>"
    have "chat_writes ?ss = []" "chat_reads ?ss = chat_reads ss"
      using rw m(2) by (simp_all add: chat_writes_def chat_reads_def)
    then have "session_inv ?ss" using si(1) m(1) by (simp add: session_inv_def chat_reading_def chat_dead_def)
    from room_inv_leave [OF inv ss this] show ?thesis using True by (simp add: write_done_def)
  qed
qed

lemma chat_exec_ok:
  assumes inv: "room_inv h s"
  shows "\<exists>s'. chat_exec e s = Inr s' \<and> room_inv (h @ delivered e s) s'"
proof (cases e)
  case (ChAccept ec junk)
  then show ?thesis using inv accept_session_ok [OF inv, of junk]
    by (cases ec) (auto simp: accept_session_def)
next
  case (ChDone p op ec bs)
  show ?thesis
  proof (cases "sessions s p")
    case None
    then show ?thesis using inv ChDone by (cases op; cases ec) simp_all
  next
    case ss: (Some ss)
    show ?thesis
    proof (cases "op \<in> set (ss_ops ss) \<and> chat_transfer op ec bs")
      case False
      then show ?thesis using inv ChDone ss by (cases op; cases ec) auto
    next
      case True
      show ?thesis
      proof (cases op)
        case ChReadHeader
        with True read_header_ok [OF inv ss, of bs ec] ChDone ss show ?thesis by (auto split: if_splits)
      next
        case (ChReadBody n)
        with True read_body_ok [OF inv ss, of n ec bs] ChDone ss show ?thesis by (cases ec) auto
      next
        case (ChWrite w)
        with True write_ok [OF inv ss, of w ec bs] ChDone ss show ?thesis by auto
      qed
    qed
  qed
qed

lemma chat_run_ok:
  "room_inv h s \<Longrightarrow> \<exists>s'. chat_run es s = Inr s' \<and> room_inv (h @ chat_history es s) s'"
proof (induction es arbitrary: h s)
  case (Cons e es)
  from chat_exec_ok [OF Cons.prems, of e] obtain s1
    where s1: "chat_exec e s = Inr s1" "room_inv (h @ delivered e s) s1" by blast
  from Cons.IH [OF s1(2)] show ?case using s1(1) by simp
qed simp

section \<open>A frame read by a session\<close>

lemma read_frame:
  assumes inv: "room_inv h s" and ss: "sessions s p = Some ss" and op: "ChReadHeader \<in> set (ss_ops ss)"
    and hdr: "length hdr = 4" "atoi (header_text hdr) = int (length bs)" "length bs \<le> 512"
  shows "\<exists>m. chat_history [ChDone p ChReadHeader False hdr, ChDone p (ChReadBody (length bs)) False bs] s = [m]
     \<and> wire m = hdr @ bs"
proof -
  let ?r = "memcpy_at 0 hdr (cdata (read_msg ss))"
  let ?m = "\<lparr>cdata = ?r, cbody_length = word_of_nat (length bs)\<rparr>"
  have r516: "length (cdata (read_msg ss)) = 516"
    using inv ss by (auto simp: room_inv_def session_inv_def chat_reading_def chat_ok_def)
  have "header_text ?r = header_text hdr"
    using hdr(1) by (simp add: header_text_def header_length_def memcpy_at_def)
  then have d: "decode_header ((read_msg ss)\<lparr>cdata := ?r\<rparr>) = (True, ?m)"
    using hdr(2,3) by (cases "read_msg ss") (simp add: decode_header_eq)
  have bl: "unat (word_of_nat (length bs) :: size_t) = length bs"
    using hdr(3) by (simp add: unat_of_nat)
  let ?ss1 = "ss\<lparr>read_msg := ?m, ss_ops := remove1 ChReadHeader (ss_ops ss) @ [ChReadBody (length bs)]\<rparr>"
  have "length ?r = 516" using r516 hdr(1) by simp
  then have s1: "chat_exec (ChDone p ChReadHeader False hdr) s = Inr (upd_session p ?ss1 s)"
    using ss op hdr d bl
    by (simp add: read_header_done_def store_text_def do_read_body_def header_length_def start_chat_op_def Let_def)
  let ?d = "\<lparr>cdata = memcpy_at 4 bs ?r, cbody_length = word_of_nat (length bs)\<rparr>"
  have s2: "chat_history [ChDone p (ChReadBody (length bs)) False bs] (upd_session p ?ss1 s) = [?d]"
    by (simp add: store_text_def header_length_def split: sum.split)
  have len: "unat (chat_length ?d) = 4 + length bs"
    using unat_chat_length [of ?d] bl hdr(3) by simp
  have wire: "wire ?d = hdr @ bs"
    unfolding wire_def len using hdr(1) by (simp add: memcpy_at_def)
  have "chat_history [ChDone p ChReadHeader False hdr, ChDone p (ChReadBody (length bs)) False bs] s
      = delivered (ChDone p ChReadHeader False hdr) s
        @ chat_history [ChDone p (ChReadBody (length bs)) False bs] (upd_session p ?ss1 s)"
    unfolding chat_history.simps(2) [of "ChDone p ChReadHeader False hdr"] s1 by simp
  then show ?thesis using s2 wire by (intro exI [of _ ?d]) simp
qed

section \<open>Properties\<close>

text \<open>C25: the chat server never executes undefined behaviour, whatever connects, arrives, fails or
  completes, and the room always keeps exactly the last hundred of the messages delivered.\<close>

theorem room_keeps_last_hundred:
  "\<exists>s. chat_run es new_chat_server = Inr s
     \<and> recent_msgs s = drop (length (chat_history es new_chat_server) - 100) (chat_history es new_chat_server)"
  using chat_run_ok [OF room_inv_new, of es] by (auto simp: room_inv_def)



text \<open>The room relays frames as they came. A session that waits for a header and receives four
  characters announcing \<open>n\<close> and then \<open>n\<close> characters delivers to the room one message, and what
  every participant is sent for it is those characters.\<close>

lemma room_relays_frames:
  assumes "chat_run es new_chat_server = Inr s" "sessions s p = Some ss" "ChReadHeader \<in> set (ss_ops ss)"
    and "length hdr = 4" "atoi (header_text hdr) = int (length bs)" "length bs \<le> 512"
  shows "\<exists>m. chat_history [ChDone p ChReadHeader False hdr, ChDone p (ChReadBody (length bs)) False bs] s = [m]
     \<and> wire m = hdr @ bs"
proof -
  from chat_run_ok [OF room_inv_new, of es] assms(1)
  have "room_inv (chat_history es new_chat_server) s" by simp
  from read_frame [OF this assms(2-6)] show ?thesis .
qed

end
