(* ===== verification/ChatClient.thy ===== *)
theory ChatClient
  imports ChatRoom
begin

text \<open>
  \<open>src/src/network/client.cpp\<close>: the chat client, with its connect and deadline actors, its reading
  chain and its queue of messages to write. Times are milliseconds; \<open>expiry\<close> is \<open>None\<close> for
  \<open>time_point::max\<close>. Changing the expiry aborts the waits in progress, whose handlers still run
  (\<open>check_deadline\<close> does not look at the error code). Endpoints are numbered from 0.
\<close>

section \<open>State\<close>

datatype client_op = CConnect nat | CReadHeader | CReadBody nat | CWrite string

datatype posted_task = PWrite chat_message | PClose

record chat_client =
  stopped :: bool
  c_open :: bool
  c_sent :: string
  endpoints :: nat
  c_read_msg :: chat_message
  c_write_msgs :: "chat_message list"
  expiry :: "nat option"
  waits :: nat
  aborted_waits :: nat
  c_posted :: "posted_task list"
  c_ops :: "client_op list"
  c_output :: string

definition new_chat_client :: "string \<Rightarrow> chat_client" where
  "new_chat_client junk = \<lparr>stopped = False, c_open = False, c_sent = [], endpoints = 0,
     c_read_msg = new_chat_message junk, c_write_msgs = [], expiry = Some 0, waits = 0, aborted_waits = 0,
     c_posted = [], c_ops = [], c_output = []\<rparr>"

definition start_client_op :: "client_op \<Rightarrow> chat_client \<Rightarrow> chat_client" where
  "start_client_op op c = c\<lparr>c_ops := c_ops c @ [op]\<rparr>"

definition set_expiry :: "nat option \<Rightarrow> chat_client \<Rightarrow> chat_client" where
  "set_expiry t c = c\<lparr>expiry := t, waits := 0, aborted_waits := aborted_waits c + waits c\<rparr>"

definition close_client :: "chat_client \<Rightarrow> chat_client" where
  "close_client c = c\<lparr>c_open := False\<rparr>"

section \<open>Connecting\<close>

text \<open>Starting a connect opens the socket.\<close>

definition do_connect :: "nat \<Rightarrow> nat \<Rightarrow> chat_client \<Rightarrow> chat_client" where
  "do_connect now i c =
     (if i \<noteq> endpoints c
      then start_client_op (CConnect i) ((set_expiry (Some (now + 5000)) c)\<lparr>c_open := True\<rparr>)
      else c)"

definition client_do_read_header :: "chat_client \<Rightarrow> chat_client" where
  "client_do_read_header c = start_client_op CReadHeader c"

definition handle_connect :: "nat \<Rightarrow> bool \<Rightarrow> nat \<Rightarrow> chat_client \<Rightarrow> chat_client result" where
  "handle_connect now ec i c =
     (if stopped c then Inr c
      else if \<not> c_open c then Inr (do_connect now (Suc i) c)
      else if ec then Inl (Thrown ''Connect Error'')
      else Inr (client_do_read_header c))"

definition expired :: "nat \<Rightarrow> chat_client \<Rightarrow> bool" where
  "expired now c = (case expiry c of None \<Rightarrow> False | Some t \<Rightarrow> t \<le> now)"

definition check_deadline :: "nat \<Rightarrow> chat_client \<Rightarrow> chat_client" where
  "check_deadline now c =
     (if stopped c then c
      else let c = (if expired now c then set_expiry None (close_client c) else c)
           in c\<lparr>waits := Suc (waits c)\<rparr>)"

definition chat_start :: "nat \<Rightarrow> nat \<Rightarrow> chat_client \<Rightarrow> chat_client" where
  "chat_start now n c =
     (let c = do_connect now 0 (c\<lparr>endpoints := n\<rparr>)
      in c\<lparr>waits := Suc (waits c)\<rparr>)"

definition async_stop :: "chat_client \<Rightarrow> chat_client" where
  "async_stop c = close_client c"

section \<open>Writing and reading\<close>

definition client_do_write :: "chat_client \<Rightarrow> chat_client result" where
  "client_do_write c = (case c_write_msgs c of
       [] \<Rightarrow> Inl EmptyDeque
     | m # _ \<Rightarrow> if unat (chat_length m) \<le> length (cdata m) then Inr (start_client_op (CWrite (wire m)) c)
                else Inl OutOfBounds)"

definition chat_write :: "chat_message \<Rightarrow> chat_client \<Rightarrow> chat_client" where
  "chat_write m c = c\<lparr>c_posted := c_posted c @ [PWrite m]\<rparr>"

definition chat_close :: "chat_client \<Rightarrow> chat_client" where
  "chat_close c = c\<lparr>c_posted := c_posted c @ [PClose]\<rparr>"

definition run_write :: "chat_message \<Rightarrow> chat_client \<Rightarrow> chat_client result" where
  "run_write m c =
     (let write_in_progress = (c_write_msgs c \<noteq> []);
          c = c\<lparr>c_write_msgs := c_write_msgs c @ [m]\<rparr>
      in if \<not> write_in_progress then client_do_write c else Inr c)"

definition client_write_done :: "bool \<Rightarrow> string \<Rightarrow> chat_client \<Rightarrow> chat_client result" where
  "client_write_done ec bs c =
     (let c = c\<lparr>c_sent := c_sent c @ bs\<rparr>
      in if \<not> ec then
           (case c_write_msgs c of
              [] \<Rightarrow> Inl EmptyDeque
            | _ # ms \<Rightarrow> (let c = c\<lparr>c_write_msgs := ms\<rparr> in if ms \<noteq> [] then client_do_write c else Inr c))
         else Inr (close_client c))"

definition client_store :: "nat \<Rightarrow> string \<Rightarrow> chat_client \<Rightarrow> chat_client" where
  "client_store i bs c = c\<lparr>c_read_msg := (c_read_msg c)\<lparr>cdata := memcpy_at i bs (cdata (c_read_msg c))\<rparr>\<rparr>"

definition client_do_read_body :: "chat_client \<Rightarrow> chat_client result" where
  "client_do_read_body c =
     (let n = unat (cbody_length (c_read_msg c))
      in if header_length + n \<le> length (cdata (c_read_msg c)) then Inr (start_client_op (CReadBody n) c)
         else Inl OutOfBounds)"

definition client_header_done :: "bool \<Rightarrow> string \<Rightarrow> chat_client \<Rightarrow> chat_client result" where
  "client_header_done ec bs c =
     (let c = client_store 0 bs c
      in if \<not> ec then
           (case decode_header (c_read_msg c) of (ok, m) \<Rightarrow>
              if ok then client_do_read_body (c\<lparr>c_read_msg := m\<rparr>)
              else Inr (close_client (c\<lparr>c_read_msg := m\<rparr>)))
         else Inr (close_client c))"

text \<open>The body is written to the console.\<close>

definition client_body_done :: "bool \<Rightarrow> string \<Rightarrow> chat_client \<Rightarrow> chat_client" where
  "client_body_done ec bs c =
     (let c = client_store header_length bs c; m = c_read_msg c
      in if \<not> ec then client_do_read_header
           (c\<lparr>c_output := c_output c @ take (unat (cbody_length m)) (chat_body m) @ [CHR 0x0A]\<rparr>)
         else close_client c)"

section \<open>Events\<close>

datatype chat_client_event =
    CCWrite chat_message
  | CCClose
  | CCRunPosted
  | CCDone client_op bool string nat
  | CCTimer nat

fun client_transfer :: "client_op \<Rightarrow> bool \<Rightarrow> string \<Rightarrow> bool" where
  "client_transfer (CConnect i) ec bs = (bs = [])"
| "client_transfer CReadHeader ec bs = (if ec then length bs < 4 else length bs = 4)"
| "client_transfer (CReadBody n) ec bs = (if ec then length bs < n else length bs = n)"
| "client_transfer (CWrite w) ec bs = (if ec then prefix bs w else bs = w)"

fun client_complete :: "client_op \<Rightarrow> bool \<Rightarrow> string \<Rightarrow> nat \<Rightarrow> chat_client \<Rightarrow> chat_client result" where
  "client_complete (CConnect i) ec bs now c = handle_connect now ec i c"
| "client_complete CReadHeader ec bs now c = client_header_done ec bs c"
| "client_complete (CReadBody n) ec bs now c = Inr (client_body_done ec bs c)"
| "client_complete (CWrite w) ec bs now c = client_write_done ec bs c"

fun run_posted :: "posted_task \<Rightarrow> chat_client \<Rightarrow> chat_client result" where
  "run_posted (PWrite m) c = run_write m c"
| "run_posted PClose c = Inr (close_client c)"

text \<open>A wait ends when it has been aborted or its time has come.\<close>

fun chat_client_exec :: "chat_client_event \<Rightarrow> chat_client \<Rightarrow> chat_client result" where
  "chat_client_exec (CCWrite m) c = Inr (chat_write m c)"
| "chat_client_exec CCClose c = Inr (chat_close c)"
| "chat_client_exec CCRunPosted c =
     (case c_posted c of [] \<Rightarrow> Inr c | t # ts \<Rightarrow> run_posted t (c\<lparr>c_posted := ts\<rparr>))"
| "chat_client_exec (CCDone op ec bs now) c =
     (if op \<in> set (c_ops c) \<and> client_transfer op ec bs
      then client_complete op ec bs now (c\<lparr>c_ops := remove1 op (c_ops c)\<rparr>)
      else Inr c)"
| "chat_client_exec (CCTimer now) c =
     (if 0 < aborted_waits c then Inr (check_deadline now (c\<lparr>aborted_waits := aborted_waits c - 1\<rparr>))
      else if 0 < waits c \<and> expired now c
           then Inr (check_deadline now (c\<lparr>waits := waits c - 1\<rparr>))
           else Inr c)"

abbreviation chat_client_run :: "chat_client_event list \<Rightarrow> chat_client \<Rightarrow> chat_client result" where
  "chat_client_run \<equiv> run_events chat_client_exec"


section \<open>Invariant\<close>

fun is_client_write :: "client_op \<Rightarrow> bool" where
  "is_client_write (CWrite _) = True"
| "is_client_write _ = False"

definition client_writes :: "chat_client \<Rightarrow> client_op list" where
  "client_writes c = filter is_client_write (c_ops c)"

text \<open>The operations of the connect and the reading actor.\<close>

definition client_ctrl :: "chat_client \<Rightarrow> client_op list" where
  "client_ctrl c = filter (\<lambda>op. \<not> is_client_write op) (c_ops c)"

fun client_pumping :: "chat_message list \<Rightarrow> client_op list \<Rightarrow> bool" where
  "client_pumping [] ops = (ops = [])"
| "client_pumping (m # ms) ops = (ops = [CWrite (wire m)])"

definition client_ready :: "chat_client \<Rightarrow> bool" where
  "client_ready c \<longleftrightarrow> client_pumping (c_write_msgs c) (client_writes c) \<and> (\<forall>m \<in> set (c_write_msgs c). chat_ok m)"

definition client_dead :: "chat_client \<Rightarrow> bool" where
  "client_dead c \<longleftrightarrow> client_writes c = [] \<and> c_write_msgs c \<noteq> []"

fun task_ok :: "posted_task \<Rightarrow> bool" where
  "task_ok (PWrite m) = chat_ok m"
| "task_ok PClose = True"

fun client_event_ok :: "chat_client_event \<Rightarrow> bool" where
  "client_event_ok (CCWrite m) = chat_ok m"
| "client_event_ok _ = True"

definition ctrl_ok :: "chat_message \<Rightarrow> client_op list \<Rightarrow> bool" where
  "ctrl_ok m ops \<longleftrightarrow> ops = [] \<or> (\<exists>i. ops = [CConnect i]) \<or> ops = [CReadHeader]
     \<or> ops = [CReadBody (unat (cbody_length m))]"

definition chat_client_inv :: "chat_client \<Rightarrow> bool" where
  "chat_client_inv c \<longleftrightarrow> chat_ok (c_read_msg c) \<and> ctrl_ok (c_read_msg c) (client_ctrl c)
     \<and> (client_ready c \<or> client_dead c) \<and> (\<forall>t \<in> set (c_posted c). task_ok t)"

lemma client_frame [simp]:
  "client_writes (c\<lparr>c_open := b\<rparr>) = client_writes c" "client_ctrl (c\<lparr>c_open := b\<rparr>) = client_ctrl c"
  "client_writes (close_client c) = client_writes c" "client_ctrl (close_client c) = client_ctrl c"
  "c_write_msgs (close_client c) = c_write_msgs c" "c_read_msg (close_client c) = c_read_msg c"
  "c_posted (close_client c) = c_posted c" "c_sent (close_client c) = c_sent c"
  "client_writes (set_expiry t c) = client_writes c" "client_ctrl (set_expiry t c) = client_ctrl c"
  "c_write_msgs (set_expiry t c) = c_write_msgs c" "c_read_msg (set_expiry t c) = c_read_msg c"
  "c_posted (set_expiry t c) = c_posted c" "c_sent (set_expiry t c) = c_sent c"
  "client_writes (c\<lparr>waits := k\<rparr>) = client_writes c" "client_ctrl (c\<lparr>waits := k\<rparr>) = client_ctrl c"
  "client_writes (c\<lparr>aborted_waits := k\<rparr>) = client_writes c" "client_ctrl (c\<lparr>aborted_waits := k\<rparr>) = client_ctrl c"
  "client_writes (c\<lparr>c_posted := ts\<rparr>) = client_writes c" "client_ctrl (c\<lparr>c_posted := ts\<rparr>) = client_ctrl c"
  "client_writes (c\<lparr>c_read_msg := m\<rparr>) = client_writes c" "client_ctrl (c\<lparr>c_read_msg := m\<rparr>) = client_ctrl c"
  "client_writes (c\<lparr>c_output := x\<rparr>) = client_writes c" "client_ctrl (c\<lparr>c_output := x\<rparr>) = client_ctrl c"
  "client_writes (c\<lparr>c_sent := x\<rparr>) = client_writes c" "client_ctrl (c\<lparr>c_sent := x\<rparr>) = client_ctrl c"
  "client_writes (c\<lparr>c_write_msgs := ms\<rparr>) = client_writes c" "client_ctrl (c\<lparr>c_write_msgs := ms\<rparr>) = client_ctrl c"
  "client_writes (c\<lparr>endpoints := n\<rparr>) = client_writes c" "client_ctrl (c\<lparr>endpoints := n\<rparr>) = client_ctrl c"
  by (simp_all add: client_writes_def client_ctrl_def close_client_def set_expiry_def)

lemma start_client_simps [simp]:
  "client_writes (start_client_op op c) = client_writes c @ (if is_client_write op then [op] else [])"
  "client_ctrl (start_client_op op c) = client_ctrl c @ (if is_client_write op then [] else [op])"
  "c_write_msgs (start_client_op op c) = c_write_msgs c" "c_read_msg (start_client_op op c) = c_read_msg c"
  "c_posted (start_client_op op c) = c_posted c" "c_sent (start_client_op op c) = c_sent c"
  by (simp_all add: start_client_op_def client_writes_def client_ctrl_def)

lemma client_store_simps [simp]:
  "client_writes (client_store i bs c) = client_writes c" "client_ctrl (client_store i bs c) = client_ctrl c"
  "c_write_msgs (client_store i bs c) = c_write_msgs c" "c_posted (client_store i bs c) = c_posted c"
  "cbody_length (c_read_msg (client_store i bs c)) = cbody_length (c_read_msg c)"
  "c_sent (client_store i bs c) = c_sent c"
  by (simp_all add: client_store_def)

lemmas client_inv_defs = chat_client_inv_def client_ready_def client_dead_def

text \<open>The writing side.\<close>

lemma run_write_eq:
  assumes "chat_ok m"
  shows "run_write m c = Inr (let c' = c\<lparr>c_write_msgs := c_write_msgs c @ [m]\<rparr>
     in if c_write_msgs c = [] then start_client_op (CWrite (wire m)) c' else c')"
  using chat_ok_fits [OF assms] by (simp add: run_write_def client_do_write_def Let_def)

lemma run_write_ready:
  assumes "client_ready c" "chat_ok m"
  shows "\<exists>c'. run_write m c = Inr c' \<and> client_ready c' \<and> c_write_msgs c' = c_write_msgs c @ [m]"
  using assms by (cases "c_write_msgs c") (auto simp: run_write_eq client_ready_def Let_def)

definition client_written :: "chat_client \<Rightarrow> chat_client result" where
  "client_written c = (case c_write_msgs c of
       [] \<Rightarrow> Inr c
     | m # _ \<Rightarrow> client_write_done False (wire m) (c\<lparr>c_ops := remove1 (CWrite (wire m)) (c_ops c)\<rparr>))"

lemma remove_client_write:
  assumes "client_writes c = [CWrite w]"
  shows "client_writes (c\<lparr>c_ops := remove1 (CWrite w) (c_ops c)\<rparr>) = []"
    "client_ctrl (c\<lparr>c_ops := remove1 (CWrite w) (c_ops c)\<rparr>) = client_ctrl c"
  using assms by (simp_all add: client_writes_def client_ctrl_def filter_remove1 remove1_idem)

lemma client_written_ready:
  assumes "client_ready c" "c_write_msgs c = m # ms"
  shows "\<exists>c'. client_written c = Inr c' \<and> client_ready c' \<and> c_write_msgs c' = ms \<and> client_ctrl c' = client_ctrl c
     \<and> c_read_msg c' = c_read_msg c \<and> c_posted c' = c_posted c \<and> c_sent c' = c_sent c @ wire m"
proof -
  have w: "client_writes c = [CWrite (wire m)]" using assms by (simp add: client_ready_def)
  note rw = remove_client_write [OF w]
  have ok: "\<forall>m \<in> set ms. chat_ok m" using assms by (simp add: client_ready_def)
  then show ?thesis using assms rw
    by (cases ms) (simp_all add: client_written_def client_write_done_def client_do_write_def chat_ok_fits
        client_ready_def Let_def)
qed

interpretation client_pump: write_pump chat_ok c_write_msgs client_ready run_write client_written
proof unfold_locales
  fix c m
  assume "client_ready c" "chat_ok m"
  from run_write_ready [OF this]
  show "\<exists>c'. run_write m c = Inr c' \<and> client_ready c' \<and> c_write_msgs c' = c_write_msgs c @ [m]" .
next
  fix c m ms
  assume "client_ready c" "c_write_msgs c = m # ms"
  from client_written_ready [OF this]
  show "\<exists>c'. client_written c = Inr c' \<and> client_ready c' \<and> c_write_msgs c' = ms" by blast
qed

section \<open>The handlers keep the invariant\<close>

lemma inv_cong:
  assumes "chat_client_inv c" "c_read_msg c' = c_read_msg c" "client_ctrl c' = client_ctrl c"
    "client_writes c' = client_writes c" "c_write_msgs c' = c_write_msgs c" "c_posted c' = c_posted c"
  shows "chat_client_inv c'"
  using assms by (simp add: client_inv_defs)

lemma run_write_inv:
  assumes "chat_client_inv c" "chat_ok m"
  shows "\<exists>c'. run_write m c = Inr c' \<and> chat_client_inv c'"
  using assms by (cases "c_write_msgs c") (auto simp: run_write_eq client_inv_defs Let_def)

lemma check_deadline_inv: "chat_client_inv c \<Longrightarrow> chat_client_inv (check_deadline now c)"
  by (rule inv_cong [of c]) (auto simp: check_deadline_def Let_def)

text \<open>A connect or a read completes: no other operation of its actor is in progress.\<close>

lemma ctrl_completes:
  assumes "chat_client_inv c" "op \<in> set (c_ops c)" "\<not> is_client_write op"
  shows "client_ctrl (c\<lparr>c_ops := remove1 op (c_ops c)\<rparr>) = []"
    "client_writes (c\<lparr>c_ops := remove1 op (c_ops c)\<rparr>) = client_writes c"
    "op = CReadBody n \<Longrightarrow> n = unat (cbody_length (c_read_msg c))"
proof -
  have "op \<in> set (client_ctrl c)" using assms(2,3) by (simp add: client_ctrl_def)
  then have r: "client_ctrl c = [op]" "op = CReadBody n \<Longrightarrow> n = unat (cbody_length (c_read_msg c))"
    using assms(1) by (auto simp: chat_client_inv_def ctrl_ok_def)
  show "client_ctrl (c\<lparr>c_ops := remove1 op (c_ops c)\<rparr>) = []"
    using r(1) by (simp add: client_ctrl_def filter_remove1)
  show "client_writes (c\<lparr>c_ops := remove1 op (c_ops c)\<rparr>) = client_writes c"
    using assms(3) by (simp add: client_writes_def filter_remove1 remove1_idem)
  show "op = CReadBody n \<Longrightarrow> n = unat (cbody_length (c_read_msg c))" by (rule r(2))
qed

text \<open>Between two operations of the connect and reading actors.\<close>

lemma idle_inv:
  assumes "chat_client_inv c" "op \<in> set (c_ops c)" "\<not> is_client_write op"
  shows "chat_client_inv (c\<lparr>c_ops := remove1 op (c_ops c)\<rparr>)"
  using assms(1) ctrl_completes(1,2) [OF assms] by (simp add: client_inv_defs ctrl_ok_def)

lemma read_again_inv:
  "chat_client_inv c \<Longrightarrow> client_ctrl c = [] \<Longrightarrow> chat_client_inv (client_do_read_header c)"
  by (simp add: client_inv_defs client_do_read_header_def ctrl_ok_def)

lemma handle_connect_inv:
  assumes "chat_client_inv c" "client_ctrl c = []"
  shows "outcome {Thrown ''Connect Error''} chat_client_inv (handle_connect now ec i c)"
proof -
  have "chat_client_inv (do_connect now (Suc i) c)" using assms
    by (auto simp: do_connect_def client_inv_defs ctrl_ok_def)
  then show ?thesis using assms read_again_inv [OF assms] by (simp add: handle_connect_def)
qed

lemma close_inv: "chat_client_inv c \<Longrightarrow> chat_client_inv (close_client c)"
  by (rule inv_cong [of c]) simp_all

lemma client_store_inv:
  "chat_client_inv c \<Longrightarrow> i + length bs \<le> 516 \<Longrightarrow> chat_client_inv (client_store i bs c)"
  by (auto simp: client_inv_defs ctrl_ok_def) (simp_all add: client_store_def chat_ok_def)

lemma client_header_inv:
  assumes "chat_client_inv c" "client_ctrl c = []" "length bs \<le> 4"
  shows "\<exists>c'. client_header_done ec bs c = Inr c' \<and> chat_client_inv c'"
proof -
  let ?c = "client_store 0 bs c"
  have inv: "chat_client_inv ?c" using client_store_inv [OF assms(1)] assms(3) by simp
  obtain ok m where d: "decode_header (c_read_msg ?c) = (ok, m)" by (cases "decode_header (c_read_msg ?c)")
  have m: "chat_ok m" using decode_header_ok [OF d] inv by (simp add: chat_client_inv_def chat_ok_def)
  then have "chat_client_inv (?c\<lparr>c_read_msg := m\<rparr>)"
    "chat_client_inv (start_client_op (CReadBody (unat (cbody_length m))) (?c\<lparr>c_read_msg := m\<rparr>))"
    using inv assms(2) by (simp_all add: client_inv_defs ctrl_ok_def)
  then show ?thesis using d m inv close_inv
    by (auto simp: client_header_done_def client_do_read_body_def chat_ok_def header_length_def Let_def
        split: prod.splits)
qed

lemma client_body_inv:
  assumes "chat_client_inv c" "client_ctrl c = []" "length bs \<le> 512"
  shows "chat_client_inv (client_body_done ec bs c)"
proof -
  let ?c = "client_store header_length bs c"
  have inv: "chat_client_inv ?c" using client_store_inv [OF assms(1)] assms(3) by (simp add: header_length_def)
  have "chat_client_inv (?c\<lparr>c_output := x\<rparr>)" for x by (rule inv_cong [OF inv]) simp_all
  from read_again_inv [OF this] show ?thesis using assms(2) close_inv [OF inv]
    by (simp add: client_body_done_def Let_def)
qed

lemma client_write_inv:
  assumes inv: "chat_client_inv c" and op: "CWrite w \<in> set (c_ops c)" and bs: "if ec then prefix bs w else bs = w"
  shows "\<exists>c'. client_write_done ec bs (c\<lparr>c_ops := remove1 (CWrite w) (c_ops c)\<rparr>) = Inr c' \<and> chat_client_inv c'"
proof -
  have "CWrite w \<in> set (client_writes c)" using op by (simp add: client_writes_def)
  then have ready: "client_ready c" using inv by (auto simp: chat_client_inv_def client_dead_def)
  with \<open>CWrite w \<in> set (client_writes c)\<close> obtain m ms
    where m: "c_write_msgs c = m # ms" "w = wire m" "client_writes c = [CWrite (wire m)]"
    by (cases "c_write_msgs c") (auto simp: client_ready_def)
  show ?thesis
  proof (cases ec)
    case False
    from client_written_ready [OF ready m(1)] obtain c' where c': "client_written c = Inr c'" "client_ready c'"
      "client_ctrl c' = client_ctrl c" "c_read_msg c' = c_read_msg c" "c_posted c' = c_posted c" by blast
    then have "chat_client_inv c'" using inv by (simp add: chat_client_inv_def)
    then show ?thesis using c'(1) m bs False by (simp add: client_written_def)
  next
    case True
    note rw = remove_client_write [OF m(3)]
    have "chat_client_inv (close_client (c\<lparr>c_ops := remove1 (CWrite w) (c_ops c), c_sent := c_sent c @ bs\<rparr>))"
      using inv rw m(1,2) by (simp add: client_inv_defs)
    then show ?thesis using True by (simp add: client_write_done_def)
  qed
qed

lemma chat_client_exec_inv:
  assumes inv: "chat_client_inv c" and e: "client_event_ok e"
  shows "outcome {Thrown ''Connect Error''} chat_client_inv (chat_client_exec e c)"
proof (cases e)
  case (CCWrite m)
  then show ?thesis using inv e by (simp add: chat_write_def client_inv_defs)
next
  case CCClose
  then show ?thesis using inv by (simp add: chat_close_def client_inv_defs)
next
  case CCRunPosted
  show ?thesis
  proof (cases "c_posted c")
    case Nil
    then show ?thesis using inv CCRunPosted by simp
  next
    case (Cons t ts)
    have tail: "chat_client_inv (c\<lparr>c_posted := ts\<rparr>)" using inv Cons by (simp add: client_inv_defs)
    show ?thesis
    proof (cases t)
      case (PWrite m)
      then have "chat_ok m" using inv Cons by (simp add: chat_client_inv_def)
      from run_write_inv [OF tail this] show ?thesis using CCRunPosted Cons PWrite by auto
    next
      case PClose
      then show ?thesis using close_inv [OF tail] CCRunPosted Cons by simp
    qed
  qed
next
  case (CCTimer now)
  have "chat_client_inv (c\<lparr>waits := k\<rparr>)" "chat_client_inv (c\<lparr>aborted_waits := k\<rparr>)" for k
    by (rule inv_cong [OF inv]; simp)+
  then show ?thesis using inv CCTimer check_deadline_inv by simp
next
  case (CCDone op ec bs now)
  show ?thesis
  proof (cases "op \<in> set (c_ops c) \<and> client_transfer op ec bs")
    case False
    then show ?thesis using inv CCDone by auto
  next
    case True
    show ?thesis
    proof (cases op)
      case (CConnect i)
      with True handle_connect_inv [OF idle_inv [OF inv] ctrl_completes(1) [OF inv], of op now ec i] CCDone
      show ?thesis by simp
    next
      case CReadHeader
      with True client_header_inv [OF idle_inv [OF inv] ctrl_completes(1) [OF inv], of op bs ec] CCDone
      show ?thesis by (auto split: if_splits)
    next
      case (CReadBody n)
      have "unat (cbody_length (c_read_msg c)) \<le> 512" using inv by (simp add: chat_client_inv_def chat_ok_def)
      then have "length bs \<le> 512" using True CReadBody ctrl_completes(3) [OF inv, of op n] by (auto split: if_splits)
      with True CReadBody client_body_inv [OF idle_inv [OF inv] ctrl_completes(1) [OF inv], of op bs ec] CCDone
      show ?thesis by simp
    next
      case (CWrite w)
      with True client_write_inv [OF inv, of w ec bs] CCDone show ?thesis by auto
    qed
  qed
qed

lemma chat_client_start_inv: "length junk = 516 \<Longrightarrow> chat_client_inv (chat_start now n (new_chat_client junk))"
  by (auto simp: chat_start_def do_connect_def Let_def client_inv_defs ctrl_ok_def)
    (simp_all add: new_chat_client_def new_chat_message_def chat_ok_def client_writes_def client_ctrl_def)

lemma chat_client_run_inv:
  "chat_client_inv c \<Longrightarrow> \<forall>e \<in> set es. client_event_ok e \<Longrightarrow>
   outcome {Thrown ''Connect Error''} chat_client_inv (chat_client_run es c)"
proof (induction es arbitrary: c)
  case (Cons e es)
  then show ?case using chat_client_exec_inv [OF Cons.prems(1), of e]
    by (auto intro!: outcome_rbind [where I = chat_client_inv] simp del: chat_client_exec.simps)
qed simp

section \<open>The deadline\<close>

definition timers :: "chat_client \<Rightarrow> bool \<times> nat option \<times> nat \<times> nat" where
  "timers c = (stopped c, expiry c, waits c, aborted_waits c)"

text \<open>Events that are neither a timer nor the end of a connect.\<close>

fun no_timer :: "chat_client_event \<Rightarrow> bool" where
  "no_timer (CCTimer _) = False"
| "no_timer (CCDone (CConnect _) _ _ _) = False"
| "no_timer _ = True"

lemma timers_frame [simp]:
  "timers (start_client_op op c) = timers c" "timers (close_client c) = timers c"
  "timers (client_store i bs c) = timers c" "timers (c\<lparr>c_ops := ops\<rparr>) = timers c"
  "timers (c\<lparr>c_posted := ts\<rparr>) = timers c" "timers (c\<lparr>c_write_msgs := ms\<rparr>) = timers c"
  "timers (c\<lparr>c_sent := x\<rparr>) = timers c" "timers (c\<lparr>c_read_msg := m\<rparr>) = timers c"
  "timers (c\<lparr>c_output := x\<rparr>) = timers c"
  by (simp_all add: timers_def start_client_op_def close_client_def client_store_def)

lemma client_do_write_timers: "client_do_write c = Inr c' \<Longrightarrow> timers c' = timers c"
  by (auto simp: client_do_write_def split: list.splits if_splits)

lemma run_posted_timers: "run_posted t c = Inr c' \<Longrightarrow> timers c' = timers c"
  by (cases t) (auto simp: run_write_def Let_def dest: client_do_write_timers split: if_splits)

lemma client_complete_timers:
  assumes "no_timer (CCDone op ec bs now)" "client_complete op ec bs now c = Inr c'"
  shows "timers c' = timers c"
proof (cases op)
  case CReadHeader
  then show ?thesis using assms
    by (auto simp: client_header_done_def client_do_read_body_def Let_def split: prod.splits if_splits)
next
  case (CReadBody n)
  then show ?thesis using assms by (auto simp: client_body_done_def client_do_read_header_def Let_def)
next
  case (CWrite w)
  then show ?thesis using assms
    by (auto simp: client_write_done_def Let_def dest!: client_do_write_timers split: list.splits if_splits)
qed (use assms in simp)

lemma exec_timers:
  assumes "no_timer e" "chat_client_exec e c = Inr c'"
  shows "timers c' = timers c"
proof (cases e)
  case (CCDone op ec bs now)
  then show ?thesis using assms client_complete_timers [of op ec bs now] by (auto split: if_splits)
next
  case CCRunPosted
  then show ?thesis using assms run_posted_timers by (fastforce split: list.splits)
qed (use assms in \<open>auto simp: chat_write_def chat_close_def\<close>)

lemma run_timers: "\<forall>e \<in> set es. no_timer e \<Longrightarrow> chat_client_run es c = Inr c' \<Longrightarrow> timers c' = timers c"
  by (induction es arbitrary: c) (auto dest: exec_timers simp del: chat_client_exec.simps)

section \<open>Reading frames\<close>

definition client_waiting :: "chat_client \<Rightarrow> bool" where
  "client_waiting c \<longleftrightarrow> c_ops c = [CReadHeader] \<and> chat_ok (c_read_msg c)"

definition frame_ok :: "string \<times> string \<Rightarrow> bool" where
  "frame_ok f \<longleftrightarrow> length (fst f) = 4 \<and> atoi (header_text (fst f)) = int (length (snd f)) \<and> length (snd f) \<le> 512"

definition frame_events :: "string \<times> string \<Rightarrow> chat_client_event list" where
  "frame_events f = [CCDone CReadHeader False (fst f) 0, CCDone (CReadBody (length (snd f))) False (snd f) 0]"

lemma client_reads_frame:
  assumes "client_waiting c" "frame_ok f"
  shows "\<exists>c'. chat_client_run (frame_events f) c = Inr c' \<and> client_waiting c'
     \<and> c_output c' = c_output c @ snd f @ [CHR 0x0A]"
proof -
  obtain hdr bs where f: "f = (hdr, bs)" by (cases f)
  with assms(2) have hdr: "length hdr = 4" "atoi (header_text hdr) = int (length bs)" "length bs \<le> 512"
    by (simp_all add: frame_ok_def)
  have w: "c_ops c = [CReadHeader]" "length (cdata (c_read_msg c)) = 516"
    using assms(1) by (simp_all add: client_waiting_def chat_ok_def)
  let ?r = "memcpy_at 0 hdr (cdata (c_read_msg c))"
  let ?m = "\<lparr>cdata = ?r, cbody_length = word_of_nat (length bs)\<rparr>"
  have "header_text ?r = header_text hdr" using hdr(1) by (simp add: header_text_def header_length_def memcpy_at_def)
  then have d: "decode_header ((c_read_msg c)\<lparr>cdata := ?r\<rparr>) = (True, ?m)"
    using hdr(2,3) by (cases "c_read_msg c") (simp add: decode_header_eq)
  have bl: "unat (word_of_nat (length bs) :: size_t) = length bs" using hdr(3) by (simp add: unat_of_nat)
  have r: "length ?r = 516" using w hdr(1) by simp
  have body: "take (length bs) (drop 4 (memcpy_at 4 bs ?r)) = bs" using hdr(1) by (simp add: memcpy_at_def)
  show ?thesis
    using w hdr d bl r body
    by (simp add: f frame_events_def client_header_done_def client_store_def client_do_read_body_def start_client_op_def
        client_body_done_def client_do_read_header_def header_length_def chat_body_def Let_def client_waiting_def
        chat_ok_def)
qed

section \<open>Properties\<close>

text \<open>The chat client, started on any number of endpoints and given well-formed messages, never
  executes undefined behaviour, whatever arrives, fails, expires or is posted; its only failure
  is the exception that a refused connect throws out of the context's \<open>run\<close>.\<close>

lemma chat_client_fails_only_on_refusal:
  assumes "length junk = 516" "\<forall>e \<in> set es. client_event_ok e"
  shows "outcome {Thrown ''Connect Error''} chat_client_inv
    (chat_client_run es (chat_start now n (new_chat_client junk)))"
  by (rule chat_client_run_inv [OF chat_client_start_inv [OF assms(1)] assms(2)])

text \<open>The client does not try the next endpoint after a refusal. The statement that throws comes
  before the ones that close the socket and try the next endpoint, so one refused connect ends
  the client with endpoints left; only a connect that has timed out first (its deadline closed
  the socket) moves on to the next endpoint.\<close>

lemma refused_connect_abandons_endpoints:
  "chat_client_run [CCDone (CConnect 0) True [] t] (chat_start now (Suc (Suc n)) (new_chat_client junk))
     = Inl (Thrown ''Connect Error'')
   \<and> (\<exists>c. chat_client_run [CCTimer (now + 5000), CCDone (CConnect 0) True [] t]
            (chat_start now (Suc (Suc n)) (new_chat_client junk)) = Inr c
        \<and> c_ops c = [CConnect 1] \<and> c_open c \<and> expiry c = Some (t + 5000))"
  by (simp add: chat_start_def do_connect_def new_chat_client_def start_client_op_def set_expiry_def Let_def
      handle_connect_def expired_def check_deadline_def close_client_def)

text \<open>The connect deadline also closes established connections. Nothing resets it when the
  connect succeeds, so whatever the client has read and written since, the first timer event
  five seconds after the start of the connect closes the socket.\<close>

lemma deadline_closes_live_connection:
  assumes "chat_client_run (CCDone (CConnect 0) False [] t # es) (chat_start now0 (Suc n) (new_chat_client junk)) = Inr c"
    and "\<forall>e \<in> set es. no_timer e" "now0 + 5000 \<le> now"
  shows "\<exists>c'. chat_client_exec (CCTimer now) c = Inr c' \<and> \<not> c_open c'"
proof -
  let ?c0 = "chat_start now0 (Suc n) (new_chat_client junk)"
  from assms(1) obtain c1 where c1: "chat_client_exec (CCDone (CConnect 0) False [] t) ?c0 = Inr c1"
    "chat_client_run es c1 = Inr c" by auto
  have "timers c1 = (False, Some (now0 + 5000), 1, 0)" using c1(1)
    by (auto simp: chat_start_def do_connect_def new_chat_client_def start_client_op_def set_expiry_def Let_def
        handle_connect_def client_do_read_header_def timers_def)
  with run_timers [OF assms(2) c1(2)] have "timers c = (False, Some (now0 + 5000), 1, 0)" by simp
  then show ?thesis using assms(3)
    by (simp add: timers_def expired_def check_deadline_def set_expiry_def close_client_def)
qed

text \<open>A client that reads a sequence of frames prints their bodies, each on a line, in order,
  and is ready for the next; these are the frames that the room relays.\<close>

lemma client_prints_bodies:
  assumes "client_waiting c" "\<forall>f \<in> set fs. frame_ok f"
  shows "\<exists>c'. chat_client_run (concat (map frame_events fs)) c = Inr c' \<and> client_waiting c'
     \<and> c_output c' = c_output c @ concat (map (\<lambda>f. snd f @ [CHR 0x0A]) fs)"
  using assms
proof (induction fs arbitrary: c)
  case (Cons f fs)
  from client_reads_frame [OF Cons.prems(1), of f] Cons.prems(2) obtain c1
    where c1: "chat_client_run (frame_events f) c = Inr c1" "client_waiting c1"
      "c_output c1 = c_output c @ snd f @ [CHR 0x0A]" by auto
  from Cons.IH [OF c1(2)] Cons.prems(2) c1 show ?case by (auto simp: run_events_append)
qed simp

text \<open>On both ends of a chat connection, the room's session and the client, messages are written
  in the order they were submitted, none lost, duplicated or left behind once as many writes
  have completed as messages were queued.\<close>

lemma chat_writes_in_order:
  assumes "chat_ready ss" "client_ready c" "\<forall>m \<in> set (session_pump.submitted es). chat_ok m"
  shows "(\<exists>out ss'. session_pump.pump es ss = Inr (out, ss') \<and> out @ write_msgs ss' = write_msgs ss @ session_pump.submitted es)
     \<and> (\<exists>out c'. client_pump.pump es c = Inr (out, c') \<and> out @ c_write_msgs c' = c_write_msgs c @ session_pump.submitted es)
     \<and> (\<exists>c'. client_pump.pump (replicate (length (c_write_msgs c)) None) c = Inr (c_write_msgs c, c') \<and> c_write_msgs c' = [])"
  using session_pump.pump_fifo [OF assms(1,3)] client_pump.pump_fifo [OF assms(2), of es] assms(3)
    client_pump.pump_drains [OF assms(2)]
  by auto

end
