(* ===== verification/ChatFrames.thy ===== *)
theory ChatFrames
  imports ChatClient FrameStream
begin

text \<open>
  The chat protocol as a stream of frames: where a reader stands in such a stream, and what each
  handler of the session (\<open>src/src/network/server.cpp\<close>) and of the client
  (\<open>src/src/network/client.cpp\<close>) does to it. The theory \<open>ChatSystem\<close> puts the two ends together.
\<close>

section \<open>Frames\<close>

definition chat_frame :: "chat_message \<Rightarrow> char frame" where
  "chat_frame m = (take header_length (cdata m), take (unat (cbody_length m)) (chat_body m))"

text \<open>A message whose header tells its length, as \<open>encode_header\<close> makes it.\<close>

definition framed :: "chat_message \<Rightarrow> bool" where
  "framed m \<longleftrightarrow> chat_ok m \<and> frame_ok (chat_frame m)"

abbreviation wires :: "chat_message list \<Rightarrow> string" where
  "wires ms \<equiv> concat (map wire ms)"

lemma framed_ok: "framed m \<Longrightarrow> chat_ok m" "framed m \<Longrightarrow> frame_ok (chat_frame m)"
  by (simp_all add: framed_def)

lemma header_text_take [simp]: "header_text (take 4 d) = header_text d"
  by (simp add: header_text_def header_length_def)

lemma wire_frame: "chat_ok m \<Longrightarrow> wire m = fst (chat_frame m) @ snd (chat_frame m)"
  by (simp add: chat_ok_def wire_def unat_chat_length chat_frame_def chat_body_def header_length_def take_add)

lemma wires_frames: "\<forall>m \<in> set ms. chat_ok m \<Longrightarrow> wires ms = frames_text (map chat_frame ms)"
  by (induction ms) (simp_all add: frames_text_def wire_frame)

lemma framed_iff:
  "framed m \<longleftrightarrow> chat_ok m \<and> atoi (header_text (cdata m)) = int (unat (cbody_length m))"
  by (auto simp: framed_def frame_ok_def chat_frame_def chat_ok_def header_length_def chat_body_def)

lemma encoded_framed:
  assumes "chat_ok m"
  shows "\<exists>m'. encode_header m = Inr m' \<and> framed m' \<and> snd (chat_frame m') = snd (chat_frame m)"
proof -
  let ?m' = "m\<lparr>cdata := memcpy_at 0 (header_chars m) (cdata m)\<rparr>"
  have ok: "unat (cbody_length m) \<le> 512" "length (cdata m) = 516" using assms by (simp_all add: chat_ok_def)
  note len = length_header_chars [OF ok(1)]
  have "take 4 (cdata ?m') = header_chars m" using len by (simp add: memcpy_at_def)
  then have "header_text (cdata ?m') = header_chars m" by (rule header_text_chars)
  then have "atoi (header_text (cdata ?m')) = int (unat (cbody_length m))"
    by (simp add: header_chars_def atoi_pad_dec)
  moreover have "chat_ok ?m'" using ok len by (simp add: chat_ok_def)
  moreover have "chat_body ?m' = chat_body m" using len by (simp add: chat_body_def header_length_def memcpy_at_def)
  ultimately show ?thesis using encode_header_eq [OF ok(1)] by (simp add: framed_iff chat_frame_def)
qed

text \<open>The stream is one of frames with a header of four characters.\<close>

interpretation chat_stream: frame_stream 4 frame_ok
  by unfold_locales (simp_all add: frame_ok_def)

section \<open>What a session hears\<close>

text \<open>The stream of a session that has been sent the messages of \<open>ms\<close> from the \<open>i\<close>-th on; a participant
  has been sent all of them.\<close>

definition hears :: "nat \<Rightarrow> bool \<Rightarrow> chat_message list \<Rightarrow> chat_session \<Rightarrow> bool" where
  "hears i participating ms ss \<longleftrightarrow> i \<le> length ms \<and> prefix (ss_sent ss) (wires (drop i ms))
     \<and> (chat_ready ss \<longrightarrow> prefix (stream ss) (wires (drop i ms)))
     \<and> (participating \<longrightarrow> chat_ready ss \<and> stream ss = wires (drop i ms))"

lemma prefix_sent: "prefix (ss_sent ss) (stream ss)"
  by (simp add: stream_def)

lemma hears_leaves: "hears i b ms ss \<Longrightarrow> hears i False ms ss"
  by (simp add: hears_def)

lemma hears_more: "hears i False ms ss \<Longrightarrow> hears i False (ms @ [m]) ss"
  by (simp add: hears_def)

lemma hears_enqueue: "hears i True ms ss \<Longrightarrow> chat_ok m \<Longrightarrow> hears i True (ms @ [m]) (enqueue m ss)"
  by (simp add: hears_def enqueue_ready prefix_prefix)

lemma hears_same_writer: "same_writer ss ss' \<Longrightarrow> hears i b ms ss \<Longrightarrow> hears i b ms ss'"
  by (simp add: hears_def same_writer_def chat_ready_def stream_def)

lemma same_writer_start: "same_writer ss ss' \<Longrightarrow> \<not> is_chat_write op \<Longrightarrow> same_writer ss (start_chat_op op ss')"
  by (simp add: same_writer_def)

section \<open>The session's handlers\<close>

lemma fun_upd_eq_iff [simp]: "f(p := x) = f(p := y) \<longleftrightarrow> x = y"
  by (metis fun_upd_same)

text \<open>The number of the header.\<close>

definition announced :: "string \<Rightarrow> int" where
  "announced hdr = atoi (header_text hdr)"

definition accepted :: "string \<Rightarrow> bool" where
  "accepted hdr \<longleftrightarrow> 0 \<le> announced hdr \<and> announced hdr \<le> 512"

text \<open>A session reading a body knows its length from the header it holds.\<close>

definition header_held :: "chat_session \<Rightarrow> bool" where
  "header_held ss \<longleftrightarrow> (\<forall>n. chat_reads ss = [ChReadBody n] \<longrightarrow> announced (cdata (read_msg ss)) = int n)"

lemma header_done_exact:
  assumes inv: "room_inv h s" and ss: "sessions s p = Some ss" and op: "ChReadHeader \<in> set (ss_ops ss)"
    and bs: "chat_transfer ChReadHeader ec bs"
  shows "\<exists>s' ss'. read_header_done p ec bs (ss\<lparr>ss_ops := remove1 ChReadHeader (ss_ops ss)\<rparr>) s = Inr s'
     \<and> sessions s' = (sessions s)(p \<mapsto> ss') \<and> next_session s' = next_session s
     \<and> participants s' = (if \<not> ec \<and> accepted bs then participants s else removeAll p (participants s))
     \<and> same_writer ss ss'
     \<and> chat_reads ss' = (if \<not> ec \<and> accepted bs then [ChReadBody (nat (announced bs))] else [])
     \<and> (\<not> ec \<longrightarrow> take 4 (cdata (read_msg ss')) = bs)"
proof -
  let ?ss = "store_text 0 bs (ss\<lparr>ss_ops := remove1 ChReadHeader (ss_ops ss)\<rparr>)"
  have si: "session_inv ss" using inv ss by (auto simp: room_inv_def)
  note rc = read_completes [OF si op, simplified]
  have w: "same_writer ss (?ss\<lparr>read_msg := m\<rparr>)" for m using rc(2) by (simp add: same_writer_def chat_writes_def store_text_def)
  have r: "chat_reads (?ss\<lparr>read_msg := m\<rparr>) = []" for m using rc(1) by (simp add: chat_reads_def store_text_def)
  show ?thesis
  proof (cases ec)
    case True
    then show ?thesis using w [of "read_msg ?ss"] r [of "read_msg ?ss"]
      by (simp add: read_header_done_def room_leave_def)
  next
    case False
    then have four: "length bs = 4" using bs by simp
    have cd: "cdata (read_msg ?ss) = memcpy_at 0 bs (cdata (read_msg ss))" by (simp add: store_text_def)
    have ann: "atoi (header_text (cdata (read_msg ?ss))) = announced bs"
      using four by (simp add: cd announced_def header_text_def header_length_def memcpy_at_def)
    have held: "take 4 (cdata (read_msg ?ss)) = bs" using four by (simp add: cd memcpy_at_def)
    have ok: "chat_ok (read_msg ?ss)" using si four
      by (intro store_text_ok) (simp_all add: session_inv_def chat_reading_def)
    show ?thesis
    proof (cases "accepted bs")
      case True
      let ?m = "(read_msg ?ss)\<lparr>cbody_length := word_of_int (announced bs)\<rparr>"
      have d: "decode_header (read_msg ?ss) = (True, ?m)" using True ann
        by (simp add: decode_header_eq accepted_def Let_def)
      have n: "unat (word_of_int (announced bs) :: size_t) = nat (announced bs)" using True
        by (intro unat_small) (simp_all add: accepted_def)
      have "do_read_body (?ss\<lparr>read_msg := ?m\<rparr>)
          = Inr (start_chat_op (ChReadBody (nat (announced bs))) (?ss\<lparr>read_msg := ?m\<rparr>))"
        using ok True n by (simp add: do_read_body_def header_length_def accepted_def chat_ok_def nat_le_iff Let_def)
      moreover have "same_writer ss (start_chat_op (ChReadBody (nat (announced bs))) (?ss\<lparr>read_msg := ?m\<rparr>))"
        by (rule same_writer_start [OF w]) simp
      ultimately show ?thesis using False True d r [of ?m] held by (simp add: read_header_done_def Let_def)
    next
      case no: False
      have d: "decode_header (read_msg ?ss) = (False, (read_msg ?ss)\<lparr>cbody_length := 0\<rparr>)" using no ann
        by (auto simp: decode_header_eq accepted_def Let_def)
      show ?thesis using False no d w r held by (simp add: read_header_done_def room_leave_def Let_def)
    qed
  qed
qed

lemma on_session_next: "on_session p f s = Inr s' \<Longrightarrow> next_session s' = next_session s"
  by (auto simp: on_session_def split: option.splits)

lemma deliver_each_next: "deliver_each ps m s = Inr s' \<Longrightarrow> next_session s' = next_session s"
  by (induction ps arbitrary: s) (auto dest: on_session_next)

lemma room_deliver_next: "room_deliver m s = Inr s' \<Longrightarrow> next_session s' = next_session s"
  by (auto simp: room_deliver_def Let_def dest: deliver_each_next)

lemma body_done_exact:
  assumes inv: "room_inv h s" and ss: "sessions s p = Some ss" and op: "ChReadBody n \<in> set (ss_ops ss)"
    and bs: "chat_transfer (ChReadBody n) ec bs"
  shows "\<exists>s' ss'. read_body_done p ec bs (ss\<lparr>ss_ops := remove1 (ChReadBody n) (ss_ops ss)\<rparr>) s = Inr s'
     \<and> next_session s' = next_session s \<and> same_writer ss ss'
     \<and> (if ec then sessions s' = (sessions s)(p \<mapsto> ss') \<and> participants s' = removeAll p (participants s) \<and> chat_reads ss' = []
        else participants s' = participants s
          \<and> sessions s' = (\<lambda>q. if q = p then Some (do_read_header (if p \<in> set (participants s)
                then enqueue (read_msg ss') ss' else ss'))
              else if q \<in> set (participants s) then map_option (enqueue (read_msg ss')) (sessions s q)
              else sessions s q)
          \<and> chat_reads ss' = [] \<and> read_msg ss' = read_msg (store_text header_length bs ss) \<and> chat_ok (read_msg ss'))"
proof -
  let ?ss = "store_text 4 bs (ss\<lparr>ss_ops := remove1 (ChReadBody n) (ss_ops ss)\<rparr>)"
  let ?m = "read_msg ?ss"
  have si: "session_inv ss" "p \<in> set (participants s) \<Longrightarrow> heard h ss" using inv ss by (auto simp: room_inv_def)
  note rc = read_completes [OF si(1) op, simplified]
  have "unat (cbody_length (read_msg ss)) \<le> 512" "chat_ok (read_msg ss)" using si(1)
    by (simp_all add: session_inv_def chat_reading_def chat_ok_def)
  then have ok: "chat_ok ?m" using bs rc(3) by (intro store_text_ok) (auto split: if_splits)
  have w: "same_writer ss ?ss" using rc(2) by (simp add: same_writer_def)
  have r: "chat_reads ?ss = []" using rc(1) by simp
  show ?thesis
  proof (cases ec)
    case True
    then show ?thesis using w r by (simp add: read_body_done_def room_leave_def header_length_def)
  next
    case False
    have "chat_reading ?ss" using r ok by (simp add: chat_reading_def)
    then have "session_inv ?ss" using same_writer_inv [OF w si(1)] by blast
    then have "room_inv h (upd_session p ?ss s)" using room_inv_upd [OF inv ss] same_writer_heard [OF w] si(2) by blast
    from room_deliver_ok [OF this ok] obtain s1 where s1: "room_deliver ?m (upd_session p ?ss s) = Inr s1"
      "participants s1 = participants s" "sessions s1 = (\<lambda>q. if q \<in> set (participants s)
         then map_option (enqueue ?m) (((sessions s)(p \<mapsto> ?ss)) q) else ((sessions s)(p \<mapsto> ?ss)) q)"
      by (auto cong: if_cong)
    let ?s1 = "if p \<in> set (participants s) then enqueue ?m ?ss else ?ss"
    have p1: "sessions s1 p = Some ?s1" using s1(3) by simp
    have n1: "next_session s1 = next_session s" using room_deliver_next [OF s1(1)] by simp
    have "read_body_done p ec bs (ss\<lparr>ss_ops := remove1 (ChReadBody n) (ss_ops ss)\<rparr>) s
        = Inr (upd_session p (do_read_header ?s1) s1)"
      using False s1(1) p1 by (simp add: read_body_done_def on_session_eq header_length_def Let_def)
    moreover have "sessions (upd_session p (do_read_header ?s1) s1) = (\<lambda>q. if q = p then Some (do_read_header ?s1)
              else if q \<in> set (participants s) then map_option (enqueue ?m) (sessions s q) else sessions s q)"
      using s1(3) by (auto simp: fun_eq_iff)
    moreover have "?m = read_msg (store_text header_length bs ss)" by (simp add: store_text_def header_length_def)
    ultimately show ?thesis using False s1(2) n1 w r ok
      by (intro exI [of _ "upd_session p (do_read_header ?s1) s1"] exI [of _ ?ss]) simp
  qed
qed

lemma write_done_exact:
  assumes inv: "room_inv h s" and ss: "sessions s p = Some ss" and op: "ChWrite w \<in> set (ss_ops ss)"
    and bs: "chat_transfer (ChWrite w) ec bs" and hears: "hears i (p \<in> set (participants s)) ms ss"
  shows "\<exists>s' ss'. write_done p ec bs (ss\<lparr>ss_ops := remove1 (ChWrite w) (ss_ops ss)\<rparr>) s = Inr s'
     \<and> sessions s' = (sessions s)(p \<mapsto> ss') \<and> next_session s' = next_session s
     \<and> participants s' = (if ec then removeAll p (participants s) else participants s)
     \<and> hears i (p \<in> set (participants s')) ms ss' \<and> chat_reads ss' = chat_reads ss \<and> read_msg ss' = read_msg ss
     \<and> prefix (ss_sent ss) (ss_sent ss')"
proof -
  have si: "session_inv ss" using inv ss by (auto simp: room_inv_def)
  have "ChWrite w \<in> set (chat_writes ss)" using op by (simp add: chat_writes_def)
  then have ready: "chat_ready ss" using si(1) by (auto simp: session_inv_def chat_dead_def)
  with \<open>ChWrite w \<in> set (chat_writes ss)\<close> obtain m rest
    where m: "write_msgs ss = m # rest" "w = wire m" "chat_writes ss = [ChWrite (wire m)]"
    by (cases "write_msgs ss") (auto simp: chat_ready_def)
  note rw = remove_write [OF m(3) [unfolded chat_writes_def]]
  show ?thesis
  proof (cases ec)
    case False
    let ?ss = "ss\<lparr>ss_ops := remove1 (ChWrite (wire m)) (ss_ops ss), ss_sent := ss_sent ss @ wire m\<rparr>"
    have "write_msgs ?ss = m # rest" "chat_writes ?ss = []" "\<forall>m \<in> set rest. chat_ok m"
      using m ready rw by (simp_all add: chat_ready_def chat_writes_def)
    from write_popped_ready [OF this] obtain ss' where ss': "write_popped ?ss = Inr ss'" "chat_ready ss'"
      "write_msgs ss' = rest" "ss_sent ss' = ss_sent ss @ wire m" "read_msg ss' = read_msg ss" "chat_reads ss' = chat_reads ss"
      using rw m(2) by (auto simp: chat_reads_def)
    have "stream ss' = stream ss" using ss' m by (simp add: stream_def)
    moreover have "prefix (ss_sent ss') (wires (drop i ms))"
      using hears ready ss'(4) m(1) by (auto simp: hears_def stream_def prefix_def)
    ultimately have "hears i (p \<in> set (participants s)) ms ss'" using hears ss'(2) ready by (simp add: hears_def)
    then show ?thesis using ss' m bs False by (intro exI [of _ "upd_session p ss' s"]) (simp add: write_done_def)
  next
    case True
    let ?ss = "ss\<lparr>ss_ops := remove1 (ChWrite w) (ss_ops ss), ss_sent := ss_sent ss @ bs\<rparr>"
    have c: "chat_writes ?ss = []" "chat_reads ?ss = chat_reads ss"
      using rw m(2) by (simp_all add: chat_writes_def chat_reads_def)
    have "prefix (ss_sent ss @ bs) (stream ss)" using bs True m by (auto simp: stream_def prefix_def)
    then have "prefix (ss_sent ?ss) (wires (drop i ms))"
      using hears ready prefix_order.order_trans by (fastforce simp: hears_def)
    moreover have "\<not> chat_ready ?ss" using c(1) m(1) by (simp add: chat_ready_def)
    ultimately have "hears i False ms ?ss" using hears by (simp add: hears_def)
    then show ?thesis using True c
      by (intro exI [of _ "room_leave p (upd_session p ?ss s)"]) (simp add: write_done_def room_leave_def)
  qed
qed

lemma accept_exact:
  assumes inv: "room_inv h s" and junk: "length junk = 516"
  shows "\<exists>s' ss'. accept_session False junk s = Inr s' \<and> sessions s (next_session s) = None
     \<and> sessions s' = (sessions s)(next_session s \<mapsto> ss') \<and> next_session s' = Suc (next_session s)
     \<and> set (participants s') = insert (next_session s) (set (participants s)) \<and> next_session s \<notin> set (participants s)
     \<and> chat_reads ss' = [ChReadHeader] \<and> hears (length h - 100) True h ss'"
proof -
  let ?p = "next_session s"
  let ?ss = "fold enqueue (recent_msgs s) (new_session junk)"
  let ?ps = "insort ?p (participants s)"
  have new: "chat_ready (new_session junk)" "stream (new_session junk) = []" "chat_reads (new_session junk) = []"
    by (simp_all add: new_session_def chat_ready_def chat_writes_def stream_def chat_reads_def)
  have rec: "\<forall>m \<in> set (recent_msgs s). chat_ok m" using inv by (auto simp: room_inv_def dest: in_set_dropD)
  have fresh: "?p \<notin> set (participants s)" "sessions s ?p = None"
    using inv by (fastforce simp: room_inv_def)+
  note ss = fold_enqueue [OF rec new(1)]
  have "hears (length h - 100) True h (do_read_header ?ss)" "chat_reads (do_read_header ?ss) = [ChReadHeader]"
    using ss new inv prefix_sent [of ?ss] by (simp_all add: hears_def do_read_header_def room_inv_def)
  moreover have "accept_session False junk s
      = Inr (s\<lparr>participants := ?ps, sessions := (sessions s)(?p \<mapsto> do_read_header ?ss), next_session := Suc ?p\<rparr>)"
    using fresh rec
    by (simp add: accept_session_def session_start_def room_join_def deliver_recent_eq [where ss = "new_session junk"]
        on_session_eq Let_def upd_session_def)
  ultimately show ?thesis using fresh by (simp add: set_insort_key)
qed

section \<open>A session reading frames\<close>

text \<open>The session has delivered the messages \<open>ms\<close>, which are the first frames of \<open>fs\<close>, and has read \<open>n\<close>
  characters; it has stopped reading or reads the header or the body of the next frame.\<close>

definition session_reads :: "char frame list \<Rightarrow> nat \<Rightarrow> chat_message list \<Rightarrow> chat_session \<Rightarrow> bool" where
  "session_reads fs n ms ss \<longleftrightarrow> (\<exists>k \<le> length fs. map chat_frame ms = take k fs
     \<and> (chat_reads ss = []
        \<or> before_frame fs n k \<and> chat_reads ss = [ChReadHeader]
        \<or> in_frame 4 fs n k \<and> chat_reads ss = [ChReadBody (length (snd (fs ! k)))]
            \<and> take 4 (cdata (read_msg ss)) = fst (fs ! k)))"

lemma session_reads_append: "session_reads fs n ms ss \<Longrightarrow> session_reads (fs @ gs) n ms ss"
proof -
  assume "session_reads fs n ms ss"
  then obtain k where k: "k \<le> length fs" "map chat_frame ms = take k fs" "chat_reads ss = []
        \<or> before_frame fs n k \<and> chat_reads ss = [ChReadHeader]
        \<or> in_frame 4 fs n k \<and> chat_reads ss = [ChReadBody (length (snd (fs ! k)))]
            \<and> take 4 (cdata (read_msg ss)) = fst (fs ! k)" by (auto simp: session_reads_def)
  moreover have "(fs @ gs) ! k = fs ! k" if "in_frame 4 fs n k" using that by (simp add: in_frame_def nth_append)
  ultimately show ?thesis unfolding session_reads_def
    by (intro exI [of _ k]) (auto simp: before_frame_append in_frame_append)
qed

lemma session_reads_cong:
  "session_reads fs n ms ss \<Longrightarrow> chat_reads ss' = chat_reads ss \<Longrightarrow> read_msg ss' = read_msg ss \<Longrightarrow> session_reads fs n ms ss'"
  by (simp add: session_reads_def)

lemma session_reads_stop: "session_reads fs n ms ss \<Longrightarrow> chat_reads ss' = [] \<Longrightarrow> session_reads fs n' ms ss'"
  by (auto simp: session_reads_def)

lemma in_reads: "\<not> is_chat_write op \<Longrightarrow> op \<in> set (ss_ops ss) \<longleftrightarrow> op \<in> set (chat_reads ss)"
  by (simp add: chat_reads_def)

lemma session_reads_header:
  assumes "session_reads fs n ms ss" "\<forall>f \<in> set fs. frame_ok f" "prefix av (frames_text fs)" "prefix bs (drop n av)"
    and "ChReadHeader \<in> set (ss_ops ss)" "length bs = 4"
    and "chat_reads ss' = (if accepted bs then [ChReadBody (nat (announced bs))] else [])"
      "take 4 (cdata (read_msg ss')) = bs"
  shows "session_reads fs (n + 4) ms ss' \<and> accepted bs"
proof -
  obtain k where k: "map chat_frame ms = take k fs" "before_frame fs n k"
    using assms(1,5) by (auto simp: session_reads_def in_reads)
  note h = chat_stream.reads_header [OF assms(2) k(2) assms(3,4,6)]
  have "frame_ok (fs ! k)" using assms(2) h(1) by simp
  then have "announced bs = int (length (snd (fs ! k)))" "length (snd (fs ! k)) \<le> 512"
    using h(2) by (simp_all add: frame_ok_def announced_def)
  then have "accepted bs" "nat (announced bs) = length (snd (fs ! k))" by (simp_all add: accepted_def)
  then show ?thesis using k h assms(7,8) unfolding session_reads_def by (auto intro!: exI [of _ k])
qed

lemma session_reads_body:
  assumes "session_reads fs n ms ss" "\<forall>f \<in> set fs. frame_ok f" "prefix av (frames_text fs)" "prefix bs (drop n av)"
    and "ChReadBody l \<in> set (ss_ops ss)" "length bs = l" "header_held ss" "session_inv ss"
    and "chat_reads ss' = [ChReadHeader]"
  shows "session_reads fs (n + length bs) (ms @ [read_msg (store_text header_length bs ss)]) ss'"
proof -
  let ?m = "read_msg (store_text header_length bs ss)"
  obtain k where k: "map chat_frame ms = take k fs" "in_frame 4 fs n k" "l = length (snd (fs ! k))"
      "take 4 (cdata (read_msg ss)) = fst (fs ! k)" "chat_reads ss = [ChReadBody l]"
    using assms(1,5) by (auto simp: session_reads_def in_reads)
  note b = chat_stream.reads_body [OF assms(2) k(2) assms(3,4)]
  have r: "length (cdata (read_msg ss)) = 516" "unat (cbody_length (read_msg ss)) = l"
    using assms(8) k(5) by (auto simp: session_inv_def chat_reading_def chat_ok_def)
  have "cdata ?m = memcpy_at 4 bs (cdata (read_msg ss))" by (simp add: store_text_def header_length_def)
  moreover have "length (fst (fs ! k)) = 4" using r(1) by (simp add: k(4) [symmetric])
  ultimately have "chat_frame ?m = (fst (fs ! k), bs)" using r k(4) assms(6)
    by (simp add: chat_frame_def chat_body_def header_length_def memcpy_at_def)
  then have "map chat_frame (ms @ [?m]) = take (Suc k) fs" using b k(1,3) assms(6) by simp
  moreover have "Suc k \<le> length fs" using k(2) by (simp add: in_frame_def)
  ultimately show ?thesis using b(2) k(3) assms(6,9) unfolding session_reads_def by auto
qed

text \<open>Whoever sends it, a message that a session delivers tells its length.\<close>

lemma delivered_framed:
  assumes "header_held ss" "session_inv ss" "ChReadBody l \<in> set (ss_ops ss)" "length bs = l"
  shows "framed (read_msg (store_text header_length bs ss))"
proof -
  let ?m = "read_msg (store_text header_length bs ss)"
  have "ChReadBody l \<in> set (chat_reads ss)" using assms(3) by (simp add: in_reads)
  then have k: "chat_reads ss = [ChReadBody l]" using assms(2) by (auto simp: session_inv_def chat_reading_def)
  have r: "length (cdata (read_msg ss)) = 516" "unat (cbody_length (read_msg ss)) = l" "l \<le> 512"
    using assms(2) k by (auto simp: session_inv_def chat_reading_def chat_ok_def)
  have c: "cdata ?m = memcpy_at 4 bs (cdata (read_msg ss))" by (simp add: store_text_def header_length_def)
  then have "take 4 (cdata ?m) = take 4 (cdata (read_msg ss))" using r by (simp add: memcpy_at_def)
  then have "header_text (cdata ?m) = header_text (cdata (read_msg ss))" by (metis header_text_take)
  moreover have "atoi (header_text (cdata (read_msg ss))) = int l"
    using assms(1) k by (simp add: header_held_def announced_def)
  moreover have "chat_ok ?m" using r assms(4) c by (simp add: chat_ok_def)
  ultimately show ?thesis using r by (simp add: framed_iff)
qed

section \<open>What a client says\<close>

fun posted_msgs :: "posted_task list \<Rightarrow> chat_message list" where
  "posted_msgs [] = []"
| "posted_msgs (PWrite m # ts) = m # posted_msgs ts"
| "posted_msgs (PClose # ts) = posted_msgs ts"

lemma posted_msgs_append [simp]: "posted_msgs (ts @ us) = posted_msgs ts @ posted_msgs us"
  by (induction ts rule: posted_msgs.induct) simp_all

text \<open>The client has been asked to write the messages \<open>ms\<close>; what its socket has accepted is a beginning
  of them.\<close>

definition says :: "chat_message list \<Rightarrow> chat_client \<Rightarrow> bool" where
  "says ms c \<longleftrightarrow> (\<exists>put. ms = put @ posted_msgs (c_posted c) \<and> prefix (c_sent c) (wires put)
     \<and> (client_ready c \<longrightarrow> c_sent c @ wires (c_write_msgs c) = wires put))"

fun saying :: "chat_client_event \<Rightarrow> chat_message list" where
  "saying (CCWrite m) = [m]"
| "saying _ = []"

definition writer_view :: "chat_client \<Rightarrow> client_op list \<times> chat_message list \<times> string \<times> posted_task list" where
  "writer_view c = (client_writes c, c_write_msgs c, c_sent c, c_posted c)"

lemma says_view: "says ms c \<Longrightarrow> writer_view c' = writer_view c \<Longrightarrow> says ms c'"
  by (simp add: says_def writer_view_def client_ready_def)

lemma says_sent: "says ms c \<Longrightarrow> prefix (c_sent c) (wires ms)"
  by (auto simp: says_def prefix_def)

lemma writer_view_frame [simp]:
  "writer_view (c\<lparr>c_open := b\<rparr>) = writer_view c" "writer_view (close_client c) = writer_view c"
  "writer_view (set_expiry t c) = writer_view c" "writer_view (c\<lparr>waits := k\<rparr>) = writer_view c"
  "writer_view (c\<lparr>aborted_waits := k\<rparr>) = writer_view c" "writer_view (client_store i bs c) = writer_view c"
  "writer_view (c\<lparr>c_output := x\<rparr>) = writer_view c" "writer_view (c\<lparr>c_read_msg := m\<rparr>) = writer_view c"
  "\<not> is_client_write op \<Longrightarrow> writer_view (start_client_op op c) = writer_view c"
  "\<not> is_client_write op \<Longrightarrow> writer_view (c\<lparr>c_ops := remove1 op (c_ops c)\<rparr>) = writer_view c"
  by (simp_all add: writer_view_def client_writes_def filter_remove1 remove1_idem start_client_op_def
      set_expiry_def close_client_def client_store_def)

lemma ctrl_view:
  assumes "\<not> is_client_write op" "client_complete op ec bs now c = Inr c'"
  shows "writer_view c' = writer_view c"
proof (cases op)
  case (CConnect i)
  then show ?thesis using assms
    by (auto simp: handle_connect_def do_connect_def client_do_read_header_def split: if_splits)
next
  case CReadHeader
  then show ?thesis using assms
    by (auto simp: client_header_done_def client_do_read_body_def Let_def split: prod.splits if_splits)
next
  case (CReadBody n)
  then show ?thesis using assms by (auto simp: client_body_done_def client_do_read_header_def Let_def)
qed (use assms in simp)

lemma run_write_says:
  assumes sd: "says ms c" and c: "c_posted c = PWrite m # ts" and ok: "chat_ok m"
    and rd: "client_ready c \<or> client_dead c" and ex: "run_write m (c\<lparr>c_posted := ts\<rparr>) = Inr c'"
  shows "says ms c'"
proof -
  from sd c obtain put where put: "ms = put @ m # posted_msgs ts" "prefix (c_sent c) (wires put)"
    "client_ready c \<longrightarrow> c_sent c @ wires (c_write_msgs c) = wires put" by (auto simp: says_def)
  have c': "c' = (let c' = c\<lparr>c_posted := ts, c_write_msgs := c_write_msgs c @ [m]\<rparr>
     in if c_write_msgs c = [] then start_client_op (CWrite (wire m)) c' else c')"
    using run_write_eq [OF ok, of "c\<lparr>c_posted := ts\<rparr>"] ex by simp
  have "c_posted c' = ts" "c_sent c' = c_sent c" "c_write_msgs c' = c_write_msgs c @ [m]"
    using c' by (simp_all add: Let_def)
  moreover have "client_ready c" if "client_ready c'" using that rd c'
    by (cases "c_write_msgs c") (auto simp: client_ready_def client_dead_def Let_def)
  ultimately show ?thesis using put unfolding says_def
    by (intro exI [of _ "put @ [m]"]) (auto intro: prefix_prefix)
qed

lemma says_step:
  assumes inv: "chat_client_inv c" and sd: "says ms c" and ex: "chat_client_exec e c = Inr c'"
  shows "says (ms @ saying e) c'"
proof (cases e)
  case (CCWrite m)
  from sd obtain put where "ms = put @ posted_msgs (c_posted c)" "prefix (c_sent c) (wires put)"
    "client_ready c \<longrightarrow> c_sent c @ wires (c_write_msgs c) = wires put" by (auto simp: says_def)
  then show ?thesis using ex CCWrite unfolding says_def
    by (intro exI [of _ put]) (auto simp: chat_write_def client_ready_def)
next
  case CCClose
  then show ?thesis using ex sd by (auto simp: says_def chat_close_def client_ready_def)
next
  case (CCTimer now)
  then have "writer_view c' = writer_view c" using ex by (auto simp: check_deadline_def Let_def split: if_splits)
  then show ?thesis using says_view [OF sd] CCTimer by simp
next
  case CCRunPosted
  show ?thesis
  proof (cases "c_posted c")
    case Nil
    then show ?thesis using ex sd CCRunPosted by simp
  next
    case (Cons t ts)
    show ?thesis
    proof (cases t)
      case PClose
      then have "c' = close_client (c\<lparr>c_posted := ts\<rparr>)" using ex CCRunPosted Cons by simp
      then show ?thesis using sd Cons PClose CCRunPosted
        by (auto simp: says_def client_ready_def)
    next
      case (PWrite m)
      have "chat_ok m" using inv Cons PWrite by (simp add: chat_client_inv_def)
      then show ?thesis using run_write_says [OF sd, of m ts c'] inv ex CCRunPosted Cons PWrite
        by (simp add: chat_client_inv_def)
    qed
  qed
next
  case (CCDone op ec bs now)
  show ?thesis
  proof (cases "op \<in> set (c_ops c) \<and> client_transfer op ec bs")
    case False
    then have "c' = c" using ex CCDone by auto
    then show ?thesis using sd CCDone by simp
  next
    case True
    then have ex': "client_complete op ec bs now (c\<lparr>c_ops := remove1 op (c_ops c)\<rparr>) = Inr c'" using ex CCDone by simp
    show ?thesis
    proof (cases "is_client_write op")
      case False
      then have "writer_view c' = writer_view c" using ctrl_view [OF False ex'] by simp
      then show ?thesis using says_view [OF sd] CCDone by simp
    next
      case w: True
      then obtain w where op: "op = CWrite w" by (cases op) simp_all
      have "CWrite w \<in> set (client_writes c)" using True op by (simp add: client_writes_def)
      then have ready: "client_ready c" using inv by (auto simp: chat_client_inv_def client_dead_def)
      with \<open>CWrite w \<in> set (client_writes c)\<close> obtain m rest
        where m: "c_write_msgs c = m # rest" "w = wire m" "client_writes c = [CWrite (wire m)]"
        by (cases "c_write_msgs c") (auto simp: client_ready_def)
      from sd ready obtain put where put: "ms = put @ posted_msgs (c_posted c)"
        "wires put = c_sent c @ wires (c_write_msgs c)" by (auto simp: says_def)
      show ?thesis
      proof (cases ec)
        case False
        from client_written_ready [OF ready m(1)] obtain c1 where c1: "client_written c = Inr c1"
          "c_write_msgs c1 = rest" "c_posted c1 = c_posted c" "c_sent c1 = c_sent c @ wire m" by blast
        have "c1 = c'" using c1(1) ex' op m True False by (simp add: client_written_def)
        then show ?thesis using put c1 m CCDone unfolding says_def
          by (intro exI [of _ put]) (auto simp: prefix_def)
      next
        case True
        have "prefix bs w" using \<open>op \<in> set (c_ops c) \<and> client_transfer op ec bs\<close> op True by simp
        moreover have c': "c_sent c' = c_sent c @ bs" "c_posted c' = c_posted c" "c_write_msgs c' = c_write_msgs c"
          "client_writes c' = []"
          using ex' op True m(2) remove_client_write [OF m(3)] by (auto simp: client_write_done_def)
        ultimately show ?thesis using put m CCDone unfolding says_def
          by (intro exI [of _ put]) (auto simp: prefix_def client_ready_def)
      qed
    qed
  qed
qed

section \<open>A client reading frames\<close>

definition chat_line :: "char frame \<Rightarrow> string" where
  "chat_line f = snd f @ [CHR 0x0A]"

definition printed :: "char frame list \<Rightarrow> string" where
  "printed fs = concat (map chat_line fs)"

text \<open>The client has printed the first frames of \<open>fs\<close> and has read \<open>n\<close> characters; it has stopped reading
  or reads the header or the body of the next frame.\<close>

definition client_reads :: "char frame list \<Rightarrow> nat \<Rightarrow> chat_client \<Rightarrow> bool" where
  "client_reads fs n c \<longleftrightarrow> (\<exists>k \<le> length fs. c_output c = printed (take k fs)
     \<and> (client_ctrl c = []
        \<or> before_frame fs n k \<and> client_ctrl c = [CReadHeader]
        \<or> in_frame 4 fs n k \<and> client_ctrl c = [CReadBody (length (snd (fs ! k)))]))"

lemma client_reads_append: "client_reads fs n c \<Longrightarrow> client_reads (fs @ gs) n c"
proof -
  assume "client_reads fs n c"
  then obtain k where k: "k \<le> length fs" "c_output c = printed (take k fs)" "client_ctrl c = []
        \<or> before_frame fs n k \<and> client_ctrl c = [CReadHeader]
        \<or> in_frame 4 fs n k \<and> client_ctrl c = [CReadBody (length (snd (fs ! k)))]" by (auto simp: client_reads_def)
  moreover have "(fs @ gs) ! k = fs ! k" if "in_frame 4 fs n k" using that by (simp add: in_frame_def nth_append)
  ultimately show ?thesis unfolding client_reads_def
    by (intro exI [of _ k]) (auto simp: before_frame_append in_frame_append)
qed

definition reader_view :: "chat_client \<Rightarrow> client_op list \<times> string" where
  "reader_view c = (client_ctrl c, c_output c)"

lemma client_reads_view: "client_reads fs n c \<Longrightarrow> reader_view c' = reader_view c \<Longrightarrow> client_reads fs n c'"
  by (simp add: client_reads_def reader_view_def)

lemma client_reads_stop:
  "client_reads fs n c \<Longrightarrow> client_ctrl c' = [] \<Longrightarrow> c_output c' = c_output c \<Longrightarrow> client_reads fs n' c'"
  by (auto simp: client_reads_def)

text \<open>What an event takes from the socket.\<close>

fun reading :: "client_op \<Rightarrow> bool" where
  "reading CReadHeader = True"
| "reading (CReadBody n) = True"
| "reading _ = False"

fun taken :: "chat_client \<Rightarrow> chat_client_event \<Rightarrow> string" where
  "taken c (CCDone op ec bs now) = (if reading op \<and> op \<in> set (c_ops c) \<and> client_transfer op ec bs then bs else [])"
| "taken c _ = []"

lemma in_ctrl: "\<not> is_client_write op \<Longrightarrow> op \<in> set (c_ops c) \<longleftrightarrow> op \<in> set (client_ctrl c)"
  by (simp add: client_ctrl_def)

lemma reader_view_frame [simp]:
  "reader_view (c\<lparr>c_open := b\<rparr>) = reader_view c" "reader_view (close_client c) = reader_view c"
  "reader_view (set_expiry t c) = reader_view c" "reader_view (c\<lparr>waits := k\<rparr>) = reader_view c"
  "reader_view (c\<lparr>aborted_waits := k\<rparr>) = reader_view c" "reader_view (c\<lparr>c_posted := ts\<rparr>) = reader_view c"
  "reader_view (c\<lparr>c_write_msgs := ms\<rparr>) = reader_view c" "reader_view (c\<lparr>c_sent := x\<rparr>) = reader_view c"
  "is_client_write op \<Longrightarrow> reader_view (start_client_op op c) = reader_view c"
  "is_client_write op \<Longrightarrow> reader_view (c\<lparr>c_ops := remove1 op (c_ops c)\<rparr>) = reader_view c"
  by (simp_all add: reader_view_def client_ctrl_def filter_remove1 remove1_idem start_client_op_def
      set_expiry_def close_client_def)

lemma client_do_write_view: "client_do_write c = Inr c' \<Longrightarrow> reader_view c' = reader_view c"
  by (auto simp: client_do_write_def split: list.splits if_splits)

lemma run_write_view: "run_write m c = Inr c' \<Longrightarrow> reader_view c' = reader_view c"
  by (auto simp: run_write_def Let_def dest: client_do_write_view split: if_splits)

lemma client_write_view: "client_write_done ec bs c = Inr c' \<Longrightarrow> reader_view c' = reader_view c"
  by (auto simp: client_write_done_def Let_def dest!: client_do_write_view split: list.splits if_splits)

lemma other_events_view:
  assumes "chat_client_exec e c = Inr c'"
    and "\<And>op ec bs now. e = CCDone op ec bs now \<Longrightarrow> op \<in> set (c_ops c) \<Longrightarrow> is_client_write op"
  shows "reader_view c' = reader_view c"
proof (cases e)
  case (CCDone op ec bs now)
  show ?thesis
  proof (cases "op \<in> set (c_ops c) \<and> client_transfer op ec bs")
    case True
    then obtain w where "op = CWrite w" using assms(2) [OF CCDone] by (cases op) auto
    then have "client_write_done ec bs (c\<lparr>c_ops := remove1 op (c_ops c)\<rparr>) = Inr c'"
      using assms(1) CCDone True by (cases ec) simp_all
    then have "reader_view c' = reader_view (c\<lparr>c_ops := remove1 op (c_ops c)\<rparr>)" by (rule client_write_view)
    then show ?thesis using \<open>op = CWrite w\<close> by simp
  qed (use assms(1) CCDone in auto)
next
  case CCRunPosted
  show ?thesis
  proof (cases "c_posted c")
    case (Cons t ts)
    then show ?thesis using assms(1) CCRunPosted by (cases t) (auto dest: run_write_view)
  qed (use assms(1) CCRunPosted in simp)
next
  case (CCTimer now)
  then show ?thesis using assms(1) by (auto simp: check_deadline_def Let_def split: if_splits)
qed (use assms(1) in \<open>auto simp: chat_write_def chat_close_def\<close>)

lemma client_header_exact:
  assumes "chat_client_inv c" "length bs = 4" "client_header_done False bs c = Inr c'"
  shows "c_output c' = c_output c \<and> client_ctrl c' = client_ctrl c @ (if accepted bs then [CReadBody (nat (announced bs))] else [])"
proof -
  let ?m = "c_read_msg (client_store 0 bs c)"
  have "cdata ?m = memcpy_at 0 bs (cdata (c_read_msg c))" by (simp add: client_store_def)
  then have ann: "atoi (header_text (cdata ?m)) = announced bs"
    using assms(2) by (simp add: announced_def header_text_def header_length_def memcpy_at_def)
  have "unat (word_of_int (announced bs) :: size_t) = nat (announced bs)" if "accepted bs"
    using that by (intro unat_small) (simp_all add: accepted_def)
  then show ?thesis using assms(3) ann
    by (auto simp: client_header_done_def client_do_read_body_def decode_header_eq Let_def accepted_def split: if_splits)
      (simp_all add: start_client_op_def client_store_def close_client_def)
qed

lemma client_body_exact:
  assumes "chat_ok (c_read_msg c)" "length bs = unat (cbody_length (c_read_msg c))"
  shows "c_output (client_body_done False bs c) = c_output c @ bs @ [CHR 0x0A]"
    "client_ctrl (client_body_done False bs c) = client_ctrl c @ [CReadHeader]"
proof -
  have "take (length bs) (drop 4 (memcpy_at 4 bs (cdata (c_read_msg c)))) = bs"
    using assms by (simp add: chat_ok_def memcpy_at_def)
  then show "c_output (client_body_done False bs c) = c_output c @ bs @ [CHR 0x0A]"
    using assms(2) by (simp add: client_body_done_def client_do_read_header_def start_client_op_def chat_body_def
        client_store_def header_length_def Let_def)
  show "client_ctrl (client_body_done False bs c) = client_ctrl c @ [CReadHeader]"
    by (simp add: client_body_done_def client_do_read_header_def Let_def)
qed

lemma client_reads_step:
  assumes inv: "chat_client_inv c" and rd: "client_reads fs n c" and fs: "\<forall>f \<in> set fs. frame_ok f"
    and av: "prefix av (frames_text fs)" "prefix (taken c e) (drop n av)" and ex: "chat_client_exec e c = Inr c'"
  shows "client_reads fs (n + length (taken c e)) c'"
proof (cases "\<exists>op ec bs now. e = CCDone op ec bs now \<and> op \<in> set (c_ops c) \<and> \<not> is_client_write op \<and> client_transfer op ec bs")
  case False
  have "reader_view c' = reader_view c"
  proof (cases "\<exists>op ec bs now. e = CCDone op ec bs now \<and> \<not> (op \<in> set (c_ops c) \<and> client_transfer op ec bs)")
    case True
    then show ?thesis using ex by auto
  next
    case no: False
    show ?thesis by (rule other_events_view [OF ex]) (use False no in auto)
  qed
  moreover have "taken c e = []"
  proof (cases e)
    case (CCDone op ec bs now)
    then show ?thesis using False by (cases op) auto
  qed simp_all
  ultimately show ?thesis using client_reads_view [OF rd] by simp
next
  case True
  then obtain op ec bs now where e: "e = CCDone op ec bs now" "op \<in> set (c_ops c)" "\<not> is_client_write op"
    "client_transfer op ec bs" by blast
  let ?c = "c\<lparr>c_ops := remove1 op (c_ops c)\<rparr>"
  note ctrl = ctrl_completes [OF inv e(2,3)] and idle = idle_inv [OF inv e(2,3)]
  from rd e(2,3) obtain k where k: "k \<le> length fs" "c_output c = printed (take k fs)" "op \<in> set (client_ctrl c)"
        "before_frame fs n k \<and> op = CReadHeader \<or> in_frame 4 fs n k \<and> op = CReadBody (length (snd (fs ! k)))"
    by (auto simp: client_reads_def in_ctrl)
  have ex': "client_complete op ec bs now ?c = Inr c'" using ex e by simp
  have tk: "taken c e = bs" using e k(4) by auto
  show ?thesis
  proof (cases ec)
    case True
    have "client_ctrl c' = [] \<and> c_output c' = c_output c"
      using k(4) ex' True ctrl(1)
      by (auto simp: client_header_done_def client_body_done_def Let_def) (auto simp: client_store_def close_client_def)
    then show ?thesis using client_reads_stop [OF rd] by blast
  next
    case False
    from k(4) show ?thesis
    proof
      assume h: "before_frame fs n k \<and> op = CReadHeader"
      then have four: "length bs = 4" using e(4) False by simp
      note r = chat_stream.reads_header [OF fs conjunct1 [OF h] av(1) av(2) [unfolded tk] four]
      have "frame_ok (fs ! k)" using fs r(1) by simp
      then have "accepted bs" "nat (announced bs) = length (snd (fs ! k))"
        using r(2) by (simp_all add: frame_ok_def announced_def accepted_def)
      then have "c_output c' = c_output c \<and> client_ctrl c' = [CReadBody (length (snd (fs ! k)))]"
        using client_header_exact [OF idle four, of c'] ex' h False ctrl(1) by simp
      then show ?thesis using k(1) r tk four \<open>c_output c = printed (take k fs)\<close> unfolding client_reads_def
        by (intro exI [of _ k]) simp
    next
      assume b: "in_frame 4 fs n k \<and> op = CReadBody (length (snd (fs ! k)))"
      then have len: "length bs = length (snd (fs ! k))" using e(4) False by simp
      note r = chat_stream.reads_body [OF fs conjunct1 [OF b] av(1) av(2) [unfolded tk] len]
      have "chat_ok (c_read_msg ?c)" "length bs = unat (cbody_length (c_read_msg ?c))"
        using inv ctrl(3) b len by (auto simp: chat_client_inv_def)
      note ce = client_body_exact [OF this]
      have "c_output c' = printed (take (Suc k) fs)" "client_ctrl c' = [CReadHeader]"
        using ce ex' b False ctrl(1) k(2) r by (auto simp: printed_def chat_line_def)
      moreover have "Suc k \<le> length fs" using b by (simp add: in_frame_def)
      ultimately show ?thesis using r(2) tk unfolding client_reads_def by auto
    qed
  qed
qed

end
