(* ===== verification/ChatSystem.thy ===== *)
theory ChatSystem
  imports ChatFrames
begin

text \<open>
  The chat program as a whole: one server (\<open>src/src/network/server.cpp\<close>) and any number of clients
  (\<open>src/src/network/client.cpp\<close>), joined by connections that carry characters in order. Other peers
  may connect to the server too and send it anything. A run is a list of events, each a step of
  one of the programs; a program reads from a connection only what the other end has written on
  it and has not been read yet.
\<close>

section \<open>The system\<close>

text \<open>\<open>session_of\<close> and \<open>client_of\<close> are the two ends of the accepted connections; \<open>up_read\<close> and \<open>down_read\<close>
  count the characters that have been read by the session and by the client. The rest records
  the run: what each client was asked to write, the messages delivered to the room with the
  session they came from, and the length of that log when a session joined.\<close>

record chat_system =
  room_server :: chat_server
  chat_clients :: "nat \<Rightarrow> chat_client option"
  next_client :: nat
  connected :: "nat \<Rightarrow> bool"
  session_of :: "nat \<Rightarrow> nat option"
  client_of :: "nat \<Rightarrow> nat option"
  up_read :: "nat \<Rightarrow> nat"
  down_read :: "nat \<Rightarrow> nat"
  said :: "nat \<Rightarrow> chat_message list"
  room_log :: "(nat \<times> chat_message) list"
  joined :: "nat \<Rightarrow> nat"

definition new_chat_system :: chat_system where
  "new_chat_system = \<lparr>room_server = new_chat_server, chat_clients = Map.empty, next_client = 0,
     connected = (\<lambda>q. False), session_of = Map.empty, client_of = Map.empty, up_read = (\<lambda>q. 0),
     down_read = (\<lambda>q. 0), said = (\<lambda>q. []), room_log = [], joined = (\<lambda>p. 0)\<rparr>"

datatype system_event =
    SysStart nat nat string
  | SysClient nat chat_client_event
  | SysAccept "nat option" bool string
  | SysSession nat chat_op bool string

text \<open>What the server has written to client \<open>q\<close>, and what session \<open>p\<close> can read; a session without a client
  reads anything.\<close>

definition incoming :: "chat_system \<Rightarrow> nat \<Rightarrow> string" where
  "incoming s q = (case session_of s q of
       None \<Rightarrow> []
     | Some p \<Rightarrow> (case sessions (room_server s) p of None \<Rightarrow> [] | Some ss \<Rightarrow> ss_sent ss))"

definition readable :: "chat_system \<Rightarrow> nat \<Rightarrow> string \<Rightarrow> bool" where
  "readable s p bs = (case client_of s p of
       None \<Rightarrow> True
     | Some q \<Rightarrow> (case chat_clients s q of None \<Rightarrow> False | Some c \<Rightarrow> prefix bs (drop (up_read s q) (c_sent c))))"

text \<open>What the network allows an event of client \<open>q\<close> to be: nothing is written before the connection
  exists, and reads return what is there. The messages given to the client have been encoded.\<close>

fun net_ok :: "chat_system \<Rightarrow> nat \<Rightarrow> chat_client_event \<Rightarrow> bool" where
  "net_ok s q (CCWrite m) = framed m"
| "net_ok s q (CCDone (CWrite w) ec bs now) = (connected s q \<or> (ec \<and> bs = []))"
| "net_ok s q (CCDone CReadHeader ec bs now) = prefix bs (drop (down_read s q) (incoming s q))"
| "net_ok s q (CCDone (CReadBody n) ec bs now) = prefix bs (drop (down_read s q) (incoming s q))"
| "net_ok s q _ = True"

text \<open>The connection is established when the handler of a connect finds the socket open and no error.\<close>

fun connects :: "chat_client \<Rightarrow> chat_client_event \<Rightarrow> bool" where
  "connects c (CCDone (CConnect i) ec bs now) =
     (CConnect i \<in> set (c_ops c) \<and> bs = [] \<and> \<not> ec \<and> \<not> stopped c \<and> c_open c)"
| "connects c _ = False"

text \<open>What an event of the server takes from the connection.\<close>

fun drawn :: "chat_event \<Rightarrow> chat_server \<Rightarrow> string" where
  "drawn (ChDone p op ec bs) r = (case sessions r p of
       None \<Rightarrow> []
     | Some ss \<Rightarrow> if \<not> is_chat_write op \<and> op \<in> set (ss_ops ss) \<and> chat_transfer op ec bs then bs else [])"
| "drawn _ r = []"

definition start_step :: "nat \<Rightarrow> nat \<Rightarrow> string \<Rightarrow> chat_system \<Rightarrow> chat_system" where
  "start_step now n junk s =
     (if length junk = 516
      then s\<lparr>chat_clients := (chat_clients s)(next_client s \<mapsto> chat_start now n (new_chat_client junk)),
             next_client := Suc (next_client s)\<rparr>
      else s)"

text \<open>An exception that a handler throws ends its program.\<close>

definition client_step :: "nat \<Rightarrow> chat_client_event \<Rightarrow> chat_system \<Rightarrow> chat_system result" where
  "client_step q e s = (case chat_clients s q of
       None \<Rightarrow> Inr s
     | Some c \<Rightarrow>
         if \<not> net_ok s q e then Inr s
         else case chat_client_exec e c of
             Inl (Thrown t) \<Rightarrow> Inr (s\<lparr>chat_clients := (chat_clients s)(q := None)\<rparr>)
           | Inl f \<Rightarrow> Inl f
           | Inr c' \<Rightarrow> Inr (s\<lparr>chat_clients := (chat_clients s)(q \<mapsto> c'),
               connected := (connected s)(q := connected s q \<or> connects c e),
               down_read := (down_read s)(q := down_read s q + length (taken c e)),
               said := (said s)(q := said s q @ saying e)\<rparr>))"

text \<open>The server accepts the connection of a client, or of another peer.\<close>

definition may_accept :: "nat option \<Rightarrow> chat_system \<Rightarrow> bool" where
  "may_accept peer s = (case peer of None \<Rightarrow> True | Some q \<Rightarrow> connected s q \<and> session_of s q = None)"

definition accept_step :: "nat option \<Rightarrow> bool \<Rightarrow> string \<Rightarrow> chat_system \<Rightarrow> chat_system result" where
  "accept_step peer ec junk s =
     (if may_accept peer s \<and> \<not> ec \<and> length junk = 516 then
        let p = next_session (room_server s)
        in rbind (chat_exec (ChAccept ec junk) (room_server s)) (\<lambda>r.
             Inr (s\<lparr>room_server := r, joined := (joined s)(p := length (room_log s)),
               client_of := (client_of s)(p := peer),
               session_of := (case peer of None \<Rightarrow> session_of s | Some q \<Rightarrow> (session_of s)(q \<mapsto> p))\<rparr>))
      else rbind (chat_exec (ChAccept True junk) (room_server s)) (\<lambda>r. Inr (s\<lparr>room_server := r\<rparr>)))"

definition session_step :: "nat \<Rightarrow> chat_op \<Rightarrow> bool \<Rightarrow> string \<Rightarrow> chat_system \<Rightarrow> chat_system result" where
  "session_step p op ec bs s =
     (let e = ChDone p op ec bs; r = room_server s
      in if \<not> is_chat_write op \<and> \<not> readable s p bs then Inr s
         else rbind (chat_exec e r) (\<lambda>r'.
           Inr (s\<lparr>room_server := r', room_log := room_log s @ map (Pair p) (delivered e r),
             up_read := (case client_of s p of
                 None \<Rightarrow> up_read s
               | Some q \<Rightarrow> (up_read s)(q := up_read s q + length (drawn e r)))\<rparr>)))"

fun system_exec :: "system_event \<Rightarrow> chat_system \<Rightarrow> chat_system result" where
  "system_exec (SysStart now n junk) s = Inr (start_step now n junk s)"
| "system_exec (SysClient q e) s = client_step q e s"
| "system_exec (SysAccept peer ec junk) s = accept_step peer ec junk s"
| "system_exec (SysSession p op ec bs) s = session_step p op ec bs s"

abbreviation system_run :: "system_event list \<Rightarrow> chat_system \<Rightarrow> chat_system result" where
  "system_run \<equiv> run_events system_exec"

definition history :: "chat_system \<Rightarrow> chat_message list" where
  "history s = map snd (room_log s)"

definition delivered_by :: "nat \<Rightarrow> chat_system \<Rightarrow> chat_message list" where
  "delivered_by p s = map snd (filter (\<lambda>x. fst x = p) (room_log s))"

section \<open>The room among its sessions\<close>

definition room_ok :: "(nat \<Rightarrow> nat) \<Rightarrow> chat_message list \<Rightarrow> chat_server \<Rightarrow> bool" where
  "room_ok j h r \<longleftrightarrow> room_inv h r \<and> (\<forall>m \<in> set h. framed m)
     \<and> (\<forall>p ss. sessions r p = Some ss \<longrightarrow> hears (j p - 100) (p \<in> set (participants r)) h ss \<and> header_held ss)"

text \<open>What an event of session \<open>p\<close> does to the reading of every session.\<close>

definition reads_on :: "chat_event \<Rightarrow> nat \<Rightarrow> chat_server \<Rightarrow> chat_server \<Rightarrow> bool" where
  "reads_on e p r r' \<longleftrightarrow> next_session r' = next_session r \<and> dom (sessions r') = dom (sessions r)
     \<and> (\<forall>q ss ss'. q \<noteq> p \<longrightarrow> sessions r q = Some ss \<longrightarrow> sessions r' q = Some ss' \<longrightarrow>
          chat_reads ss' = chat_reads ss \<and> read_msg ss' = read_msg ss)
     \<and> (\<forall>ss ss' fs n ms av. sessions r p = Some ss \<longrightarrow> sessions r' p = Some ss' \<longrightarrow> session_reads fs n ms ss \<longrightarrow>
          (\<forall>f \<in> set fs. frame_ok f) \<longrightarrow> prefix av (frames_text fs) \<longrightarrow> prefix (drawn e r) (drop n av) \<longrightarrow>
          session_reads fs (n + length (drawn e r)) (ms @ delivered e r) ss')"

lemma room_ok_upd:
  assumes ok: "room_ok j h r" and inv: "room_inv h r'" and ss: "sessions r p = Some ss"
    and r': "sessions r' = (sessions r)(p \<mapsto> ss')" "set (participants r') \<subseteq> set (participants r)"
      "\<And>q. q \<noteq> p \<Longrightarrow> q \<in> set (participants r) \<Longrightarrow> q \<in> set (participants r')"
    and p: "hears (j p - 100) (p \<in> set (participants r')) h ss'" "header_held ss'"
  shows "room_ok j h r'"
proof -
  have "hears (j q - 100) (q \<in> set (participants r')) h s1 \<and> header_held s1" if "sessions r' q = Some s1" for q s1
  proof (cases "q = p")
    case True
    then show ?thesis using that r'(1) p by simp
  next
    case False
    then have "(q \<in> set (participants r')) = (q \<in> set (participants r))" "sessions r q = Some s1"
      using that r' by auto
    then show ?thesis using ok by (simp add: room_ok_def)
  qed
  then show ?thesis using ok inv by (simp add: room_ok_def)
qed

lemma header_step:
  assumes ok: "room_ok j h r" and ss: "sessions r p = Some ss" and op: "ChReadHeader \<in> set (ss_ops ss)"
    and bs: "chat_transfer ChReadHeader ec bs"
  shows "\<exists>r'. chat_exec (ChDone p ChReadHeader ec bs) r = Inr r' \<and> room_ok j h r'
     \<and> reads_on (ChDone p ChReadHeader ec bs) p r r'"
proof -
  let ?e = "ChDone p ChReadHeader ec bs"
  have inv: "room_inv h r" and hs: "hears (j p - 100) (p \<in> set (participants r)) h ss"
    using ok ss by (auto simp: room_ok_def)
  from header_done_exact [OF inv ss op bs] obtain r' ss' where
    fin: "read_header_done p ec bs (ss\<lparr>ss_ops := remove1 ChReadHeader (ss_ops ss)\<rparr>) r = Inr r'"
    and r': "sessions r' = (sessions r)(p \<mapsto> ss')" "next_session r' = next_session r"
      "participants r' = (if \<not> ec \<and> accepted bs then participants r else removeAll p (participants r))"
    and ss': "same_writer ss ss'" "chat_reads ss' = (if \<not> ec \<and> accepted bs then [ChReadBody (nat (announced bs))] else [])"
      "\<not> ec \<longrightarrow> take 4 (cdata (read_msg ss')) = bs" by blast
  have ex: "chat_exec ?e r = Inr r'" using fin ss op bs by simp
  then have inv': "room_inv h r'" using chat_exec_ok [OF inv, of ?e] by (cases ec) auto
  have dl: "delivered ?e r = []" by (cases ec) simp_all
  have dr: "drawn ?e r = bs" using ss op bs by simp
  have "header_held ss'"
  proof (cases "\<not> ec \<and> accepted bs")
    case True
    then have "announced (cdata (read_msg ss')) = announced bs" using ss'(3) by (metis announced_def header_text_take)
    then show ?thesis using ss'(2) True by (simp add: header_held_def accepted_def)
  qed (use ss'(2) in \<open>auto simp: header_held_def\<close>)
  then have "room_ok j h r'"
    using room_ok_upd [OF ok inv' ss r'(1)] r'(3) hears_same_writer [OF ss'(1) hs] hears_leaves by (auto split: if_splits)
  moreover have "reads_on ?e p r r'" unfolding reads_on_def
  proof (intro conjI allI impI)
    fix s1 s2 fs n ms av
    assume a: "sessions r p = Some s1" "sessions r' p = Some s2" "session_reads fs n ms s1"
      "\<forall>f \<in> set fs. frame_ok f" "prefix av (frames_text fs)" "prefix (drawn ?e r) (drop n av)"
    then have eq: "s1 = ss" "s2 = ss'" using ss r'(1) by auto
    show "session_reads fs (n + length (drawn ?e r)) (ms @ delivered ?e r) s2"
    proof (cases ec)
      case True
      then show ?thesis using session_reads_stop [OF a(3)] ss'(2) eq dl by simp
    next
      case False
      then show ?thesis using session_reads_header [OF a(3-5), of bs ss'] a(6) ss'(2,3) eq op bs dl dr by simp
    qed
  qed (use ss r' in auto)
  ultimately show ?thesis using ex by blast
qed

lemma write_step:
  assumes ok: "room_ok j h r" and ss: "sessions r p = Some ss" and op: "ChWrite w \<in> set (ss_ops ss)"
    and bs: "chat_transfer (ChWrite w) ec bs"
  shows "\<exists>r'. chat_exec (ChDone p (ChWrite w) ec bs) r = Inr r' \<and> room_ok j h r'
     \<and> reads_on (ChDone p (ChWrite w) ec bs) p r r'"
proof -
  let ?e = "ChDone p (ChWrite w) ec bs"
  have inv: "room_inv h r" and hs: "hears (j p - 100) (p \<in> set (participants r)) h ss" "header_held ss"
    using ok ss by (auto simp: room_ok_def)
  from write_done_exact [OF inv ss op bs hs(1)] obtain r' ss' where
    fin: "write_done p ec bs (ss\<lparr>ss_ops := remove1 (ChWrite w) (ss_ops ss)\<rparr>) r = Inr r'"
    and r': "sessions r' = (sessions r)(p \<mapsto> ss')" "next_session r' = next_session r"
      "participants r' = (if ec then removeAll p (participants r) else participants r)"
    and ss': "hears (j p - 100) (p \<in> set (participants r')) h ss'" "chat_reads ss' = chat_reads ss" "read_msg ss' = read_msg ss"
    by blast
  have ex: "chat_exec ?e r = Inr r'" using fin ss op bs by simp
  have dl: "delivered ?e r = []" by (cases ec) simp_all
  have dr: "drawn ?e r = []" using ss by simp
  have inv': "room_inv h r'" using chat_exec_ok [OF inv, of ?e] ex dl by simp
  have "header_held ss'" using hs(2) ss' by (simp add: header_held_def)
  then have "room_ok j h r'" using room_ok_upd [OF ok inv' ss r'(1)] r'(3) ss'(1) by (auto split: if_splits)
  moreover have "reads_on ?e p r r'"
    using ss r' ss' dl dr session_reads_cong unfolding reads_on_def by auto
  ultimately show ?thesis using ex by blast
qed

text \<open>Delivering a message appends it to what every participant hears.\<close>

lemma delivered_to_all:
  assumes ok: "room_ok j h r" and m: "framed m" and inv: "room_inv (h @ [m]) r'"
    and pt: "participants r' = participants r"
    and se: "sessions r' = (\<lambda>q. if q = p then Some ss' else if q \<in> set (participants r)
        then map_option (enqueue m) (sessions r q) else sessions r q)"
    and p: "hears (j p - 100) (p \<in> set (participants r)) (h @ [m]) ss'" "header_held ss'"
  shows "room_ok j (h @ [m]) r'"
proof -
  have "hears (j q - 100) (q \<in> set (participants r')) (h @ [m]) s1 \<and> header_held s1" if q: "sessions r' q = Some s1" for q s1
  proof (cases "q = p")
    case True
    then show ?thesis using q se pt p by simp
  next
    case False
    then obtain s0 where s0: "sessions r q = Some s0" "s1 = (if q \<in> set (participants r) then enqueue m s0 else s0)"
      using q se by (auto split: if_splits)
    then have "hears (j q - 100) (q \<in> set (participants r)) h s0" "header_held s0" using ok by (auto simp: room_ok_def)
    then show ?thesis using s0(2) pt hears_enqueue framed_ok(1) [OF m] hears_more
      by (auto simp: header_held_def)
  qed
  then show ?thesis using ok inv m by (simp add: room_ok_def)
qed

lemma body_step:
  assumes ok: "room_ok j h r" and ss: "sessions r p = Some ss" and op: "ChReadBody l \<in> set (ss_ops ss)"
    and bs: "chat_transfer (ChReadBody l) ec bs"
  shows "\<exists>r'. chat_exec (ChDone p (ChReadBody l) ec bs) r = Inr r'
     \<and> room_ok j (h @ delivered (ChDone p (ChReadBody l) ec bs) r) r'
     \<and> reads_on (ChDone p (ChReadBody l) ec bs) p r r'"
proof -
  let ?e = "ChDone p (ChReadBody l) ec bs"
  let ?pt = "p \<in> set (participants r)"
  have inv: "room_inv h r" and hs: "hears (j p - 100) ?pt h ss" "header_held ss"
    using ok ss by (auto simp: room_ok_def)
  have si: "session_inv ss" using inv ss by (auto simp: room_inv_def)
  from body_done_exact [OF inv ss op bs] obtain r' ss' where
    fin: "read_body_done p ec bs (ss\<lparr>ss_ops := remove1 (ChReadBody l) (ss_ops ss)\<rparr>) r = Inr r'"
    and r': "next_session r' = next_session r" and w: "same_writer ss ss'"
    and rest: "if ec then sessions r' = (sessions r)(p \<mapsto> ss') \<and> participants r' = removeAll p (participants r) \<and> chat_reads ss' = []
        else participants r' = participants r
          \<and> sessions r' = (\<lambda>q. if q = p then Some (do_read_header (if ?pt then enqueue (read_msg ss') ss' else ss'))
              else if q \<in> set (participants r) then map_option (enqueue (read_msg ss')) (sessions r q)
              else sessions r q)
          \<and> chat_reads ss' = [] \<and> read_msg ss' = read_msg (store_text header_length bs ss) \<and> chat_ok (read_msg ss')"
    by blast
  have ex: "chat_exec ?e r = Inr r'" using fin ss op bs by simp
  have dr: "drawn ?e r = bs" using ss op bs by simp
  note hw = hears_same_writer [OF w hs(1)]
  show ?thesis
  proof (cases ec)
    case True
    then have dl: "delivered ?e r = []" by simp
    have inv': "room_inv h r'" using chat_exec_ok [OF inv, of ?e] ex dl by simp
    have "header_held ss'" using rest True by (simp add: header_held_def)
    then have "room_ok j h r'"
      using room_ok_upd [OF ok inv' ss, of ss'] rest True hears_leaves [OF hw] by auto
    moreover have "reads_on ?e p r r'"
      using ss r' rest True dl session_reads_stop unfolding reads_on_def by auto
    ultimately show ?thesis using ex dl by auto
  next
    case False
    let ?m = "read_msg ss'"
    let ?ss = "do_read_header (if ?pt then enqueue ?m ss' else ss')"
    have len: "length bs = l" using bs False by simp
    have m: "?m = read_msg (store_text header_length bs ss)" using rest False by simp
    have fr: "framed ?m" unfolding m by (rule delivered_framed [OF hs(2) si op len])
    have dl: "delivered ?e r = [?m]" using ss op len False m by simp
    have inv': "room_inv (h @ [?m]) r'" using chat_exec_ok [OF inv, of ?e] ex dl by simp
    have rd: "chat_reads ?ss = [ChReadHeader]" using rest False by (simp add: do_read_header_def)
    have "hears (j p - 100) ?pt (h @ [?m]) (if ?pt then enqueue ?m ss' else ss')"
      using hw hears_enqueue [OF _ framed_ok(1) [OF fr]] hears_more by auto
    then have "hears (j p - 100) ?pt (h @ [?m]) ?ss"
      by (rule hears_same_writer [rotated]) (simp add: same_writer_def do_read_header_def)
    moreover have "header_held ?ss" using rd by (simp add: header_held_def)
    ultimately have "room_ok j (h @ [?m]) r'"
      using delivered_to_all [OF ok fr inv', of p ?ss] rest False by simp
    moreover have "reads_on ?e p r r'" unfolding reads_on_def
    proof (intro conjI allI impI)
      fix s1 s2 fs n ms av
      assume a: "sessions r p = Some s1" "sessions r' p = Some s2" "session_reads fs n ms s1"
        "\<forall>f \<in> set fs. frame_ok f" "prefix av (frames_text fs)" "prefix (drawn ?e r) (drop n av)"
      then have "s1 = ss" "s2 = ?ss" using ss rest False by auto
      then show "session_reads fs (n + length (drawn ?e r)) (ms @ delivered ?e r) s2"
        using session_reads_body [OF a(3-5), of bs l ?ss] a(6) op len hs(2) si rd m dl dr by simp
    next
      show "dom (sessions r') = dom (sessions r)" using rest False ss by (auto split: if_splits)
    qed (use ss r' rest False in \<open>auto split: if_splits\<close>)
    ultimately show ?thesis using ex dl by auto
  qed
qed

lemma session_event:
  assumes ok: "room_ok j h r"
  shows "\<exists>r'. chat_exec (ChDone p op ec bs) r = Inr r' \<and> room_ok j (h @ delivered (ChDone p op ec bs) r) r'
     \<and> reads_on (ChDone p op ec bs) p r r'"
proof -
  let ?e = "ChDone p op ec bs"
  show ?thesis
  proof (cases "\<exists>ss. sessions r p = Some ss \<and> op \<in> set (ss_ops ss) \<and> chat_transfer op ec bs")
    case False
    then have "chat_exec ?e r = Inr r" "delivered ?e r = []" "drawn ?e r = []"
      by (auto split: option.splits) (cases op; cases ec; auto split: option.splits)+
    moreover have "reads_on ?e p r r" using calculation(2,3) by (simp add: reads_on_def del: drawn.simps)
    ultimately show ?thesis using ok by simp
  next
    case True
    then obtain ss where ss: "sessions r p = Some ss" "op \<in> set (ss_ops ss)" "chat_transfer op ec bs" by blast
    show ?thesis
    proof (cases op)
      case ChReadHeader
      moreover have "delivered (ChDone p ChReadHeader ec bs) r = []" by (cases ec) simp_all
      ultimately show ?thesis using header_step [OF ok ss(1)] ss by simp
    next
      case (ChReadBody l)
      then show ?thesis using body_step [OF ok ss(1)] ss by simp
    next
      case (ChWrite w)
      moreover have "delivered (ChDone p (ChWrite w) ec bs) r = []" by (cases ec) simp_all
      ultimately show ?thesis using write_step [OF ok ss(1)] ss by simp
    qed
  qed
qed

section \<open>A client before and after its connection\<close>

definition unconnected :: "chat_client \<Rightarrow> bool" where
  "unconnected c \<longleftrightarrow> c_sent c = [] \<and> c_output c = [] \<and> (client_ctrl c = [] \<or> (\<exists>i. client_ctrl c = [CConnect i]))"

lemma client_do_write_sent: "client_do_write c = Inr c' \<Longrightarrow> c_sent c' = c_sent c"
  by (auto simp: client_do_write_def split: list.splits if_splits)

lemma sent_step:
  assumes "chat_client_exec e c = Inr c'" and "\<And>w ec bs now. e = CCDone (CWrite w) ec bs now \<Longrightarrow> bs = []"
  shows "c_sent c' = c_sent c"
proof (cases e)
  case (CCDone op ec bs now)
  show ?thesis
  proof (cases "op \<in> set (c_ops c) \<and> client_transfer op ec bs")
    case True
    then have ex: "client_complete op ec bs now (c\<lparr>c_ops := remove1 op (c_ops c)\<rparr>) = Inr c'" using assms(1) CCDone by simp
    show ?thesis
    proof (cases "is_client_write op")
      case False
      from ctrl_view [OF False ex] show ?thesis by (simp add: writer_view_def)
    next
      case w: True
      then obtain w where "op = CWrite w" by (cases op) simp_all
      then show ?thesis using ex assms(2) CCDone
        by (auto simp: client_write_done_def Let_def dest!: client_do_write_sent split: list.splits if_splits)
    qed
  qed (use assms(1) CCDone in auto)
next
  case CCRunPosted
  show ?thesis
  proof (cases "c_posted c")
    case (Cons t ts)
    then show ?thesis using assms(1) CCRunPosted
      by (cases t) (auto simp: run_write_def Let_def dest: client_do_write_sent split: if_splits)
  qed (use assms(1) CCRunPosted in simp)
next
  case (CCTimer now)
  then show ?thesis using assms(1) by (auto simp: check_deadline_def Let_def split: if_splits)
qed (use assms(1) in \<open>auto simp: chat_write_def chat_close_def\<close>)

lemma connect_step:
  assumes "client_ctrl c = []" "c_output c = []" "handle_connect now ec i c = Inr c'"
  shows "if \<not> ec \<and> \<not> stopped c \<and> c_open c then client_ctrl c' = [CReadHeader] \<and> c_output c' = []
    else (client_ctrl c' = [] \<or> (\<exists>i. client_ctrl c' = [CConnect i])) \<and> c_output c' = []"
  using assms
  by (auto simp: handle_connect_def do_connect_def client_do_read_header_def split: if_splits)
    (simp_all add: start_client_op_def set_expiry_def)

lemma unconnected_step:
  assumes inv: "chat_client_inv c" and un: "unconnected c" and ex: "chat_client_exec e c = Inr c'"
    and w: "\<And>w ec bs now. e = CCDone (CWrite w) ec bs now \<Longrightarrow> bs = []"
  shows "if connects c e then client_ctrl c' = [CReadHeader] \<and> c_output c' = [] else unconnected c'"
proof (cases "\<exists>op ec bs now. e = CCDone op ec bs now \<and> op \<in> set (c_ops c) \<and> \<not> is_client_write op \<and> client_transfer op ec bs")
  case True
  then obtain op ec bs now where e: "e = CCDone op ec bs now" "op \<in> set (c_ops c)" "\<not> is_client_write op"
    "client_transfer op ec bs" by blast
  then have "op \<in> set (client_ctrl c)" by (simp add: in_ctrl)
  then obtain i where i: "op = CConnect i" using un by (auto simp: unconnected_def)
  let ?c = "c\<lparr>c_ops := remove1 op (c_ops c)\<rparr>"
  have "handle_connect now ec i ?c = Inr c'" using ex e i by simp
  from connect_step [OF _ _ this] have "if \<not> ec \<and> \<not> stopped c \<and> c_open c then client_ctrl c' = [CReadHeader] \<and> c_output c' = []
    else (client_ctrl c' = [] \<or> (\<exists>i. client_ctrl c' = [CConnect i])) \<and> c_output c' = []"
    using ctrl_completes(1) [OF inv e(2,3)] un by (simp add: unconnected_def)
  moreover have "connects c e \<longleftrightarrow> \<not> ec \<and> \<not> stopped c \<and> c_open c" using e i by auto
  moreover have "c_sent c' = []" using sent_step [OF ex w] un by (simp add: unconnected_def)
  ultimately show ?thesis by (auto simp: unconnected_def split: if_splits)
next
  case False
  have "reader_view c' = reader_view c"
  proof (cases "\<exists>op ec bs now. e = CCDone op ec bs now \<and> \<not> (op \<in> set (c_ops c) \<and> client_transfer op ec bs)")
    case True
    then show ?thesis using ex by auto
  next
    case no: False
    show ?thesis by (rule other_events_view [OF ex]) (use False no in auto)
  qed
  moreover have "c_sent c' = []" using sent_step [OF ex w] un by (simp add: unconnected_def)
  moreover have "\<not> connects c e" using False by (cases "(c, e)" rule: connects.cases) auto
  ultimately show ?thesis using un by (simp add: unconnected_def reader_view_def)
qed

text \<open>A client with no connect in progress does not throw.\<close>

lemma client_do_write_faults: "client_do_write c = Inl f \<Longrightarrow> f \<noteq> Thrown t"
  by (auto simp: client_do_write_def split: list.splits if_splits)

lemma throws_only_connecting:
  assumes "chat_client_exec e c = Inl (Thrown t)"
  shows "\<exists>i. CConnect i \<in> set (c_ops c)"
proof (cases e)
  case (CCDone op ec bs now)
  then show ?thesis using assms
    by (cases op) (auto simp: client_header_done_def client_do_read_body_def client_write_done_def Let_def
        dest: client_do_write_faults split: if_splits prod.splits list.splits)
next
  case CCRunPosted
  show ?thesis
  proof (cases "c_posted c")
    case (Cons t ts)
    then show ?thesis using assms CCRunPosted
      by (cases t) (auto simp: run_write_def Let_def dest: client_do_write_faults split: if_splits)
  qed (use assms CCRunPosted in simp)
qed (use assms in \<open>auto split: if_splits\<close>)

lemma exec_outcome:
  assumes inv: "chat_client_inv c" and ev: "client_event_ok e"
  shows "(\<exists>c'. chat_client_exec e c = Inr c' \<and> chat_client_inv c')
    \<or> (\<exists>i. CConnect i \<in> set (client_ctrl c)) \<and> (\<exists>t. chat_client_exec e c = Inl (Thrown t))"
proof (cases "chat_client_exec e c")
  case (Inl f)
  then have "f = Thrown ''Connect Error''" using chat_client_exec_inv [OF inv ev] by simp
  then show ?thesis using Inl throws_only_connecting [of e c "''Connect Error''"] by (auto simp: in_ctrl [symmetric])
next
  case (Inr c')
  then show ?thesis using chat_client_exec_inv [OF inv ev] by simp
qed

lemma client_reads_no_connect: "client_reads fs n c \<Longrightarrow> CConnect i \<notin> set (client_ctrl c)"
  by (auto simp: client_reads_def)

section \<open>The invariant of the system\<close>

text \<open>The frames on the way to a client: the history from a hundred messages before its session joined.\<close>

definition to_client :: "chat_system \<Rightarrow> nat \<Rightarrow> char frame list" where
  "to_client s q = (case session_of s q of
       None \<Rightarrow> []
     | Some p \<Rightarrow> map chat_frame (drop (joined s p - 100) (history s)))"

definition client_ok :: "chat_system \<Rightarrow> nat \<Rightarrow> chat_client \<Rightarrow> bool" where
  "client_ok s q c \<longleftrightarrow> chat_client_inv c \<and> says (said s q) c \<and> (\<forall>m \<in> set (said s q). framed m)
     \<and> (if connected s q then client_reads (to_client s q) (down_read s q) c else unconnected c)"

definition link_ok :: "chat_system \<Rightarrow> nat \<Rightarrow> nat \<Rightarrow> bool" where
  "link_ok s p q \<longleftrightarrow> session_of s q = Some p \<and> connected s q \<and> (\<exists>c ss. chat_clients s q = Some c
     \<and> sessions (room_server s) p = Some ss
     \<and> session_reads (map chat_frame (said s q)) (up_read s q) (delivered_by p s) ss)"

definition system_inv :: "chat_system \<Rightarrow> bool" where
  "system_inv s \<longleftrightarrow> room_ok (joined s) (history s) (room_server s)
     \<and> (\<forall>q c. chat_clients s q = Some c \<longrightarrow> client_ok s q c)
     \<and> (\<forall>p q. client_of s p = Some q \<longrightarrow> link_ok s p q)
     \<and> (\<forall>q p. session_of s q = Some p \<longrightarrow> client_of s p = Some q)
     \<and> (\<forall>p. sessions (room_server s) p = None \<longrightarrow> delivered_by p s = [])
     \<and> (\<forall>q. session_of s q = None \<longrightarrow> up_read s q = 0 \<and> down_read s q = 0)
     \<and> (\<forall>q. connected s q \<longrightarrow> chat_clients s q \<noteq> None)
     \<and> (\<forall>q \<ge> next_client s. chat_clients s q = None \<and> said s q = [])"

lemma system_invD:
  assumes "system_inv s"
  shows "room_ok (joined s) (history s) (room_server s)"
    "chat_clients s q = Some c \<Longrightarrow> client_ok s q c"
    "client_of s p = Some q \<Longrightarrow> link_ok s p q"
    "session_of s q = Some p \<Longrightarrow> client_of s p = Some q"
    "session_of s q = Some p \<Longrightarrow> connected s q"
    "sessions (room_server s) p = None \<Longrightarrow> delivered_by p s = []"
    "session_of s q = None \<Longrightarrow> up_read s q = 0 \<and> down_read s q = 0"
    "chat_clients s q = Some c \<Longrightarrow> q < next_client s"
proof -
  show "room_ok (joined s) (history s) (room_server s)"
    "chat_clients s q = Some c \<Longrightarrow> client_ok s q c"
    "sessions (room_server s) p = None \<Longrightarrow> delivered_by p s = []"
    "session_of s q = None \<Longrightarrow> up_read s q = 0 \<and> down_read s q = 0"
    using assms unfolding system_inv_def by blast+
  show l: "client_of s p = Some q \<Longrightarrow> link_ok s p q" for p using assms unfolding system_inv_def by blast
  show c: "session_of s q = Some p \<Longrightarrow> client_of s p = Some q" using assms unfolding system_inv_def by blast
  show "connected s q" if "session_of s q = Some p" using l [OF c [OF that]] by (simp add: link_ok_def)
  have "\<not> q < next_client s \<Longrightarrow> chat_clients s q = None" using assms unfolding system_inv_def by simp
  then show "chat_clients s q = Some c \<Longrightarrow> q < next_client s" by fastforce
qed

lemma log_cong:
  "room_log s' = room_log s \<Longrightarrow> history s' = history s"
  "room_log s' = room_log s \<Longrightarrow> delivered_by p s' = delivered_by p s"
  "session_of s' q = session_of s q \<Longrightarrow> joined s' = joined s \<Longrightarrow> room_log s' = room_log s \<Longrightarrow>
     to_client s' q = to_client s q"
  by (simp_all add: history_def delivered_by_def to_client_def cong: option.case_cong)

lemma client_ok_cong:
  assumes "client_ok s q c" "said s' q = said s q" "connected s' q = connected s q" "down_read s' q = down_read s q"
    "to_client s' q = to_client s q"
  shows "client_ok s' q c"
  using assms by (simp add: client_ok_def)

lemma system_inv_new: "system_inv new_chat_system"
proof -
  have "room_inv [] new_chat_server" by simp
  then show ?thesis
    by (simp add: system_inv_def new_chat_system_def room_ok_def history_def delivered_by_def)
      (simp add: new_chat_server_def)
qed

lemma framed_frames: "\<forall>m \<in> set ms. framed m \<Longrightarrow> \<forall>f \<in> set (map chat_frame ms). frame_ok f"
  by (auto simp: framed_def)

lemma to_client_frames:
  assumes "room_ok j h r"
  shows "\<forall>f \<in> set (map chat_frame (drop i h)). frame_ok f"
  using assms by (intro framed_frames) (auto simp: room_ok_def dest: in_set_dropD)

lemma hears_frames:
  assumes "room_ok j h r" "sessions r p = Some ss"
  shows "prefix (ss_sent ss) (frames_text (map chat_frame (drop (j p - 100) h)))"
proof -
  have "\<forall>m \<in> set (drop (j p - 100) h). chat_ok m" using assms(1) by (auto simp: room_ok_def framed_def dest: in_set_dropD)
  from wires_frames [OF this] have eq: "wires (drop (j p - 100) h) = frames_text (map chat_frame (drop (j p - 100) h))" .
  have "hears (j p - 100) (p \<in> set (participants r)) h ss" using assms by (simp add: room_ok_def)
  then show ?thesis unfolding hears_def eq by simp
qed

text \<open>What a client can read is a beginning of the frames on the way to it.\<close>

lemma incoming_prefix:
  assumes "system_inv s"
  shows "prefix (incoming s q) (frames_text (to_client s q))" "\<forall>f \<in> set (to_client s q). frame_ok f"
proof -
  have ok: "room_ok (joined s) (history s) (room_server s)" using assms by (simp add: system_inv_def)
  show "prefix (incoming s q) (frames_text (to_client s q))"
    using hears_frames [OF ok] by (auto simp: incoming_def to_client_def split: option.splits)
  show "\<forall>f \<in> set (to_client s q). frame_ok f"
    using to_client_frames [OF ok] by (auto simp: to_client_def split: option.splits)
qed

lemma net_ok_event: "net_ok s q e \<Longrightarrow> client_event_ok e"
  by (cases "(s, q, e)" rule: net_ok.cases) (simp_all add: framed_def)

lemma net_ok_taken: "net_ok s q e \<Longrightarrow> prefix (taken c e) (drop (down_read s q) (incoming s q))"
  by (cases "(s, q, e)" rule: net_ok.cases) simp_all

lemma taken_unconnected: "unconnected c \<Longrightarrow> taken c e = []"
  by (cases "(c, e)" rule: taken.cases) (auto simp: unconnected_def in_ctrl elim!: reading.elims)

lemma net_ok_saying: "net_ok s q e \<Longrightarrow> m \<in> set (saying e) \<Longrightarrow> framed m"
  by (cases "(s, q, e)" rule: net_ok.cases) simp_all

lemma client_step_ok:
  assumes inv: "system_inv s" and c: "chat_clients s q = Some c" and net: "net_ok s q e"
    and ex: "chat_client_exec e c = Inr c'"
    and s': "s' = s\<lparr>chat_clients := (chat_clients s)(q \<mapsto> c'),
               connected := (connected s)(q := connected s q \<or> connects c e),
               down_read := (down_read s)(q := down_read s q + length (taken c e)),
               said := (said s)(q := said s q @ saying e)\<rparr>"
  shows "client_ok s' q c'"
proof -
  have ok: "client_ok s q c" using inv c by (simp add: system_inv_def)
  then have ci: "chat_client_inv c" by (simp add: client_ok_def)
  have inv': "chat_client_inv c'" using exec_outcome [OF ci net_ok_event [OF net]] ex by auto
  have sd: "says (said s q @ saying e) c'" using says_step [OF ci _ ex] ok by (simp add: client_ok_def)
  have fr: "\<forall>m \<in> set (said s q @ saying e). framed m" using ok net_ok_saying [OF net] by (auto simp: client_ok_def)
  have to: "to_client s' q = to_client s q" by (rule log_cong(3)) (simp_all add: s')
  have "if connected s q \<or> connects c e then client_reads (to_client s q) (down_read s q + length (taken c e)) c' else unconnected c'"
  proof (cases "connected s q")
    case True
    then have "client_reads (to_client s q) (down_read s q) c" using ok by (simp add: client_ok_def)
    from client_reads_step [OF ci this incoming_prefix(2,1) [OF inv] net_ok_taken [OF net] ex] True show ?thesis by simp
  next
    case False
    then have un: "unconnected c" using ok by (simp add: client_ok_def)
    have none: "session_of s q = None"
      using system_invD(5) [OF inv] False by (cases "session_of s q") auto
    then have 0: "down_read s q = 0" "to_client s q = []" using inv by (simp_all add: system_inv_def to_client_def)
    have w: "bs = []" if "e = CCDone (CWrite w) ec bs now" for w ec bs now using net that False by simp
    from unconnected_step [OF ci un ex w] show ?thesis using False 0 taken_unconnected [OF un, of e]
      by (auto simp: client_reads_def printed_def split: if_splits)
  qed
  moreover have "said s' q = said s q @ saying e" "connected s' q = (connected s q \<or> connects c e)"
    "down_read s' q = down_read s q + length (taken c e)" by (simp_all add: s')
  ultimately show ?thesis using inv' sd fr to by (simp add: client_ok_def)
qed

lemma client_event:
  assumes inv: "system_inv s"
  shows "\<exists>s'. client_step q e s = Inr s' \<and> system_inv s'"
proof (cases "chat_clients s q")
  case None
  then show ?thesis using inv by (simp add: client_step_def)
next
  case c: (Some c)
  show ?thesis
  proof (cases "net_ok s q e")
    case False
    then show ?thesis using inv c by (simp add: client_step_def)
  next
    case net: True
    have ok: "client_ok s q c" using inv c by (simp add: system_inv_def)
    then have ci: "chat_client_inv c" by (simp add: client_ok_def)
    from exec_outcome [OF ci net_ok_event [OF net]] show ?thesis
    proof
      assume "\<exists>c'. chat_client_exec e c = Inr c' \<and> chat_client_inv c'"
      then obtain c' where ex: "chat_client_exec e c = Inr c'" by blast
      let ?s = "s\<lparr>chat_clients := (chat_clients s)(q \<mapsto> c'),
               connected := (connected s)(q := connected s q \<or> connects c e),
               down_read := (down_read s)(q := down_read s q + length (taken c e)),
               said := (said s)(q := said s q @ saying e)\<rparr>"
      have st: "client_step q e s = Inr ?s" using c net ex by (simp add: client_step_def)
      note cok = client_step_ok [OF inv c net ex refl]
      have ot: "client_ok ?s q1 c1" if "chat_clients s q1 = Some c1" "q1 \<noteq> q" for q1 c1
        using client_ok_cong [OF system_invD(2) [OF inv that(1)], of ?s] that(2) log_cong(3) [where s' = ?s and s = s] by simp
      have lk: "link_ok ?s p q1" if "client_of s p = Some q1" for p q1
        using system_invD(3) [OF inv that] session_reads_append log_cong(2) [where s' = ?s and s = s] by (auto simp: link_ok_def)
      have none: "down_read s q + length (taken c e) = 0" if "session_of s q = None"
        using that inv net_ok_taken [OF net, of c] by (simp add: system_inv_def incoming_def)
      have "q < next_client s" using inv c by (cases "q < next_client s") (auto simp: system_inv_def)
      then have "system_inv ?s" using inv cok ot lk none
        unfolding system_inv_def by (auto simp: history_def delivered_by_def)
      then show ?thesis using st by blast
    next
      assume "(\<exists>i. CConnect i \<in> set (client_ctrl c)) \<and> (\<exists>t. chat_client_exec e c = Inl (Thrown t))"
      then obtain i t where i: "CConnect i \<in> set (client_ctrl c)" and ex: "chat_client_exec e c = Inl (Thrown t)" by blast
      let ?s = "s\<lparr>chat_clients := (chat_clients s)(q := None)\<rparr>"
      have nc: "\<not> connected s q" using ok i client_reads_no_connect by (auto simp: client_ok_def)
      have "client_ok ?s q1 c1" if "chat_clients s q1 = Some c1" "q1 \<noteq> q" for q1 c1
        using client_ok_cong [OF system_invD(2) [OF inv that(1)], of ?s] that(2) log_cong(3) [where s' = ?s and s = s] by simp
      moreover have "link_ok ?s p q1" if "client_of s p = Some q1" for p q1
        using system_invD(3) [OF inv that] nc log_cong(2) [where s' = ?s and s = s] by (auto simp: link_ok_def)
      ultimately have "system_inv ?s" using inv nc
        unfolding system_inv_def by (auto simp: history_def delivered_by_def)
      then show ?thesis using c net ex by (simp add: client_step_def)
    qed
  qed
qed

lemma to_client_grows:
  assumes inv: "system_inv s" and s': "session_of s' = session_of s" "joined s' = joined s" "history s' = history s @ ms"
  shows "\<exists>fs. to_client s' q = to_client s q @ fs"
proof (cases "session_of s q")
  case None
  then show ?thesis using s' by (simp add: to_client_def)
next
  case (Some p)
  then have "link_ok s p q" using system_invD(3,4) [OF inv] by blast
  then obtain ss where ss: "sessions (room_server s) p = Some ss" by (auto simp: link_ok_def)
  then have "joined s p - 100 \<le> length (history s)"
    using system_invD(1) [OF inv] by (auto simp: room_ok_def hears_def)
  then show ?thesis using Some s' by (simp add: to_client_def)
qed

lemma session_link:
  assumes inv: "system_inv s" and rd: "is_chat_write op \<or> readable s p bs"
    and ex: "chat_exec (ChDone p op ec bs) (room_server s) = Inr r'"
    and on: "reads_on (ChDone p op ec bs) p (room_server s) r'"
    and s': "s' = s\<lparr>room_server := r', room_log := room_log s @ map (Pair p) (delivered (ChDone p op ec bs) (room_server s)),
             up_read := (case client_of s p of
                 None \<Rightarrow> up_read s
               | Some q \<Rightarrow> (up_read s)(q := up_read s q + length (drawn (ChDone p op ec bs) (room_server s))))\<rparr>"
    and cl: "client_of s p1 = Some q1"
  shows "link_ok s' p1 q1"
proof -
  let ?e = "ChDone p op ec bs" and ?r = "room_server s"
  from system_invD(3) [OF inv cl] obtain c ss where l: "session_of s q1 = Some p1" "connected s q1"
    "chat_clients s q1 = Some c" "sessions ?r p1 = Some ss"
    "session_reads (map chat_frame (said s q1)) (up_read s q1) (delivered_by p1 s) ss" by (auto simp: link_ok_def)
  have "p1 \<in> dom (sessions r')" using on l(4) by (auto simp: reads_on_def)
  then obtain ss' where ss': "sessions r' p1 = Some ss'" by blast
  have "session_reads (map chat_frame (said s q1)) (up_read s' q1) (delivered_by p1 s') ss'"
  proof (cases "p1 = p")
    case False
    have "up_read s' q1 = up_read s q1"
    proof (cases "client_of s p")
      case (Some q)
      then have "q \<noteq> q1" using system_invD(3) [OF inv Some] l(1) False by (auto simp: link_ok_def)
      then show ?thesis using Some by (simp add: s')
    qed (simp add: s')
    moreover have "delivered_by p1 s' = delivered_by p1 s" using False
      by (simp add: s' delivered_by_def filter_empty_conv)
    moreover have "chat_reads ss' = chat_reads ss \<and> read_msg ss' = read_msg ss"
      using on l(4) ss' False unfolding reads_on_def by blast
    ultimately show ?thesis using session_reads_cong l(5) by metis
  next
    case True
    have cok: "client_ok s q1 c" by (rule system_invD(2) [OF inv l(3)])
    have fr: "\<forall>f \<in> set (map chat_frame (said s q1)). frame_ok f" "\<forall>m \<in> set (said s q1). chat_ok m"
      using cok framed_frames by (auto simp: client_ok_def framed_def)
    have av: "prefix (c_sent c) (frames_text (map chat_frame (said s q1)))"
      unfolding wires_frames [OF fr(2), symmetric] using cok by (intro says_sent) (simp add: client_ok_def)
    have "prefix (drawn ?e ?r) (drop (up_read s q1) (c_sent c))"
      using rd cl l(3,4) True by (auto simp: readable_def)
    then have "session_reads (map chat_frame (said s q1)) (up_read s q1 + length (drawn ?e ?r))
        (delivered_by p s @ delivered ?e ?r) ss'"
      using on l(4,5) ss' fr(1) av True unfolding reads_on_def by blast
    moreover have "delivered_by p s' = delivered_by p s @ delivered ?e ?r"
      by (simp add: s' delivered_by_def filter_True comp_def)
    moreover have "up_read s' q1 = up_read s q1 + length (drawn ?e ?r)" using cl True by (simp add: s')
    ultimately show ?thesis using True by simp
  qed
  then show ?thesis using l ss' by (simp add: link_ok_def s')
qed

lemma session_event_ok:
  assumes inv: "system_inv s"
  shows "\<exists>s'. session_step p op ec bs s = Inr s' \<and> system_inv s'"
proof (cases "is_chat_write op \<or> readable s p bs")
  case False
  then show ?thesis using inv by (simp add: session_step_def)
next
  case rd: True
  let ?e = "ChDone p op ec bs" and ?r = "room_server s"
  from session_event [OF system_invD(1) [OF inv], of p op ec bs] obtain r'
    where ex: "chat_exec ?e ?r = Inr r'" and ok: "room_ok (joined s) (history s @ delivered ?e ?r) r'"
      and on: "reads_on ?e p ?r r'" by blast
  define s' where "s' = s\<lparr>room_server := r', room_log := room_log s @ map (Pair p) (delivered ?e ?r),
             up_read := (case client_of s p of
                 None \<Rightarrow> up_read s
               | Some q \<Rightarrow> (up_read s)(q := up_read s q + length (drawn ?e ?r)))\<rparr>"
  have st: "session_step p op ec bs s = Inr s'"
    unfolding session_step_def Let_def ex using rd by (auto simp: s'_def simp del: chat_exec.simps drawn.simps)
  have hist: "history s' = history s @ delivered ?e ?r" by (simp add: s'_def history_def comp_def)
  have same: "joined s' = joined s" "session_of s' = session_of s" "client_of s' = client_of s"
    "chat_clients s' = chat_clients s" "connected s' = connected s" "down_read s' = down_read s" "said s' = said s"
    "next_client s' = next_client s" "room_server s' = r'" by (simp_all add: s'_def)
  have cok: "client_ok s' q c" if "chat_clients s q = Some c" for q c
  proof -
    obtain fs where "to_client s' q = to_client s q @ fs" using to_client_grows [OF inv same(2,1) hist] by blast
    then show ?thesis using system_invD(2) [OF inv that] same client_reads_append by (simp add: client_ok_def)
  qed
  have lok: "link_ok s' p1 q1" if "client_of s p1 = Some q1" for p1 q1
    by (rule session_link [OF inv rd ex on s'_def that])
  have up: "up_read s' q = 0" if "session_of s q = None" for q
  proof (cases "client_of s p")
    case (Some q1)
    then have "q \<noteq> q1" using system_invD(3) [OF inv Some] that by (auto simp: link_ok_def)
    then show ?thesis using Some system_invD(7) [OF inv that] by (simp add: s'_def)
  next
    case None
    then show ?thesis using system_invD(7) [OF inv that] by (simp add: s'_def)
  qed
  have none: "delivered_by p1 s' = []" if "sessions r' p1 = None" for p1
  proof -
    have "p1 \<notin> dom (sessions ?r)" using on that unfolding reads_on_def by blast
    then have n: "sessions ?r p1 = None" by blast
    then have "p1 = p \<Longrightarrow> delivered ?e ?r = []" by (cases op; cases ec) simp_all
    then show ?thesis using system_invD(6) [OF inv n] by (auto simp: s'_def delivered_by_def filter_empty_conv)
  qed
  have "system_inv s'" unfolding system_inv_def
    using ok hist same cok lok up none inv[unfolded system_inv_def] by auto
  then show ?thesis using st by blast
qed

lemma accept_none:
  assumes "system_inv s"
  shows "sessions (room_server s) (next_session (room_server s)) = None"
    "client_of s (next_session (room_server s)) = None" "session_of s q \<noteq> Some (next_session (room_server s))"
proof -
  let ?p = "next_session (room_server s)"
  have "room_inv (history s) (room_server s)" using system_invD(1) [OF assms] by (simp add: room_ok_def)
  then show n: "sessions (room_server s) ?p = None"
    by (cases "sessions (room_server s) ?p") (auto simp: room_inv_def)
  then show c: "client_of s ?p = None" using system_invD(3) [OF assms, of ?p]
    by (cases "client_of s ?p") (auto simp: link_ok_def)
  then show "session_of s q \<noteq> Some ?p" using system_invD(4) [OF assms, of q ?p] by auto
qed

lemma accept_event_ok:
  assumes inv: "system_inv s"
  shows "\<exists>s'. accept_step peer ec junk s = Inr s' \<and> system_inv s'"
proof (cases "may_accept peer s \<and> \<not> ec \<and> length junk = 516")
  case False
  have "accept_step peer ec junk s = Inr s"
    unfolding accept_step_def if_not_P [OF False] by (simp add: accept_session_def)
  then show ?thesis using inv by simp
next
  case True
  let ?r = "room_server s" and ?p = "next_session (room_server s)"
  have ok: "room_ok (joined s) (history s) ?r" by (rule system_invD(1) [OF inv])
  then have "room_inv (history s) ?r" by (simp add: room_ok_def)
  from accept_exact [OF this conjunct2 [OF conjunct2 [OF True]]] obtain r' ss' where
    ex: "accept_session False junk ?r = Inr r'" and r': "sessions ?r ?p = None"
      "sessions r' = (sessions ?r)(?p \<mapsto> ss')" "set (participants r') = insert ?p (set (participants ?r))"
    and ss': "chat_reads ss' = [ChReadHeader]" "hears (length (history s) - 100) True (history s) ss'" by blast
  have ex': "chat_exec (ChAccept ec junk) ?r = Inr r'" using ex True by simp
  define s' where "s' = s\<lparr>room_server := r', joined := (joined s)(?p := length (room_log s)),
               client_of := (client_of s)(?p := peer),
               session_of := (case peer of None \<Rightarrow> session_of s | Some q \<Rightarrow> (session_of s)(q \<mapsto> ?p))\<rparr>"
  have st: "accept_step peer ec junk s = Inr s'"
    unfolding accept_step_def Let_def ex' using True by (simp add: s'_def)
  note fresh = accept_none [OF inv]
  have same: "history s' = history s" "delivered_by p s' = delivered_by p s" for p
    by (rule log_cong; simp add: s'_def)+
  have same2: "chat_clients s' = chat_clients s" "connected s' = connected s" "down_read s' = down_read s"
    "up_read s' = up_read s" "said s' = said s" "next_client s' = next_client s" "room_server s' = r'" by (simp_all add: s'_def)
  have inv': "room_inv (history s) r'"
    using chat_exec_ok [of "history s" ?r "ChAccept ec junk"] ex' ok by (simp add: room_ok_def)
  have len: "length (history s) = length (room_log s)" by (simp add: history_def)
  have rok: "room_ok (joined s') (history s') (room_server s')"
    unfolding room_ok_def
  proof (intro conjI allI impI)
    show "room_inv (history s') (room_server s')" using inv' same same2 by simp
    show "\<forall>m \<in> set (history s'). framed m" using ok same by (simp add: room_ok_def)
    fix p ss
    assume p: "sessions (room_server s') p = Some ss"
    show "hears (joined s' p - 100) (p \<in> set (participants (room_server s'))) (history s') ss"
    proof (cases "p = ?p")
      case True
      then show ?thesis using p r' ss' len same same2 by (simp add: s'_def)
    next
      case False
      then show ?thesis using p r' ok same same2 by (simp add: s'_def room_ok_def)
    qed
    show "header_held ss"
    proof (cases "p = ?p")
      case True
      then show ?thesis using p r' ss' same2 by (simp add: header_held_def)
    next
      case False
      then show ?thesis using p r' ok same2 by (simp add: room_ok_def)
    qed
  qed
  have cok: "client_ok s' q c" if c: "chat_clients s q = Some c" for q c
  proof (cases "peer = Some q")
    case False
    then have "session_of s' q = session_of s q" by (auto simp: s'_def split: option.splits)
    moreover have "joined s' p = joined s p" if "session_of s q = Some p" for p
      using that fresh(3) [of q] by (simp add: s'_def)
    ultimately have "to_client s' q = to_client s q"
      by (auto simp: to_client_def same(1) split: option.splits)
    then show ?thesis using client_ok_cong [OF system_invD(2) [OF inv c], of s'] same2 by simp
  next
    case peer: True
    then have "connected s q" "session_of s q = None" using True by (simp_all add: may_accept_def)
    then have "client_reads [] 0 c" using system_invD(2) [OF inv c] system_invD(7) [OF inv]
      by (simp add: client_ok_def to_client_def)
    from client_reads_append [OF this, of "to_client s' q"] show ?thesis
      using system_invD(2) [OF inv c] system_invD(7) [OF inv \<open>session_of s q = None\<close>] \<open>connected s q\<close> same2
      by (simp add: client_ok_def)
  qed
  have lok: "link_ok s' p q" if pq: "client_of s' p = Some q" for p q
  proof (cases "p = ?p")
    case False
    then have l: "link_ok s p q" using system_invD(3) [OF inv] pq by (simp add: s'_def)
    then have "peer \<noteq> Some q" using True by (auto simp: link_ok_def may_accept_def)
    then have "session_of s' q = session_of s q" by (auto simp: s'_def split: option.splits)
    then show ?thesis using l False r'(2) same same2 by (simp add: link_ok_def)
  next
    case p: True
    then have peer: "peer = Some q" using pq by (simp add: s'_def)
    then have q: "connected s q" "session_of s q = None" using True by (simp_all add: may_accept_def)
    then obtain c where "chat_clients s q = Some c" using inv by (auto simp: system_inv_def)
    moreover have "delivered_by ?p s = []" by (rule system_invD(6) [OF inv fresh(1)])
    moreover have "session_reads fs 0 [] ss'" for fs using ss'(1) by (auto simp: session_reads_def)
    ultimately show ?thesis using p peer q system_invD(7) [OF inv q(2)] same same2 r'(2)
      by (simp add: link_ok_def) (simp add: s'_def)
  qed
  have sc: "client_of s' p = Some q" if "session_of s' q = Some p" for p q
    using that system_invD(4) [OF inv] fresh(3) [of q] by (auto simp: s'_def split: option.splits if_splits)
  have nn: "session_of s' q = None \<Longrightarrow> session_of s q = None" for q
    by (auto simp: s'_def split: option.splits if_splits)
  have "system_inv s'" unfolding system_inv_def
    using rok cok lok sc nn same same2 r'(2) inv[unfolded system_inv_def] by auto
  then show ?thesis using st by blast
qed

lemma start_event_ok:
  assumes inv: "system_inv s"
  shows "system_inv (start_step now n junk s)"
proof (cases "length junk = 516")
  case False
  then show ?thesis using inv by (simp add: start_step_def)
next
  case True
  let ?q = "next_client s" and ?c = "chat_start now n (new_chat_client junk)"
  let ?s = "s\<lparr>chat_clients := (chat_clients s)(?q \<mapsto> ?c), next_client := Suc ?q\<rparr>"
  have none: "chat_clients s ?q = None" "said s ?q = []" using inv by (auto simp: system_inv_def)
  then have nc: "\<not> connected s ?q" using inv by (auto simp: system_inv_def)
  have ci: "chat_client_inv ?c" by (rule chat_client_start_inv [OF True])
  have fresh: "c_posted ?c = []" "c_sent ?c = []" "c_write_msgs ?c = []" "c_output ?c = []"
    by (auto simp: chat_start_def do_connect_def new_chat_client_def start_client_op_def set_expiry_def Let_def)
  have "client_ctrl ?c = [] \<or> (\<exists>i. client_ctrl ?c = [CConnect i])"
    by (auto simp: chat_start_def do_connect_def new_chat_client_def start_client_op_def set_expiry_def Let_def client_ctrl_def)
  then have "client_ok s ?q ?c" using ci fresh none(2) nc by (simp add: client_ok_def says_def unconnected_def)
  moreover have to: "to_client ?s q = to_client s q" "history ?s = history s" "delivered_by p ?s = delivered_by p s" for q p
    by (rule log_cong; simp)+
  ultimately have "client_ok ?s ?q ?c" using client_ok_cong [of s ?q ?c ?s] by simp
  moreover have "client_ok ?s q c" if "chat_clients s q = Some c" for q c
    by (rule client_ok_cong [OF system_invD(2) [OF inv that]]) (simp_all add: to)
  moreover have "link_ok ?s p q" if "client_of s p = Some q" for p q
    using system_invD(3) [OF inv that] none(1) to(3) by (auto simp: link_ok_def)
  ultimately have cok: "\<forall>q c. chat_clients ?s q = Some c \<longrightarrow> client_ok ?s q c"
    and lok: "\<forall>p q. client_of ?s p = Some q \<longrightarrow> link_ok ?s p q" by simp_all
  have "system_inv ?s" unfolding system_inv_def
  proof (intro conjI cok lok)
    show "\<forall>q \<ge> next_client ?s. chat_clients ?s q = None \<and> said ?s q = []"
      "\<forall>q. connected ?s q \<longrightarrow> chat_clients ?s q \<noteq> None"
      using inv by (simp_all add: system_inv_def)
  qed (use inv to in \<open>simp_all add: system_inv_def\<close>)
  then show ?thesis using True by (simp add: start_step_def)
qed

lemma system_exec_ok: "system_inv s \<Longrightarrow> \<exists>s'. system_exec e s = Inr s' \<and> system_inv s'"
  by (cases e) (simp_all add: start_event_ok client_event accept_event_ok session_event_ok)

lemma system_run_ok: "\<exists>s. system_run es new_chat_system = Inr s \<and> system_inv s"
  by (rule run_events_inv [OF system_exec_ok system_inv_new])

section \<open>A run\<close>

text \<open>A client connects, says a message, and hears it from the room.\<close>

definition hi_message :: chat_message where
  "hi_message = \<lparr>cdata = ''   2hi'' @ replicate 510 CHR ''x'', cbody_length = 2\<rparr>"

definition sample_run :: "system_event list" where
  "sample_run =
    [SysStart 0 1 (replicate 516 CHR ''x''), SysClient 0 (CCDone (CConnect 0) False [] 1),
     SysAccept (Some 0) False (replicate 516 CHR ''x''),
     SysClient 0 (CCWrite hi_message), SysClient 0 CCRunPosted,
     SysClient 0 (CCDone (CWrite ''   2hi'') False ''   2hi'' 2),
     SysSession 0 ChReadHeader False ''   2'', SysSession 0 (ChReadBody 2) False ''hi'',
     SysSession 0 (ChWrite ''   2hi'') False ''   2hi'',
     SysClient 0 (CCDone CReadHeader False ''   2'' 3), SysClient 0 (CCDone (CReadBody 2) False ''hi'' 3)]"

section \<open>Properties\<close>

lemma reached_inv: "system_run es new_chat_system = Inr s \<Longrightarrow> system_inv s"
  using system_run_ok [of es] by simp

definition drained :: "chat_system \<Rightarrow> nat \<Rightarrow> nat \<Rightarrow> bool" where
  "drained s p q = (case (chat_clients s q, sessions (room_server s) p) of
       (Some c, Some ss) \<Rightarrow>
         c_posted c = [] \<and> c_write_msgs c = [] \<and> up_read s q = length (c_sent c) \<and> ChReadHeader \<in> set (ss_ops ss)
         \<and> p \<in> set (participants (room_server s)) \<and> write_msgs ss = [] \<and> down_read s q = length (ss_sent ss)
         \<and> CReadHeader \<in> set (c_ops c)
     | _ \<Rightarrow> False)"

lemma sample_run_eval:
  "case system_run sample_run new_chat_system of Inl f \<Rightarrow> False
   | Inr s \<Rightarrow> client_of s 0 = Some 0 \<and> drained s 0 0 \<and> session_of s 0 = Some 0 \<and> length (said s 0) = 1 \<and> length (history s) = 1
     \<and> (case chat_clients s 0 of None \<Rightarrow> False | Some c \<Rightarrow> c_output c = [CHR ''h'', CHR ''i'', CHR 0x0A])"
  by code_simp

lemma sample_run_ends:
  obtains s c where "system_run sample_run new_chat_system = Inr s" "client_of s 0 = Some 0" "session_of s 0 = Some 0"
    "drained s 0 0" "length (said s 0) = 1" "length (history s) = 1" "chat_clients s 0 = Some c"
    "c_output c = [CHR ''h'', CHR ''i'', CHR 0x0A]"
  using sample_run_eval by (auto split: sum.splits option.splits)

text \<open>C11: the room hears its clients. The whole system never executes undefined behaviour, whatever the
  schedule, the network and other peers do; and the messages that the session of a client has
  delivered to the room are the first of the messages the client was given to write: none
  invented, altered, lost, repeated or out of order.\<close>

theorem room_hears_clients:
  "\<exists>s. system_run es new_chat_system = Inr s
     \<and> (\<forall>p q. client_of s p = Some q \<longrightarrow> prefix (map chat_frame (delivered_by p s)) (map chat_frame (said s q)))"
proof -
  obtain s where s: "system_run es new_chat_system = Inr s" "system_inv s" using system_run_ok by blast
  have "prefix (map chat_frame (delivered_by p s)) (map chat_frame (said s q))" if "client_of s p = Some q" for p q
    using system_invD(3) [OF s(2) that] by (auto simp: link_ok_def session_reads_def take_is_prefix)
  then show ?thesis using s(1) by blast
qed

theorem room_hears_clients_witness:
  "\<exists>s. system_run sample_run new_chat_system = Inr s
     \<and> prefix (map chat_frame (delivered_by 0 s)) (map chat_frame (said s 0)) \<and> length (said s 0) = 1"
proof -
  obtain s c where s: "system_run sample_run new_chat_system = Inr s" "client_of s 0 = Some 0" "length (said s 0) = 1"
    by (rule sample_run_ends)
  with room_hears_clients [of sample_run] show ?thesis by auto
qed

text \<open>C12: clients print the history. What a client has printed is the bodies of consecutive messages
  of the room, each on a line, from a hundred messages before its session joined; a client
  that no server has accepted has printed nothing. Other peers can not change that.\<close>

theorem clients_print_history:
  "\<exists>s. system_run es new_chat_system = Inr s
     \<and> (\<forall>q c. chat_clients s q = Some c \<longrightarrow> (case session_of s q of
           None \<Rightarrow> c_output c = []
         | Some p \<Rightarrow> \<exists>k. c_output c = printed (map chat_frame (take k (drop (joined s p - 100) (history s))))))"
proof -
  obtain s where s: "system_run es new_chat_system = Inr s" "system_inv s" using system_run_ok by blast
  have "case session_of s q of None \<Rightarrow> c_output c = []
         | Some p \<Rightarrow> \<exists>k. c_output c = printed (map chat_frame (take k (drop (joined s p - 100) (history s))))"
    if c: "chat_clients s q = Some c" for q c
  proof (cases "connected s q")
    case True
    then have "client_reads (to_client s q) (down_read s q) c" using system_invD(2) [OF s(2) c] by (simp add: client_ok_def)
    then obtain k where "c_output c = printed (take k (to_client s q))" by (auto simp: client_reads_def)
    then show ?thesis by (auto simp: to_client_def printed_def take_map split: option.splits)
  next
    case False
    then show ?thesis using system_invD(2) [OF s(2) c] system_invD(5) [OF s(2), of q]
      by (auto simp: client_ok_def unconnected_def split: option.splits)
  qed
  then show ?thesis using s(1) by blast
qed

theorem clients_print_history_witness:
  "\<exists>s c k. system_run sample_run new_chat_system = Inr s \<and> chat_clients s 0 = Some c
     \<and> c_output c = printed (map chat_frame (take k (drop (joined s 0 - 100) (history s)))) \<and> length (c_output c) = 3"
proof -
  obtain s c where s: "system_run sample_run new_chat_system = Inr s" "session_of s 0 = Some 0" "chat_clients s 0 = Some c"
    "c_output c = [CHR ''h'', CHR ''i'', CHR 0x0A]" by (rule sample_run_ends)
  with clients_print_history [of sample_run] show ?thesis by fastforce
qed

text \<open>C16: nothing is left behind. When a connection is drained (the client has written everything and
  waits for a header, and so has and does its session) the room has had every message the client
  was given, and the client has printed every message of the room from a hundred before it joined.\<close>

theorem drained_connection_complete:
  assumes "system_run es new_chat_system = Inr s" "client_of s p = Some q" "drained s p q" "chat_clients s q = Some c"
  shows "map chat_frame (delivered_by p s) = map chat_frame (said s q)
     \<and> c_output c = printed (map chat_frame (drop (joined s p - 100) (history s)))"
proof -
  note inv = reached_inv [OF assms(1)]
  from system_invD(3) [OF inv assms(2)] assms(4) obtain ss where l: "session_of s q = Some p" "connected s q"
    "sessions (room_server s) p = Some ss"
    "session_reads (map chat_frame (said s q)) (up_read s q) (delivered_by p s) ss" by (auto simp: link_ok_def)
  have d: "c_posted c = []" "c_write_msgs c = []" "up_read s q = length (c_sent c)" "ChReadHeader \<in> set (chat_reads ss)"
    "p \<in> set (participants (room_server s))" "write_msgs ss = []" "down_read s q = length (ss_sent ss)"
    "CReadHeader \<in> set (client_ctrl c)"
    using assms(3,4) l(3) by (simp_all add: drained_def in_reads [symmetric] in_ctrl [symmetric])
  have cok: "client_ok s q c" by (rule system_invD(2) [OF inv assms(4)])
  have fr: "\<forall>f \<in> set (map chat_frame (said s q)). frame_ok f" "\<forall>m \<in> set (said s q). chat_ok m"
    using cok framed_frames by (auto simp: client_ok_def framed_def)
  have "client_ready c" using cok d(2) by (auto simp: client_ok_def chat_client_inv_def client_dead_def)
  then have "c_sent c = wires (said s q)" using cok d(1,2) by (auto simp: client_ok_def says_def)
  then have sent: "c_sent c = frames_text (map chat_frame (said s q))" using wires_frames [OF fr(2)] by simp
  from l(4) d(4) obtain k where k: "map chat_frame (delivered_by p s) = take k (map chat_frame (said s q))"
    "before_frame (map chat_frame (said s q)) (up_read s q) k" by (auto simp: session_reads_def)
  have up: "map chat_frame (delivered_by p s) = map chat_frame (said s q)"
    using k chat_stream.read_all [OF fr(1)] d(3) sent by metis
  let ?fs = "map chat_frame (drop (joined s p - 100) (history s))"
  have ok: "room_ok (joined s) (history s) (room_server s)" by (rule system_invD(1) [OF inv])
  have "stream ss = wires (drop (joined s p - 100) (history s))" using ok l(3) d(5) by (auto simp: room_ok_def hears_def)
  moreover have "\<forall>m \<in> set (drop (joined s p - 100) (history s)). chat_ok m"
    using ok by (auto simp: room_ok_def framed_def dest: in_set_dropD)
  ultimately have "ss_sent ss = frames_text ?fs" using wires_frames d(6) by (simp add: stream_def)
  moreover have "client_reads ?fs (down_read s q) c" using cok l(1,2) by (simp add: client_ok_def to_client_def)
  then obtain k' where "c_output c = printed (take k' ?fs)" "before_frame ?fs (down_read s q) k'"
    using d(8) by (auto simp: client_reads_def)
  ultimately have "c_output c = printed ?fs" using chat_stream.read_all [OF to_client_frames [OF ok]] d(7) by metis
  with up show ?thesis by blast
qed

theorem drained_connection_complete_witness:
  "\<exists>s c. system_run sample_run new_chat_system = Inr s \<and> chat_clients s 0 = Some c
     \<and> map chat_frame (delivered_by 0 s) = map chat_frame (said s 0) \<and> length (said s 0) = 1
     \<and> c_output c = printed (map chat_frame (drop (joined s 0 - 100) (history s))) \<and> length (c_output c) = 3"
proof -
  obtain s c where s: "system_run sample_run new_chat_system = Inr s" "client_of s 0 = Some 0" "drained s 0 0"
    "length (said s 0) = 1" "chat_clients s 0 = Some c" "c_output c = [CHR ''h'', CHR ''i'', CHR 0x0A]"
    by (rule sample_run_ends)
  have "length (c_output c) = 3" using s(6) by simp
  with drained_connection_complete [OF s(1-3,5)] s(1,4,5) show ?thesis by blast
qed

end
