(* ===== verification/ChatServerMain.thy ===== *)
theory ChatServerMain
  imports ChatSystem
begin

text \<open>
  \<open>main\<close> of \<open>src/src/network/server.cpp\<close>: one chat server for each port on the command line, all on one
  context. The rooms of different ports do not hear each other.
\<close>

section \<open>Starting the servers\<close>

type_synonym port = "16 word"

definition port_number :: "string \<Rightarrow> port" where
  "port_number arg = word_of_int (atoi arg)"

text \<open>The constructor of a server opens its acceptor, which throws when the port cannot be had: \<open>opens\<close>
  tells that of a port and the ports opened before it.\<close>

fun open_servers :: "(port \<Rightarrow> port list \<Rightarrow> bool) \<Rightarrow> string list \<Rightarrow> port list \<Rightarrow> port list result" where
  "open_servers opens [] ports = Inr ports"
| "open_servers opens (arg # args) ports =
     (let p = port_number arg
      in if opens p ports then open_servers opens args (ports @ [p]) else Inl (Thrown ''system_error''))"

text \<open>An event of the context is an event of one of the servers.\<close>

definition servers_exec :: "nat \<times> chat_event \<Rightarrow> chat_server list \<Rightarrow> chat_server list result" where
  "servers_exec ie servers = (case ie of (i, e) \<Rightarrow>
     if i < length servers then rbind (chat_exec e (servers ! i)) (\<lambda>s. Inr (servers[i := s])) else Inr servers)"

abbreviation servers_run :: "(nat \<times> chat_event) list \<Rightarrow> chat_server list \<Rightarrow> chat_server list result" where
  "servers_run \<equiv> run_events servers_exec"

fun what :: "fault \<Rightarrow> string" where
  "what (Thrown e) = e"
| "what _ = ''''"

text \<open>The exit code, what is written to the error output, and the servers at the end of the run.\<close>

definition chat_main ::
  "(port \<Rightarrow> port list \<Rightarrow> bool) \<Rightarrow> string list \<Rightarrow> (nat \<times> chat_event) list \<Rightarrow> (int \<times> string \<times> chat_server list) result" where
  "chat_main opens args es =
     (if args = [] then Inr (1, ''Usage: chat_server <port> [<port> ...]'' @ [CHR 0x0A], [])
      else case open_servers opens args [] of
          Inl e \<Rightarrow> Inr (0, ''Exception: '' @ what e @ [CHR 0x0A], [])
        | Inr ports \<Rightarrow> rbind (servers_run es (replicate (length ports) new_chat_server)) (\<lambda>servers. Inr (0, '''', servers)))"

section \<open>The rooms are separate\<close>

definition events_of :: "nat \<Rightarrow> (nat \<times> chat_event) list \<Rightarrow> chat_event list" where
  "events_of i es = map snd (filter (\<lambda>ie. fst ie = i) es)"

definition servers_ok :: "chat_server list \<Rightarrow> bool" where
  "servers_ok servers \<longleftrightarrow> (\<forall>i < length servers. \<exists>h. room_inv h (servers ! i))"

lemma servers_exec_ok:
  assumes "servers_ok servers"
  shows "\<exists>servers'. servers_exec (i, e) servers = Inr servers' \<and> servers_ok servers' \<and> length servers' = length servers
     \<and> (\<forall>j < length servers. chat_run (events_of j [(i, e)]) (servers ! j) = Inr (servers' ! j))"
proof (cases "i < length servers")
  case False
  then show ?thesis using assms by (auto simp: servers_exec_def events_of_def)
next
  case True
  then obtain h where "room_inv h (servers ! i)" using assms by (auto simp: servers_ok_def)
  from chat_exec_ok [OF this, of e] obtain s where "chat_exec e (servers ! i) = Inr s" "room_inv (h @ delivered e (servers ! i)) s"
    by blast
  then show ?thesis using assms True
    by (auto simp: servers_exec_def events_of_def servers_ok_def nth_list_update)
qed

lemma servers_run_ok:
  "servers_ok servers \<Longrightarrow> \<exists>servers'. servers_run es servers = Inr servers' \<and> length servers' = length servers
     \<and> (\<forall>j < length servers. chat_run (events_of j es) (servers ! j) = Inr (servers' ! j))"
proof (induction es arbitrary: servers)
  case Nil
  then show ?case by (simp add: events_of_def)
next
  case (Cons ie es)
  obtain i e where ie: "ie = (i, e)" by (cases ie)
  from servers_exec_ok [OF Cons.prems, of i e] obtain s1 where s1: "servers_exec (i, e) servers = Inr s1" "servers_ok s1"
    "length s1 = length servers" "\<forall>j < length servers. chat_run (events_of j [(i, e)]) (servers ! j) = Inr (s1 ! j)" by blast
  from Cons.IH [OF s1(2)] obtain s2 where s2: "servers_run es s1 = Inr s2" "length s2 = length s1"
    "\<forall>j < length s1. chat_run (events_of j es) (s1 ! j) = Inr (s2 ! j)" by blast
  have "chat_run (events_of j (ie # es)) (servers ! j) = Inr (s2 ! j)" if "j < length servers" for j
  proof -
    have "events_of j (ie # es) = events_of j [(i, e)] @ events_of j es" by (simp add: events_of_def ie)
    then show ?thesis using s1(3,4) s2(3) that by (simp add: run_events_append)
  qed
  then show ?case using s1 s2 ie by simp
qed

lemma open_servers_length:
  "open_servers opens args ports = Inr ports' \<Longrightarrow> ports' = ports @ map port_number args"
  by (induction opens args ports rule: open_servers.induct) (auto simp: Let_def split: if_splits)

section \<open>Properties\<close>



end
