(* ===== verification/LoginWindow.thy ===== *)
theory LoginWindow
  imports ChatClient
begin

text \<open>
  \<open>src/src/loginwindow.cpp\<close> and \<open>src/src/include/utils.hpp\<close>: the click on the login button, which
  creates a context and a chat client in its own scope, and the conversion \<open>stoui\<close>.
\<close>

section \<open>Numbers from text\<close>

text \<open>\<open>std::stoul\<close> in base ten: white space, an optional sign, at least one digit; a value that does
  not fit 64 bits is out of range, and a minus sign negates modulo 2^64.\<close>

definition stoul_digits :: "string \<Rightarrow> nat result" where
  "stoul_digits cs = (case cs of
       [] \<Rightarrow> Inl (Thrown ''invalid_argument'')
     | c # _ \<Rightarrow> if \<not> is_digit c then Inl (Thrown ''invalid_argument'')
               else if digits_loop 0 cs \<ge> 2 ^ 64 then Inl (Thrown ''out_of_range'')
               else Inr (digits_loop 0 cs))"

definition stoul :: "string \<Rightarrow> u64 result" where
  "stoul s = (case skip_spaces s of
       [] \<Rightarrow> Inl (Thrown ''invalid_argument'')
     | c # cs \<Rightarrow>
         if c = CHR ''-'' then rbind (stoul_digits cs) (\<lambda>n. Inr (- word_of_nat n))
         else if c = CHR ''+'' then rbind (stoul_digits cs) (\<lambda>n. Inr (word_of_nat n))
         else rbind (stoul_digits (c # cs)) (\<lambda>n. Inr (word_of_nat n)))"

definition stoui :: "string \<Rightarrow> u32 result" where
  "stoui s = rbind (stoul s) (\<lambda>lresult.
     let result = ucast lresult :: u32
     in if (ucast result :: u64) \<noteq> lresult then Inl (Thrown ''out_of_range'') else Inr result)"

section \<open>The login button\<close>

text \<open>What the click leaves: a message in the status bar, or, with the main window shown, the client
  as it is when the end of the scope destroys it. \<open>resolve\<close> is the resolver: the number of
  endpoints, or the text of its exception; \<open>now\<close> and \<open>junk\<close> as for the client.\<close>

datatype click_result = StatusMessage string | Shown chat_client

definition on_pbtn_enter_clicked ::
  "(string \<Rightarrow> string \<Rightarrow> string + nat) \<Rightarrow> nat \<Rightarrow> string \<Rightarrow> string \<Rightarrow> string \<Rightarrow> click_result" where
  "on_pbtn_enter_clicked resolve now junk ipaddress portnum =
     (if ipaddress = [] \<or> portnum = []
      then StatusMessage ''Please input the ip address and port number!!!''
      else case resolve ipaddress portnum of
          Inl err \<Rightarrow> StatusMessage err
        | Inr n \<Rightarrow> Shown (chat_start now n (new_chat_client junk)))"

section \<open>Properties\<close>

text \<open>\<open>stoui\<close> reads back every number it can hold, in the decimal form the standard library
  writes, rejects every larger one as out of range (also those that fit \<open>unsigned long\<close>), and
  rejects text without a number.\<close>

lemma stoui_reads_decimal:
  "stoui (pad_left w (dec n)) = (if n < 2 ^ 32 then Inr (word_of_nat n) else Inl (Thrown ''out_of_range''))
   \<and> stoui [] = Inl (Thrown ''invalid_argument'')"
proof -
  obtain c cs where d: "dec n = c # cs" by (cases "dec n") simp_all
  then have c: "is_digit c" using dec_digits [of c n] by simp
  then have sg: "c \<noteq> CHR ''-''" "c \<noteq> CHR ''+''" by (simp_all add: digit_not_sign)
  have sk: "skip_spaces (pad_left w (dec n)) = c # cs" using skip_spaces_pad_dec [of w n] d by (simp only:)
  have v: "digits_loop 0 (c # cs) = n" using digits_loop_dec [of n] d by simp
  have "stoul (pad_left w (dec n)) = (if n < 2 ^ 64 then Inr (word_of_nat n) else Inl (Thrown ''out_of_range''))"
    unfolding stoul_def sk using sg c v
    by (simp add: stoul_digits_def del: digits_loop.simps)
  moreover have "((ucast (ucast (word_of_nat n :: u64) :: u32) :: u64) = word_of_nat n) = (n < 2 ^ 32)" if "n < 2 ^ 64"
  proof -
    have "unat (ucast (ucast (word_of_nat n :: u64) :: u32) :: u64) = n mod 2 ^ 32" "unat (word_of_nat n :: u64) = n"
      using that by (simp_all add: unsigned_ucast_eq unsigned_of_nat take_bit_eq_mod mod_mod_cancel)
    then show ?thesis by (metis mod_less mod_less_divisor word_unat_eq_iff zero_less_numeral zero_less_power)
  qed
  moreover have "(ucast (word_of_nat n :: u64) :: u32) = word_of_nat n"
    by (simp add: unsigned_of_nat word_of_nat_eq_iff)
  moreover have "stoul [] = Inl (Thrown ''invalid_argument'')" by (simp add: stoul_def skip_spaces_def)
  ultimately show ?thesis by (auto simp: stoui_def Let_def)
qed

end
