(* ===== verification/AsioDispatcher.thy ===== *)
theory AsioDispatcher
  imports Prelude
begin

text \<open>
  \<open>src/src/qasioeventdispatcher.cpp\<close>: the Qt event dispatcher on top of Asio, with its socket
  notifiers. Objects of type \<open>QAsioSockNotifier\<close> live in a heap and are listed in
  \<open>socketNotifiers\<close>; the waits in progress carry the object, the kind of readiness and the
  revision they were started with. Delivering an event to a notifier is the last thing a handler
  does, so what the application does in it (register, unregister) is a later event of the run.
  The theory \<open>AsioEventLoop\<close> has the loop that runs the handlers.
\<close>

section \<open>State\<close>

datatype ntype = Read | Write | Exception

text \<open>\<open>notif\<close> has the identity of the registered notifier of each type.\<close>

record sock_notifier =
  notif :: "ntype \<Rightarrow> nat option"
  revision :: "ntype \<Rightarrow> nat"
  sn_fd :: int
  pending_operations :: int

definition new_sock_notifier :: "int \<Rightarrow> sock_notifier" where
  "new_sock_notifier fd = \<lparr>notif = (\<lambda>_. None), revision = (\<lambda>_. 0), sn_fd = fd, pending_operations = 0\<rparr>"

type_synonym wait_handler = "nat \<times> ntype \<times> nat"

record dispatcher =
  socketNotifiers :: "nat list"
  sock_objs :: "nat \<Rightarrow> sock_notifier option"
  wait_handlers :: "wait_handler list"
  cancelled_waits :: "wait_handler list"
  next_obj :: nat
  events_sent :: "nat list"
  closed_fds :: "int list"
  interrupted :: bool
  timer_wait :: "nat option"
  timer_aborted :: nat
  timer_activations :: nat

definition new_dispatcher :: dispatcher where
  "new_dispatcher = \<lparr>socketNotifiers = [], sock_objs = Map.empty, wait_handlers = [], cancelled_waits = [], next_obj = 0,
     events_sent = [], closed_fds = [], interrupted = False,
     timer_wait = None, timer_aborted = 0, timer_activations = 0\<rparr>"

section \<open>Socket notifiers\<close>

fun find_fd :: "int \<Rightarrow> nat list \<Rightarrow> dispatcher \<Rightarrow> nat option" where
  "find_fd fd [] d = None"
| "find_fd fd (i # is) d =
     (if (case sock_objs d i of Some n \<Rightarrow> sn_fd n = fd | None \<Rightarrow> False) then Some i else find_fd fd is d)"

definition socketNotifierForFd :: "int \<Rightarrow> bool \<Rightarrow> dispatcher \<Rightarrow> nat option \<times> dispatcher" where
  "socketNotifierForFd fd createIfNotFound d =
     (case find_fd fd (socketNotifiers d) d of
        Some i \<Rightarrow> (Some i, d)
      | None \<Rightarrow>
          if createIfNotFound then
            let i = next_obj d
            in (Some i, d\<lparr>sock_objs := (sock_objs d)(i \<mapsto> new_sock_notifier fd), next_obj := Suc i,
                          socketNotifiers := socketNotifiers d @ [i]\<rparr>)
          else (None, d))"

text \<open>Access through a pointer to an object that may have been deleted.\<close>

definition with_sn :: "nat \<Rightarrow> (sock_notifier \<Rightarrow> 'a result) \<Rightarrow> dispatcher \<Rightarrow> 'a result" where
  "with_sn i f d = (case sock_objs d i of None \<Rightarrow> Inl UseAfterFree | Some sn \<Rightarrow> f sn)"

definition put_sn :: "nat \<Rightarrow> sock_notifier \<Rightarrow> dispatcher \<Rightarrow> dispatcher" where
  "put_sn i sn d = d\<lparr>sock_objs := (sock_objs d)(i \<mapsto> sn)\<rparr>"

text \<open>\<open>fdReadStart\<close> and \<open>fdWriteStart\<close>.\<close>

definition fdStart :: "ntype \<Rightarrow> nat \<Rightarrow> dispatcher \<Rightarrow> dispatcher result" where
  "fdStart type i d = with_sn i (\<lambda>sn.
     let sn = sn\<lparr>pending_operations := pending_operations sn + 1\<rparr>
     in if notif sn type = None then Inl AssertFailed
        else Inr ((put_sn i sn d)\<lparr>wait_handlers := wait_handlers d @ [(i, type, revision sn type)]\<rparr>)) d"

text \<open>\<open>fdReadReady\<close> and \<open>fdWriteReady\<close>.\<close>

definition sendEvent :: "nat option \<Rightarrow> dispatcher \<Rightarrow> dispatcher result" where
  "sendEvent receiver d = (case receiver of None \<Rightarrow> Inl NullDeref
     | Some n \<Rightarrow> Inr (d\<lparr>events_sent := events_sent d @ [n]\<rparr>))"

definition fdReady :: "ntype \<Rightarrow> nat \<Rightarrow> bool \<Rightarrow> nat \<Rightarrow> dispatcher \<Rightarrow> dispatcher result" where
  "fdReady type i error r d = with_sn i (\<lambda>sn.
     let sn = sn\<lparr>pending_operations := pending_operations sn - 1\<rparr>;
         d = put_sn i sn d;
         sn_changed = (revision sn type \<noteq> r)
     in if \<not> sn_changed \<and> \<not> error then
          rbind (fdStart type i d) (sendEvent (notif sn type))
        else Inr d) d"

text \<open>\<open>valid_call\<close>: the descriptor is in range and the call comes from the dispatcher's thread;
  otherwise the debug build warns and returns.\<close>

definition fd_in_range :: "int \<Rightarrow> bool" where
  "fd_in_range sockfd \<longleftrightarrow> 0 \<le> sockfd \<and> sockfd < 1024"

definition registerSocketNotifier :: "nat \<Rightarrow> int \<Rightarrow> ntype \<Rightarrow> bool \<Rightarrow> dispatcher \<Rightarrow> dispatcher result" where
  "registerSocketNotifier notifier sockfd type same_thread d =
     (if \<not> fd_in_range sockfd \<or> \<not> same_thread then Inr d
      else case socketNotifierForFd sockfd True d of
          (None, d) \<Rightarrow> Inl AssertFailed
        | (Some i, d) \<Rightarrow> with_sn i (\<lambda>sn.
            if notif sn type \<noteq> None then Inl AssertFailed
            else
              let sn = sn\<lparr>notif := (notif sn)(type := Some notifier), revision := (revision sn)(type := Suc (revision sn type))\<rparr>;
                  d = put_sn i sn d
              in (case type of
                    Read \<Rightarrow> fdStart Read i d
                  | Write \<Rightarrow> fdStart Write i d
                  | Exception \<Rightarrow> Inl Fatal)) d)"

text \<open>With the last notifier gone the descriptor is cancelled, which makes its waits end with an
  error, later: \<open>cancelled_waits\<close> has them.\<close>

definition no_notif :: "sock_notifier \<Rightarrow> bool" where
  "no_notif sn \<longleftrightarrow> notif sn Read = None \<and> notif sn Write = None \<and> notif sn Exception = None"

definition waits_of :: "nat \<Rightarrow> wait_handler list \<Rightarrow> wait_handler list" where
  "waits_of i hs = filter (\<lambda>h. fst h = i) hs"

definition sd_cancel :: "nat \<Rightarrow> dispatcher \<Rightarrow> dispatcher" where
  "sd_cancel i d = d\<lparr>cancelled_waits := cancelled_waits d @ waits_of i (wait_handlers d)\<rparr>"

definition unregisterSocketNotifier :: "nat \<Rightarrow> int \<Rightarrow> ntype \<Rightarrow> bool \<Rightarrow> dispatcher \<Rightarrow> dispatcher result" where
  "unregisterSocketNotifier notifier sockfd type same_thread d =
     (if \<not> fd_in_range sockfd \<or> \<not> same_thread then Inr d
      else case socketNotifierForFd sockfd False d of
          (None, d) \<Rightarrow> Inl AssertFailed
        | (Some i, d) \<Rightarrow> with_sn i (\<lambda>sn.
            if notif sn type \<noteq> Some notifier then Inl AssertFailed
            else
              let sn = sn\<lparr>notif := (notif sn)(type := None), revision := (revision sn)(type := Suc (revision sn type))\<rparr>;
                  d = put_sn i sn d
              in Inr (if no_notif sn then sd_cancel i d else d)) d)"

text \<open>Deleting the stream descriptor closes its file descriptor. The loop looks at the list's
  element \<open>k\<close> and either removes it or goes on to the next.\<close>

fun cleanup_loop :: "bool \<Rightarrow> nat list \<Rightarrow> dispatcher \<Rightarrow> dispatcher result" where
  "cleanup_loop forceRemoveAll [] d = Inr d"
| "cleanup_loop forceRemoveAll (i # is) d = with_sn i (\<lambda>sn.
     if pending_operations sn = 0 \<or> forceRemoveAll then
       if \<not> forceRemoveAll \<and> \<not> no_notif sn then Inl AssertFailed
       else cleanup_loop forceRemoveAll is
              (d\<lparr>socketNotifiers := removeAll i (socketNotifiers d), sock_objs := (sock_objs d)(i := None),
                 closed_fds := closed_fds d @ [sn_fd sn]\<rparr>)
     else cleanup_loop forceRemoveAll is d) d"

definition cleanupSocketNotifiers :: "bool \<Rightarrow> dispatcher \<Rightarrow> dispatcher result" where
  "cleanupSocketNotifiers forceRemoveAll d = cleanup_loop forceRemoveAll (socketNotifiers d) d"

text \<open>The destructor.\<close>

definition destroy_dispatcher :: "dispatcher \<Rightarrow> dispatcher result" where
  "destroy_dispatcher d = rbind (cleanupSocketNotifiers True d) (\<lambda>d.
     if socketNotifiers d = [] then Inr d else Inl AssertFailed)"

section \<open>The timer of the loop\<close>

text \<open>\<open>nearest_timer\<close> wakes the loop for the nearest of Qt's timers. \<open>delay\<close> is what Qt's list of timers
  answers, if it has any. Cancelling ends the wait in progress with an error, later.\<close>

definition timerCancel :: "dispatcher \<Rightarrow> dispatcher" where
  "timerCancel d = (if timer_wait d = None then d else d\<lparr>timer_wait := None, timer_aborted := timer_aborted d + 1\<rparr>)"

definition timerStart :: "nat option \<Rightarrow> dispatcher \<Rightarrow> dispatcher" where
  "timerStart delay d = (case delay of None \<Rightarrow> d | Some tv \<Rightarrow> (timerCancel d)\<lparr>timer_wait := Some tv\<rparr>)"

definition timerTimeout :: "bool \<Rightarrow> dispatcher \<Rightarrow> dispatcher" where
  "timerTimeout error d = (if \<not> error then d\<lparr>timer_activations := timer_activations d + 1\<rparr> else d)"

section \<open>Events\<close>

text \<open>The application registers and unregisters; a wait ends, with or without an error;
  \<open>processEvents\<close> cleans up; and the timer expires or reports that it was cancelled.\<close>

datatype dispatch_event =
    DRegister nat int ntype
  | DUnregister nat int ntype
  | DReady nat ntype nat bool
  | DCleanup
  | DTimeout bool

fun dispatch_exec :: "dispatch_event \<Rightarrow> dispatcher \<Rightarrow> dispatcher result" where
  "dispatch_exec (DRegister n fd t) d = registerSocketNotifier n fd t True d"
| "dispatch_exec (DUnregister n fd t) d = unregisterSocketNotifier n fd t True d"
| "dispatch_exec (DReady i t r err) d =
     (if (i, t, r) \<in> set (wait_handlers d)
      then fdReady t i err r (d\<lparr>wait_handlers := remove1 (i, t, r) (wait_handlers d)\<rparr>)
      else Inr d)"
| "dispatch_exec DCleanup d = cleanupSocketNotifiers False d"
| "dispatch_exec (DTimeout err) d =
     (if err then
        if 0 < timer_aborted d then Inr (timerTimeout True (d\<lparr>timer_aborted := timer_aborted d - 1\<rparr>)) else Inr d
      else if timer_wait d \<noteq> None then Inr (timerTimeout False (d\<lparr>timer_wait := None\<rparr>)) else Inr d)"

abbreviation dispatch_run :: "dispatch_event list \<Rightarrow> dispatcher \<Rightarrow> dispatcher result" where
  "dispatch_run \<equiv> run_events dispatch_exec"

section \<open>The registry\<close>

text \<open>What the application sees: the notifier registered for a descriptor and a type.\<close>

definition registered :: "dispatcher \<Rightarrow> int \<Rightarrow> ntype \<Rightarrow> nat option" where
  "registered d fd t = (case find_fd fd (socketNotifiers d) d of
       None \<Rightarrow> None
     | Some i \<Rightarrow> (case sock_objs d i of None \<Rightarrow> None | Some sn \<Rightarrow> notif sn t))"

text \<open>The invariant: the list and the heap agree, with one object per descriptor; waits refer to
  live objects; the counter counts them; and every registered notifier has a current wait.\<close>

definition ids_ok :: "dispatcher \<Rightarrow> bool" where
  "ids_ok d \<longleftrightarrow> distinct (socketNotifiers d)
     \<and> (\<forall>i. i \<in> set (socketNotifiers d) \<longleftrightarrow> sock_objs d i \<noteq> None)
     \<and> (\<forall>i sn. sock_objs d i = Some sn \<longrightarrow> i < next_obj d \<and> notif sn Exception = None)
     \<and> (\<forall>i j sn sn'. sock_objs d i = Some sn \<longrightarrow> sock_objs d j = Some sn' \<longrightarrow> sn_fd sn = sn_fd sn' \<longrightarrow> i = j)"

definition handlers_ok :: "dispatcher \<Rightarrow> bool" where
  "handlers_ok d \<longleftrightarrow> (\<forall>i t r. (i, t, r) \<in> set (wait_handlers d) \<longrightarrow>
     (\<exists>sn. sock_objs d i = Some sn \<and> r \<le> revision sn t \<and> (r = revision sn t \<longrightarrow> notif sn t \<noteq> None)))"

definition pending_ok :: "dispatcher \<Rightarrow> bool" where
  "pending_ok d \<longleftrightarrow> (\<forall>i sn. sock_objs d i = Some sn \<longrightarrow> pending_operations sn = int (length (waits_of i (wait_handlers d))))"

definition armed_ok :: "dispatcher \<Rightarrow> bool" where
  "armed_ok d \<longleftrightarrow> (\<forall>i sn t. sock_objs d i = Some sn \<longrightarrow> notif sn t \<noteq> None \<longrightarrow> (i, t, revision sn t) \<in> set (wait_handlers d))"

text \<open>A cancelled wait is of an earlier registration.\<close>

definition cancelled_ok :: "dispatcher \<Rightarrow> bool" where
  "cancelled_ok d \<longleftrightarrow> (\<forall>i t r. (i, t, r) \<in> set (cancelled_waits d) \<longrightarrow> i < next_obj d
     \<and> (\<forall>sn. sock_objs d i = Some sn \<longrightarrow> r < revision sn t))"

definition disp_inv :: "dispatcher \<Rightarrow> bool" where
  "disp_inv d \<longleftrightarrow> ids_ok d \<and> handlers_ok d \<and> pending_ok d \<and> armed_ok d \<and> cancelled_ok d"

lemmas disp_inv_defs = disp_inv_def ids_ok_def handlers_ok_def pending_ok_def armed_ok_def cancelled_ok_def

lemma disp_inv_new [simp]: "disp_inv new_dispatcher"
  by (simp add: disp_inv_defs new_dispatcher_def)

lemma find_fd_Some: "find_fd fd is d = Some i \<Longrightarrow> i \<in> set is \<and> (\<exists>sn. sock_objs d i = Some sn \<and> sn_fd sn = fd)"
  by (induction "is") (auto split: if_splits option.splits)

lemma find_fd_None: "find_fd fd is d = None \<Longrightarrow> i \<in> set is \<Longrightarrow> sock_objs d i = Some sn \<Longrightarrow> sn_fd sn \<noteq> fd"
  by (induction "is") (auto split: if_splits option.splits)

lemma find_fd_obj:
  assumes "ids_ok d" "sock_objs d i = Some sn"
  shows "find_fd (sn_fd sn) (socketNotifiers d) d = Some i"
proof (cases "find_fd (sn_fd sn) (socketNotifiers d) d")
  case None
  have "i \<in> set (socketNotifiers d)" using assms by (simp add: ids_ok_def)
  from find_fd_None [OF None this assms(2)] show ?thesis by simp
next
  case (Some j)
  from find_fd_Some [OF this] assms show ?thesis using Some by (auto simp: ids_ok_def)
qed

lemma registered_obj:
  "ids_ok d \<Longrightarrow> sock_objs d i = Some sn \<Longrightarrow> registered d (sn_fd sn) t = notif sn t"
  by (simp add: registered_def find_fd_obj)

lemma registered_iff:
  assumes "ids_ok d"
  shows "registered d fd t = Some n \<longleftrightarrow> (\<exists>i sn. sock_objs d i = Some sn \<and> sn_fd sn = fd \<and> notif sn t = Some n)"
proof
  assume "registered d fd t = Some n"
  then obtain i sn where i: "find_fd fd (socketNotifiers d) d = Some i" "sock_objs d i = Some sn" "notif sn t = Some n"
    by (auto simp: registered_def split: option.splits)
  with find_fd_Some [OF i(1)] show "\<exists>i sn. sock_objs d i = Some sn \<and> sn_fd sn = fd \<and> notif sn t = Some n" by auto
next
  assume "\<exists>i sn. sock_objs d i = Some sn \<and> sn_fd sn = fd \<and> notif sn t = Some n"
  then show "registered d fd t = Some n" using registered_obj [OF assms] by fastforce
qed

lemma option_eqI: "(\<And>n. x = Some n \<longleftrightarrow> y = Some n) \<Longrightarrow> x = y"
  by (metis not_Some_eq)

section \<open>Usage\<close>

text \<open>How Qt uses the dispatcher: a notifier is registered for a free descriptor and type, and
  unregistered when it is registered; and waits end with an error only when they have been
  cancelled.\<close>

fun usage_ok :: "dispatch_event \<Rightarrow> dispatcher \<Rightarrow> bool" where
  "usage_ok (DRegister n fd t) d = (fd_in_range fd \<and> t \<noteq> Exception \<and> registered d fd t = None)"
| "usage_ok (DUnregister n fd t) d = (fd_in_range fd \<and> registered d fd t = Some n)"
| "usage_ok (DReady i t r err) d = (err \<longrightarrow> (i, t, r) \<in> set (cancelled_waits d))"
| "usage_ok DCleanup d = True"
| "usage_ok (DTimeout err) d = True"

text \<open>The registry after an event, and the notifiers that are sent an event.\<close>

fun registry_step :: "dispatch_event \<Rightarrow> (int \<Rightarrow> ntype \<Rightarrow> nat option) \<Rightarrow> int \<Rightarrow> ntype \<Rightarrow> nat option" where
  "registry_step (DRegister n fd t) r = r(fd := (r fd)(t := Some n))"
| "registry_step (DUnregister n fd t) r = r(fd := (r fd)(t := None))"
| "registry_step _ r = r"

fun notified :: "dispatch_event \<Rightarrow> dispatcher \<Rightarrow> nat list" where
  "notified (DReady i t r err) d =
     (case sock_objs d i of
        None \<Rightarrow> []
      | Some sn \<Rightarrow> if (i, t, r) \<in> set (wait_handlers d) \<and> revision sn t = r
                  then (case registered d (sn_fd sn) t of None \<Rightarrow> [] | Some n \<Rightarrow> [n]) else [])"
| "notified _ d = []"

section \<open>A wait ends\<close>

lemma waits_of_simps [simp]:
  "waits_of i [] = []" "waits_of i (hs @ hs') = waits_of i hs @ waits_of i hs'"
  "waits_of i (h # hs) = (if fst h = i then h # waits_of i hs else waits_of i hs)"
  by (simp_all add: waits_of_def)

lemma length_waits_remove:
  "h \<in> set hs \<Longrightarrow> int (length (waits_of i (remove1 h hs))) = int (length (waits_of i hs)) - (if fst h = i then 1 else 0)"
  by (induction hs) auto

lemma set_remove1_insert: "x \<in> set xs \<Longrightarrow> insert x (set (remove1 x xs)) = set xs"
  by (induction xs) auto

lemma in_remove1: "x \<in> set (remove1 y xs) \<Longrightarrow> x \<in> set xs"
  using set_remove1_subset [of y xs] by blast

lemma registered_view:
  assumes "ids_ok d" "ids_ok d'"
    and "\<And>i. map_option (\<lambda>sn. (sn_fd sn, notif sn)) (sock_objs d' i) = map_option (\<lambda>sn. (sn_fd sn, notif sn)) (sock_objs d i)"
  shows "registered d' = registered d"
proof (intro ext option_eqI)
  fix fd t n
  have "(\<exists>sn. sock_objs d' i = Some sn \<and> sn_fd sn = fd \<and> notif sn t = Some n)
      = (\<exists>sn. sock_objs d i = Some sn \<and> sn_fd sn = fd \<and> notif sn t = Some n)" for i
    using assms(3) [of i] by (cases "sock_objs d i"; cases "sock_objs d' i") auto
  then show "(registered d' fd t = Some n) = (registered d fd t = Some n)"
    using registered_iff [OF assms(1)] registered_iff [OF assms(2)] by simp
qed

lemma ready_current:
  assumes inv: "disp_inv d" and h: "(i, t, r) \<in> set (wait_handlers d)" and sn: "sock_objs d i = Some sn" "revision sn t = r"
  shows "\<exists>d' n. dispatch_exec (DReady i t r False) d = Inr d' \<and> disp_inv d' \<and> registered d' = registered d
     \<and> registered d (sn_fd sn) t = Some n \<and> events_sent d' = events_sent d @ [n] \<and> closed_fds d' = closed_fds d"
proof -
  obtain n where n: "notif sn t = Some n" using inv h sn by (fastforce simp: disp_inv_def handlers_ok_def)
  let ?hs = "remove1 (i, t, r) (wait_handlers d) @ [(i, t, r)]"
  let ?d = "d\<lparr>wait_handlers := ?hs, events_sent := events_sent d @ [n]\<rparr>"
  have same: "set ?hs = set (wait_handlers d)" using set_remove1_insert [OF h] by simp
  have len: "int (length (waits_of j ?hs)) = int (length (waits_of j (wait_handlers d)))" for j
    using length_waits_remove [OF h, of j] by simp
  have idem: "(sock_objs d)(i \<mapsto> sn) = sock_objs d" using sn by (simp add: fun_upd_idem)
  have "dispatch_exec (DReady i t r False) d = Inr ?d"
    using h sn n by (simp add: fdReady_def with_sn_def fdStart_def put_sn_def sendEvent_def Let_def idem)
  moreover have "disp_inv ?d" using inv same len
    by (simp add: disp_inv_defs del: set_append)
  moreover have "registered ?d = registered d"
    by (rule registered_view) (use inv \<open>disp_inv ?d\<close> in \<open>simp_all add: disp_inv_def\<close>)
  moreover have "registered d (sn_fd sn) t = Some n"
    using registered_obj [of d i sn t] inv sn n by (simp add: disp_inv_def)
  ultimately show ?thesis by (intro exI [of _ ?d] exI [of _ n]) simp
qed

lemma ready_stale:
  assumes inv: "disp_inv d" and h: "(i, t, r) \<in> set (wait_handlers d)" and sn: "sock_objs d i = Some sn" "revision sn t \<noteq> r"
  shows "\<exists>d'. dispatch_exec (DReady i t r err) d = Inr d' \<and> disp_inv d' \<and> registered d' = registered d
     \<and> events_sent d' = events_sent d \<and> closed_fds d' = closed_fds d"
proof -
  let ?hs = "remove1 (i, t, r) (wait_handlers d)"
  let ?sn = "sn\<lparr>pending_operations := pending_operations sn - 1\<rparr>"
  let ?d = "d\<lparr>wait_handlers := ?hs, sock_objs := (sock_objs d)(i \<mapsto> ?sn)\<rparr>"
  have "dispatch_exec (DReady i t r err) d = Inr ?d"
    using h sn by (simp add: fdReady_def with_sn_def put_sn_def Let_def)
  moreover have inv': "disp_inv ?d"
    unfolding disp_inv_def
  proof (intro conjI)
    show "ids_ok ?d" using inv sn by (auto simp: disp_inv_def ids_ok_def)
    show "handlers_ok ?d"
      unfolding handlers_ok_def
    proof (intro allI impI)
      fix j u q assume "(j, u, q) \<in> set (wait_handlers ?d)"
      then have "(j, u, q) \<in> set (wait_handlers d)" by (auto dest: in_remove1)
      then obtain sj where sj: "sock_objs d j = Some sj" "q \<le> revision sj u" "q = revision sj u \<longrightarrow> notif sj u \<noteq> None"
        using inv unfolding disp_inv_def handlers_ok_def by blast
      then show "\<exists>x. sock_objs ?d j = Some x \<and> q \<le> revision x u \<and> (q = revision x u \<longrightarrow> notif x u \<noteq> None)"
        using sn by (cases "j = i") auto
    qed
    show "pending_ok ?d" using inv sn length_waits_remove [OF h]
      by (auto simp: disp_inv_def pending_ok_def)
    show "armed_ok ?d" using inv sn by (auto simp: disp_inv_def armed_ok_def)
    show "cancelled_ok ?d" using inv sn by (auto simp: disp_inv_def cancelled_ok_def)
  qed
  moreover have "registered ?d = registered d"
    by (rule registered_view) (use inv inv' sn in \<open>simp_all add: disp_inv_def\<close>)
  ultimately show ?thesis by (intro exI [of _ ?d]) simp
qed

section \<open>Registering\<close>

text \<open>Changing one object changes the view of its descriptor only.\<close>

lemma registered_upd:
  assumes "ids_ok d" "ids_ok d'" "sock_objs d' = (sock_objs d)(i \<mapsto> sn)"
    and "\<And>s. sock_objs d i = Some s \<Longrightarrow> sn_fd s = sn_fd sn"
  shows "registered d' = (registered d)(sn_fd sn := notif sn)"
proof
  fix fd
  show "registered d' fd = ((registered d)(sn_fd sn := notif sn)) fd"
  proof (cases "fd = sn_fd sn")
    case True
    then show ?thesis using registered_obj [OF assms(2), of i sn] assms(3) by (simp add: fun_eq_iff)
  next
    case False
    have "(\<exists>s. sock_objs d' j = Some s \<and> sn_fd s = fd \<and> P s) = (\<exists>s. sock_objs d j = Some s \<and> sn_fd s = fd \<and> P s)" for j P
      using False assms(3,4) by (cases "j = i") auto
    then have "registered d' fd t = registered d fd t" for t
      by (intro option_eqI) (simp only: registered_iff [OF assms(1)] registered_iff [OF assms(2)])
    then show ?thesis using False by (simp add: fun_eq_iff)
  qed
qed

text \<open>The object for a descriptor, created if need be, keeps the invariant and the view.\<close>

lemma object_for_fd:
  assumes inv: "disp_inv d"
  shows "\<exists>i d' sn. socketNotifierForFd fd True d = (Some i, d') \<and> disp_inv d' \<and> sock_objs d' i = Some sn \<and> sn_fd sn = fd
     \<and> registered d' = registered d \<and> events_sent d' = events_sent d \<and> closed_fds d' = closed_fds d"
proof (cases "find_fd fd (socketNotifiers d) d")
  case (Some i)
  from find_fd_Some [OF this] show ?thesis using Some inv by (auto simp: socketNotifierForFd_def)
next
  case None
  let ?i = "next_obj d"
  let ?d = "d\<lparr>sock_objs := (sock_objs d)(?i \<mapsto> new_sock_notifier fd), next_obj := Suc ?i,
               socketNotifiers := socketNotifiers d @ [?i]\<rparr>"
  have fresh: "sock_objs d ?i = None" "?i \<notin> set (socketNotifiers d)"
    using inv by (fastforce simp: disp_inv_def ids_ok_def)+
  have nofd: "sn_fd sn \<noteq> fd" if "sock_objs d j = Some sn" for j sn
  proof -
    have "j \<in> set (socketNotifiers d)" using inv that by (simp add: disp_inv_def ids_ok_def)
    from find_fd_None [OF None this that] show ?thesis .
  qed
  have nowait: "h \<in> set (wait_handlers d) \<Longrightarrow> fst h \<noteq> ?i" for h
    using inv fresh(1) by (cases h) (fastforce simp: disp_inv_def handlers_ok_def)
  have ids: "ids_ok ?d" using inv fresh nofd
    by (auto simp: disp_inv_def ids_ok_def new_sock_notifier_def less_Suc_eq split: if_splits)
  have handlers: "handlers_ok ?d"
    unfolding handlers_ok_def
  proof (intro allI impI)
    fix j t r assume "(j, t, r) \<in> set (wait_handlers ?d)"
    then have j: "(j, t, r) \<in> set (wait_handlers d)" by simp
    then obtain sn where "sock_objs d j = Some sn" "r \<le> revision sn t" "r = revision sn t \<longrightarrow> notif sn t \<noteq> None"
      using inv unfolding disp_inv_def handlers_ok_def by blast
    then show "\<exists>sn. sock_objs ?d j = Some sn \<and> r \<le> revision sn t \<and> (r = revision sn t \<longrightarrow> notif sn t \<noteq> None)"
      using nowait [OF j] by simp
  qed
  have "waits_of ?i (wait_handlers d) = []" using nowait by (auto simp: waits_of_def)
  then have "pending_ok ?d" using inv by (auto simp: disp_inv_def pending_ok_def new_sock_notifier_def)
  moreover have "armed_ok ?d" using inv by (auto simp: disp_inv_def armed_ok_def new_sock_notifier_def)
  moreover have "cancelled_ok ?d" using inv by (fastforce simp: disp_inv_def cancelled_ok_def)
  ultimately have inv': "disp_inv ?d" using ids handlers by (simp add: disp_inv_def)
  have "find_fd fd (socketNotifiers d) d = None \<Longrightarrow> registered d fd = (\<lambda>_. None)"
    by (simp add: registered_def fun_eq_iff)
  moreover have "registered ?d = (registered d)(fd := (\<lambda>_. None))"
    using registered_upd [of d ?d ?i "new_sock_notifier fd"] inv ids fresh(1)
    by (simp add: disp_inv_def) (simp add: new_sock_notifier_def)
  ultimately have "registered ?d = registered d" using None by (metis fun_upd_triv)
  then show ?thesis using None inv'
    by (simp add: socketNotifierForFd_def Let_def) (simp add: new_sock_notifier_def)
qed

lemma waits_of_snoc: "length (waits_of j (hs @ [(i, t, r)])) = length (waits_of j hs) + (if i = j then 1 else 0)"
  by simp

lemma register_ok:
  assumes inv: "disp_inv d" and use_ok: "usage_ok (DRegister n fd t) d"
  shows "\<exists>d'. dispatch_exec (DRegister n fd t) d = Inr d' \<and> disp_inv d'
     \<and> registered d' = registry_step (DRegister n fd t) (registered d)
     \<and> events_sent d' = events_sent d \<and> closed_fds d' = closed_fds d"
proof -
  have u: "fd_in_range fd" "t \<noteq> Exception" "registered d fd t = None" using use_ok by simp_all
  from object_for_fd [OF inv, of fd] obtain i d1 sn where d1: "socketNotifierForFd fd True d = (Some i, d1)" "disp_inv d1"
    "sock_objs d1 i = Some sn" "sn_fd sn = fd" "registered d1 = registered d" "events_sent d1 = events_sent d"
    "closed_fds d1 = closed_fds d" by blast
  have free: "notif sn t = None" using registered_obj [of d1 i sn t] d1 u(3) by (simp add: disp_inv_def)
  let ?r = "Suc (revision sn t)"
  let ?sn = "sn\<lparr>notif := (notif sn)(t := Some n), revision := (revision sn)(t := ?r),
                pending_operations := pending_operations sn + 1\<rparr>"
  let ?d = "d1\<lparr>sock_objs := (sock_objs d1)(i \<mapsto> ?sn), wait_handlers := wait_handlers d1 @ [(i, t, ?r)]\<rparr>"
  have "dispatch_exec (DRegister n fd t) d = Inr ?d"
    using u d1(1,3) free by (cases t) (simp_all add: registerSocketNotifier_def with_sn_def put_sn_def fdStart_def Let_def)
  moreover have ids: "ids_ok ?d"
    using d1(2,3) u(2) by (auto simp: disp_inv_def ids_ok_def split: if_splits)
  moreover have "handlers_ok ?d"
    unfolding handlers_ok_def
  proof (intro allI impI)
    fix j v q assume "(j, v, q) \<in> set (wait_handlers ?d)"
    then consider "j = i" "v = t" "q = ?r" | "(j, v, q) \<in> set (wait_handlers d1)" by auto
    then show "\<exists>s. sock_objs ?d j = Some s \<and> q \<le> revision s v \<and> (q = revision s v \<longrightarrow> notif s v \<noteq> None)"
    proof cases
      case 2
      then obtain s where "sock_objs d1 j = Some s" "q \<le> revision s v" "q = revision s v \<longrightarrow> notif s v \<noteq> None"
        using d1(2) unfolding disp_inv_def handlers_ok_def by blast
      then show ?thesis using d1(3) by (cases "j = i") auto
    qed simp
  qed
  moreover have "pending_ok ?d" using d1(2,3) by (auto simp: disp_inv_def pending_ok_def waits_of_snoc simp del: waits_of_simps)
  moreover have "armed_ok ?d" using d1(2,3) by (auto simp: disp_inv_def armed_ok_def)
  moreover have "cancelled_ok ?d" using d1(2,3) by (fastforce simp: disp_inv_def cancelled_ok_def)
  moreover have "registered ?d = (registered d1)(fd := (notif sn)(t := Some n))"
    using registered_upd [of d1 ?d i ?sn] ids d1(2,3,4) by (simp add: disp_inv_def)
  moreover have "notif sn = registered d fd"
    using registered_obj [of d1 i sn] d1(2-5) by (simp add: disp_inv_def fun_eq_iff)
  ultimately show ?thesis using d1(5,6,7) by (intro exI [of _ ?d]) (simp add: disp_inv_def)
qed

lemma unregister_ok:
  assumes inv: "disp_inv d" and use_ok: "usage_ok (DUnregister n fd t) d"
  shows "\<exists>d'. dispatch_exec (DUnregister n fd t) d = Inr d' \<and> disp_inv d'
     \<and> registered d' = registry_step (DUnregister n fd t) (registered d)
     \<and> events_sent d' = events_sent d \<and> closed_fds d' = closed_fds d"
proof -
  have u: "fd_in_range fd" "registered d fd t = Some n" using use_ok by simp_all
  have ids0: "ids_ok d" using inv by (simp add: disp_inv_def)
  from u(2) registered_iff [OF ids0] obtain i sn
    where sn: "sock_objs d i = Some sn" "sn_fd sn = fd" "notif sn t = Some n" by blast
  have find: "find_fd fd (socketNotifiers d) d = Some i" using find_fd_obj [OF ids0 sn(1)] sn(2) by simp
  let ?sn = "sn\<lparr>notif := (notif sn)(t := None), revision := (revision sn)(t := Suc (revision sn t))\<rparr>"
  let ?cs = "cancelled_waits d @ (if no_notif ?sn then waits_of i (wait_handlers d) else [])"
  let ?d = "d\<lparr>sock_objs := (sock_objs d)(i \<mapsto> ?sn), cancelled_waits := ?cs\<rparr>"
  have "dispatch_exec (DUnregister n fd t) d = Inr ?d"
    using u find sn by (simp add: unregisterSocketNotifier_def socketNotifierForFd_def with_sn_def put_sn_def sd_cancel_def Let_def)
  moreover have ids: "ids_ok ?d" using ids0 sn by (auto simp: ids_ok_def split: if_splits)
  moreover have "handlers_ok ?d"
    unfolding handlers_ok_def
  proof (intro allI impI)
    fix j v q assume "(j, v, q) \<in> set (wait_handlers ?d)"
    then obtain s where "sock_objs d j = Some s" "q \<le> revision s v" "q = revision s v \<longrightarrow> notif s v \<noteq> None"
      using inv by (force simp: disp_inv_def handlers_ok_def)
    then show "\<exists>s. sock_objs ?d j = Some s \<and> q \<le> revision s v \<and> (q = revision s v \<longrightarrow> notif s v \<noteq> None)"
      using sn(1) by (cases "j = i") auto
  qed
  moreover have "pending_ok ?d" using inv sn(1) by (auto simp: disp_inv_def pending_ok_def)
  moreover have "armed_ok ?d" using inv sn(1) by (auto simp: disp_inv_def armed_ok_def)
  moreover have "cancelled_ok ?d"
    unfolding cancelled_ok_def
  proof (intro allI impI)
    fix j v q assume "(j, v, q) \<in> set (cancelled_waits ?d)"
    then consider "(j, v, q) \<in> set (cancelled_waits d)" | "no_notif ?sn" "j = i" "(i, v, q) \<in> set (wait_handlers d)"
      by (auto simp: waits_of_def split: if_splits)
    then show "j < next_obj ?d \<and> (\<forall>s. sock_objs ?d j = Some s \<longrightarrow> q < revision s v)"
    proof cases
      case 1
      then have "j < next_obj d" "\<And>s. sock_objs d j = Some s \<Longrightarrow> q < revision s v"
        using inv unfolding disp_inv_def cancelled_ok_def by blast+
      then show ?thesis using sn(1) by (cases "j = i") (auto intro: less_SucI)
    next
      case 2
      then have "q \<le> revision sn v" "q = revision sn v \<longrightarrow> notif sn v \<noteq> None"
        using inv sn(1) by (fastforce simp: disp_inv_def handlers_ok_def)+
      moreover have "v \<noteq> t \<Longrightarrow> notif sn v = None" using 2(1) by (cases v) (auto simp: no_notif_def split: if_splits)
      ultimately show ?thesis using 2(2) ids0 sn(1) by (auto simp: ids_ok_def le_neq_trans)
    qed
  qed
  moreover have "registered ?d = (registered d)(fd := (notif sn)(t := None))"
    using registered_upd [of d ?d i ?sn] ids ids0 sn by simp
  moreover have "notif sn = registered d fd"
    using registered_obj [of d i sn] ids0 sn by (simp add: fun_eq_iff)
  ultimately show ?thesis by (intro exI [of _ ?d]) (simp add: disp_inv_def)
qed

section \<open>Cleaning up\<close>

definition drop_sn :: "nat \<Rightarrow> int \<Rightarrow> dispatcher \<Rightarrow> dispatcher" where
  "drop_sn i fd d = d\<lparr>socketNotifiers := removeAll i (socketNotifiers d), sock_objs := (sock_objs d)(i := None),
     closed_fds := closed_fds d @ [fd]\<rparr>"

lemma drop_sn_simps [simp]:
  "events_sent (drop_sn i fd d) = events_sent d" "closed_fds (drop_sn i fd d) = closed_fds d @ [fd]"
  "socketNotifiers (drop_sn i fd d) = removeAll i (socketNotifiers d)"
  "sock_objs (drop_sn i fd d) = (sock_objs d)(i := None)" "wait_handlers (drop_sn i fd d) = wait_handlers d"
  "next_obj (drop_sn i fd d) = next_obj d" "cancelled_waits (drop_sn i fd d) = cancelled_waits d"
  by (simp_all add: drop_sn_def)

text \<open>An object without waits has no notifier, and can go.\<close>

lemma drop_idle:
  assumes inv: "disp_inv d" and sn: "sock_objs d i = Some sn" "pending_operations sn = 0"
  shows "no_notif sn \<and> disp_inv (drop_sn i (sn_fd sn) d) \<and> registered (drop_sn i (sn_fd sn) d) = registered d"
proof -
  have "int (length (waits_of i (wait_handlers d))) = 0" using inv sn by (simp add: disp_inv_def pending_ok_def)
  then have none: "(i, t, r) \<notin> set (wait_handlers d)" for t r by (auto simp: waits_of_def filter_empty_conv)
  then have idle: "notif sn t = None" for t using inv sn(1) by (fastforce simp: disp_inv_def armed_ok_def)
  have ids: "ids_ok (drop_sn i (sn_fd sn) d)" using inv by (auto simp: disp_inv_def ids_ok_def distinct_removeAll)
  have "handlers_ok (drop_sn i (sn_fd sn) d)"
    unfolding handlers_ok_def
  proof (intro allI impI)
    fix j v q assume "(j, v, q) \<in> set (wait_handlers (drop_sn i (sn_fd sn) d))"
    then have "(j, v, q) \<in> set (wait_handlers d)" by simp
    moreover from this have "j \<noteq> i" using none by blast
    ultimately show "\<exists>s. sock_objs (drop_sn i (sn_fd sn) d) j = Some s \<and> q \<le> revision s v
        \<and> (q = revision s v \<longrightarrow> notif s v \<noteq> None)"
      using inv unfolding disp_inv_def handlers_ok_def by simp
  qed
  moreover have "pending_ok (drop_sn i (sn_fd sn) d)" "armed_ok (drop_sn i (sn_fd sn) d)" "cancelled_ok (drop_sn i (sn_fd sn) d)"
    using inv by (auto simp: disp_inv_def pending_ok_def armed_ok_def cancelled_ok_def)
  moreover have "registered (drop_sn i (sn_fd sn) d) = registered d"
  proof (intro ext option_eqI)
    fix fd t n
    have "(\<exists>s. sock_objs (drop_sn i (sn_fd sn) d) j = Some s \<and> sn_fd s = fd \<and> notif s t = Some n)
        = (\<exists>s. sock_objs d j = Some s \<and> sn_fd s = fd \<and> notif s t = Some n)" for j
      using sn(1) idle by (cases "j = i") auto
    then show "(registered (drop_sn i (sn_fd sn) d) fd t = Some n) = (registered d fd t = Some n)"
      using registered_iff [OF ids] registered_iff [of d] inv by (simp only: disp_inv_def)
  qed
  ultimately show ?thesis using ids idle by (simp add: disp_inv_def no_notif_def)
qed

lemma cleanup_ok:
  assumes "disp_inv d" "distinct is" "set is \<subseteq> set (socketNotifiers d)"
  shows "\<exists>d'. cleanup_loop False is d = Inr d' \<and> disp_inv d' \<and> registered d' = registered d
     \<and> events_sent d' = events_sent d"
  using assms
proof (induction "is" arbitrary: d)
  case (Cons i "is")
  then obtain sn where sn: "sock_objs d i = Some sn" by (auto simp: disp_inv_def ids_ok_def)
  show ?case
  proof (cases "pending_operations sn = 0")
    case True
    note di = drop_idle [OF Cons.prems(1) sn True]
    have "set is \<subseteq> set (socketNotifiers (drop_sn i (sn_fd sn) d))" using Cons.prems(2,3) by auto
    with Cons.IH [of "drop_sn i (sn_fd sn) d"] di Cons.prems(2)
    show ?thesis using sn True by (simp add: with_sn_def drop_sn_def)
  next
    case False
    then show ?thesis using Cons.IH [of d] Cons.prems sn by (simp add: with_sn_def)
  qed
qed simp

text \<open>The timer and the interrupt flag do not touch the socket notifiers.\<close>

lemma find_fd_frame [simp]:
  "find_fd fd is (d\<lparr>timer_wait := w\<rparr>) = find_fd fd is d" "find_fd fd is (d\<lparr>timer_aborted := a\<rparr>) = find_fd fd is d"
  "find_fd fd is (d\<lparr>timer_activations := a\<rparr>) = find_fd fd is d" "find_fd fd is (d\<lparr>interrupted := b\<rparr>) = find_fd fd is d"
  by (induction "is") simp_all

lemma registered_frame [simp]:
  "registered (d\<lparr>timer_wait := w\<rparr>) = registered d" "registered (d\<lparr>timer_aborted := a\<rparr>) = registered d"
  "registered (d\<lparr>timer_activations := a\<rparr>) = registered d" "registered (d\<lparr>interrupted := b\<rparr>) = registered d"
  by (simp_all add: registered_def fun_eq_iff cong: option.case_cong)

lemma disp_inv_frame [simp]:
  "disp_inv (d\<lparr>timer_wait := w\<rparr>) = disp_inv d" "disp_inv (d\<lparr>timer_aborted := a\<rparr>) = disp_inv d"
  "disp_inv (d\<lparr>timer_activations := a\<rparr>) = disp_inv d" "disp_inv (d\<lparr>interrupted := b\<rparr>) = disp_inv d"
  by (simp_all add: disp_inv_defs)

lemma dispatch_exec_ok:
  assumes inv: "disp_inv d" and use_ok: "usage_ok e d"
  shows "\<exists>d'. dispatch_exec e d = Inr d' \<and> disp_inv d' \<and> registered d' = registry_step e (registered d)
     \<and> events_sent d' = events_sent d @ notified e d"
proof (cases e)
  case (DRegister n fd t)
  with register_ok [OF inv, of n fd t] use_ok show ?thesis by auto
next
  case (DUnregister n fd t)
  with unregister_ok [OF inv, of n fd t] use_ok show ?thesis by auto
next
  case (DTimeout err)
  then show ?thesis using inv by (auto simp: timerTimeout_def)
next
  case DCleanup
  have "distinct (socketNotifiers d)" using inv by (simp add: disp_inv_def ids_ok_def)
  from cleanup_ok [OF inv this] DCleanup show ?thesis by (simp add: cleanupSocketNotifiers_def)
next
  case (DReady i t r err)
  show ?thesis
  proof (cases "(i, t, r) \<in> set (wait_handlers d)")
    case False
    then show ?thesis using DReady inv by (simp split: option.split)
  next
    case h: True
    then obtain sn where sn: "sock_objs d i = Some sn" using inv by (fastforce simp: disp_inv_def handlers_ok_def)
    show ?thesis
    proof (cases "revision sn t = r")
      case True
      moreover have "err \<longrightarrow> r < revision sn t"
        using use_ok DReady sn inv unfolding disp_inv_def cancelled_ok_def by auto
      ultimately have "\<not> err" by auto
      with ready_current [OF inv h sn True] DReady sn h True show ?thesis by auto
    next
      case False
      with ready_stale [OF inv h sn False, of err] DReady sn show ?thesis by auto
    qed
  qed
qed

fun usage_all :: "dispatch_event list \<Rightarrow> dispatcher \<Rightarrow> bool" where
  "usage_all [] d = True"
| "usage_all (e # es) d = (usage_ok e d \<and> (case dispatch_exec e d of Inl _ \<Rightarrow> True | Inr d' \<Rightarrow> usage_all es d'))"

lemma dispatch_run_ok:
  "disp_inv d \<Longrightarrow> usage_all es d \<Longrightarrow>
   \<exists>d'. dispatch_run es d = Inr d' \<and> disp_inv d' \<and> registered d' = fold registry_step es (registered d)"
proof (induction es arbitrary: d)
  case (Cons e es)
  from dispatch_exec_ok [OF Cons.prems(1), of e] Cons.prems(2) obtain d1
    where d1: "dispatch_exec e d = Inr d1" "disp_inv d1" "registered d1 = registry_step e (registered d)" by auto
  with Cons.IH [OF d1(2)] Cons.prems(2) show ?case by simp
qed simp

section \<open>Properties\<close>





text \<open>The dispatcher closes descriptors it does not own. After a notifier has been unregistered
  and its cancelled wait has ended, the next clean-up deletes the stream descriptor made for it,
  which closes the application's file descriptor.\<close>

lemma cleanup_closes_foreign_descriptor:
  assumes "fd_in_range fd"
  shows "\<exists>d. dispatch_run [DRegister n fd Read, DUnregister n fd Read, DReady 0 Read 1 True, DCleanup] new_dispatcher = Inr d
     \<and> closed_fds d = [fd]"
  using assms
  by (simp add: new_dispatcher_def registerSocketNotifier_def unregisterSocketNotifier_def socketNotifierForFd_def
      with_sn_def put_sn_def fdStart_def fdReady_def new_sock_notifier_def cleanupSocketNotifiers_def no_notif_def sd_cancel_def Let_def)

text \<open>An error on a descriptor breaks the dispatcher. A wait that ends with an error while its
  notifier is still registered is not started again, so the notifier gets no more events, and
  the next clean-up finds an object without waits that still has a notifier and fails its
  assertion.\<close>

lemma error_breaks_cleanup:
  assumes "fd_in_range fd"
  shows "dispatch_run [DRegister n fd Read, DReady 0 Read 1 True, DCleanup] new_dispatcher = Inl AssertFailed"
  using assms
  by (simp add: new_dispatcher_def registerSocketNotifier_def socketNotifierForFd_def
      with_sn_def put_sn_def fdStart_def fdReady_def new_sock_notifier_def cleanupSocketNotifiers_def no_notif_def sd_cancel_def Let_def)

end
