(* ===== verification/AsioEventLoop.thy ===== *)
theory AsioEventLoop
  imports AsioDispatcher
begin

text \<open>
  \<open>src/src/qasioeventdispatcher.cpp\<close>, the event loop: \<open>processEvents\<close>, which runs the handlers of the
  dispatcher's socket notifiers and of its timer on the Asio context, \<open>wakeUp\<close> and \<open>interrupt\<close>, and the
  calls about timers. Qt's own list of timers is a parameter.
\<close>

section \<open>Processing events\<close>

fun is_handler_event :: "dispatch_event \<Rightarrow> bool" where
  "is_handler_event (DReady _ _ _ _) = True"
| "is_handler_event (DTimeout _) = True"
| "is_handler_event _ = False"

text \<open>The number of handlers run, which is what \<open>run_one\<close> and \<open>poll\<close> return.\<close>

definition handlers_run :: "dispatch_event list \<Rightarrow> nat" where
  "handlers_run es = length (filter is_handler_event es)"

text \<open>The dispatcher with the context it runs on. A context that has been stopped runs nothing until it
  is reset.\<close>

record event_loop =
  loop_dispatcher :: dispatcher
  context_stopped :: bool

definition wakeUp :: "event_loop \<Rightarrow> event_loop" where
  "wakeUp l = l\<lparr>context_stopped := True\<rparr>"

definition interrupt_loop :: "event_loop \<Rightarrow> event_loop" where
  "interrupt_loop l = wakeUp (l\<lparr>loop_dispatcher := (loop_dispatcher l)\<lparr>interrupted := True\<rparr>\<rparr>)"

definition reset_context :: "event_loop \<Rightarrow> event_loop" where
  "reset_context l = l\<lparr>context_stopped := False\<rparr>"

definition hasPendingEvents :: "nat \<Rightarrow> nat \<Rightarrow> bool" where
  "hasPendingEvents posted window_events \<longleftrightarrow> posted \<noteq> 0 \<or> window_events \<noteq> 0"

text \<open>\<open>run_one\<close> runs one handler, \<open>first\<close>, with the calls the application makes from it. When there is
  none it blocks, unless \<open>wakeUp\<close> is called while it waits (\<open>woken\<close>).\<close>

definition run_one :: "dispatch_event list \<Rightarrow> bool \<Rightarrow> event_loop \<Rightarrow> (nat \<times> event_loop) result" where
  "run_one first woken l =
     (if context_stopped l then Inr (0, l)
      else if handlers_run first = 0 then (if woken then Inr (0, wakeUp l) else Inl Blocked)
      else rbind (dispatch_run first (loop_dispatcher l)) (\<lambda>d. Inr (handlers_run first, l\<lparr>loop_dispatcher := d\<rparr>)))"

text \<open>One turn of the loop of polls: what Qt's timers answer, what the handlers do, and whether
  window system events were sent. The loop goes on as long as handlers ran; when the turns given
  run out it has not returned.\<close>

record poll_turn =
  turn_timer :: "nat option"
  turn_events :: "dispatch_event list"
  turn_windows :: bool

fun poll_loop :: "bool \<Rightarrow> poll_turn list \<Rightarrow> nat \<Rightarrow> event_loop \<Rightarrow> (nat \<times> event_loop) result" where
  "poll_loop exclude_timers [] n l = Inl Blocked"
| "poll_loop exclude_timers (turn # turns) n l =
     (let l = (if exclude_timers then l else l\<lparr>loop_dispatcher := timerStart (turn_timer turn) (loop_dispatcher l)\<rparr>);
          l = reset_context l
      in rbind (dispatch_run (turn_events turn) (loop_dispatcher l)) (\<lambda>d.
           let l = l\<lparr>loop_dispatcher := d\<rparr>;
               events = handlers_run (turn_events turn);
               total_events = n + events + (if turn_windows turn then 1 else 0)
           in if events > 0 then poll_loop exclude_timers turns total_events l else Inr (total_events, l)))"

text \<open>\<open>interrupting\<close>: \<open>interrupt\<close> is called while the posted events are sent.\<close>

definition processEvents ::
  "bool \<Rightarrow> bool \<Rightarrow> bool \<Rightarrow> nat option \<Rightarrow> dispatch_event list \<Rightarrow> bool \<Rightarrow> poll_turn list \<Rightarrow> event_loop
   \<Rightarrow> (bool \<times> event_loop) result" where
  "processEvents WaitForMoreEvents exclude_timers interrupting delay first woken turns l =
     (let l = l\<lparr>loop_dispatcher := (loop_dispatcher l)\<lparr>interrupted := False\<rparr>\<rparr>;
          l = (if interrupting then interrupt_loop l else l);
          canWait = (\<not> interrupted (loop_dispatcher l) \<and> WaitForMoreEvents)
      in if interrupted (loop_dispatcher l) then Inr (False, l)
         else let l = (if exclude_timers then l else l\<lparr>loop_dispatcher := timerStart delay (loop_dispatcher l)\<rparr>)
         in rbind (if canWait then run_one first woken (reset_context l) else Inr (0, l))
           (\<lambda>(n, l). rbind (poll_loop exclude_timers turns n l) (\<lambda>(n, l).
              rbind (cleanupSocketNotifiers False (loop_dispatcher l)) (\<lambda>d. Inr (0 < n, l\<lparr>loop_dispatcher := d\<rparr>)))))"

section \<open>Timers\<close>

text \<open>Qt's list of timers, of which only the operations called are known.\<close>

record ('timers, 'obj) timer_list_ops =
  tl_register :: "int \<Rightarrow> int \<Rightarrow> 'obj \<Rightarrow> 'timers \<Rightarrow> 'timers"
  tl_unregister :: "int \<Rightarrow> 'timers \<Rightarrow> bool \<times> 'timers"
  tl_unregister_all :: "'obj \<Rightarrow> 'timers \<Rightarrow> bool \<times> 'timers"
  tl_registered :: "'obj \<Rightarrow> 'timers \<Rightarrow> (int \<times> int) list"
  tl_remaining :: "int \<Rightarrow> 'timers \<Rightarrow> int"

definition registerTimer ::
  "('timers, 'obj) timer_list_ops \<Rightarrow> int \<Rightarrow> int \<Rightarrow> 'obj option \<Rightarrow> bool \<Rightarrow> 'timers \<Rightarrow> 'timers" where
  "registerTimer ops timerId interval obj same_thread timers =
     (case obj of None \<Rightarrow> timers
      | Some ob \<Rightarrow> if timerId < 1 \<or> interval < 0 then timers
                  else if \<not> same_thread then timers else tl_register ops timerId interval ob timers)"

definition unregisterTimer :: "('timers, 'obj) timer_list_ops \<Rightarrow> int \<Rightarrow> bool \<Rightarrow> 'timers \<Rightarrow> bool \<times> 'timers" where
  "unregisterTimer ops timerId same_thread timers =
     (if timerId < 1 then (False, timers) else if \<not> same_thread then (False, timers) else tl_unregister ops timerId timers)"

definition unregisterTimers :: "('timers, 'obj) timer_list_ops \<Rightarrow> 'obj option \<Rightarrow> bool \<Rightarrow> 'timers \<Rightarrow> bool \<times> 'timers" where
  "unregisterTimers ops obj same_thread timers =
     (case obj of None \<Rightarrow> (False, timers)
      | Some ob \<Rightarrow> if \<not> same_thread then (False, timers) else tl_unregister_all ops ob timers)"

definition registeredTimers :: "('timers, 'obj) timer_list_ops \<Rightarrow> 'obj option \<Rightarrow> 'timers \<Rightarrow> (int \<times> int) list" where
  "registeredTimers ops obj timers = (case obj of None \<Rightarrow> [] | Some ob \<Rightarrow> tl_registered ops ob timers)"

definition remainingTime :: "('timers, 'obj) timer_list_ops \<Rightarrow> int \<Rightarrow> 'timers \<Rightarrow> int" where
  "remainingTime ops timerId timers = (if timerId < 1 then - 1 else tl_remaining ops timerId timers)"


section \<open>A call of processEvents\<close>

text \<open>The loop of polls as it can be observed: handlers run in every turn but the last.\<close>

fun complete_turns :: "poll_turn list \<Rightarrow> bool" where
  "complete_turns [] = False"
| "complete_turns [turn] = (handlers_run (turn_events turn) = 0)"
| "complete_turns (turn # turns) = (0 < handlers_run (turn_events turn) \<and> complete_turns turns)"

fun turns_usage :: "bool \<Rightarrow> poll_turn list \<Rightarrow> dispatcher \<Rightarrow> bool" where
  "turns_usage ex [] d = True"
| "turns_usage ex (turn # turns) d =
     (let d = (if ex then d else timerStart (turn_timer turn) d)
      in usage_all (turn_events turn) d
         \<and> (case dispatch_run (turn_events turn) d of Inl _ \<Rightarrow> True | Inr d' \<Rightarrow> turns_usage ex turns d'))"

definition handled :: "poll_turn list \<Rightarrow> nat" where
  "handled turns = sum_list (map (\<lambda>turn. handlers_run (turn_events turn) + (if turn_windows turn then 1 else 0)) turns)"

lemma timerStart_inv [simp]:
  "disp_inv (timerStart delay d) = disp_inv d" "registered (timerStart delay d) = registered d"
  by (auto simp: timerStart_def timerCancel_def split: option.split)

lemma poll_loop_ok:
  "disp_inv (loop_dispatcher l) \<Longrightarrow> complete_turns turns \<Longrightarrow> turns_usage ex turns (loop_dispatcher l) \<Longrightarrow>
   \<exists>l'. poll_loop ex turns n l = Inr (n + handled turns, l') \<and> disp_inv (loop_dispatcher l')
     \<and> registered (loop_dispatcher l') = fold registry_step (concat (map turn_events turns)) (registered (loop_dispatcher l))"
proof (induction turns arbitrary: n l)
  case (Cons turn turns)
  let ?d = "if ex then loop_dispatcher l else timerStart (turn_timer turn) (loop_dispatcher l)"
  have inv: "disp_inv ?d" and reg: "registered ?d = registered (loop_dispatcher l)" using Cons.prems(1) by simp_all
  have use_ok: "usage_all (turn_events turn) ?d" using Cons.prems(3) by (simp add: Let_def)
  from dispatch_run_ok [OF inv use_ok] obtain d1
    where d1: "dispatch_run (turn_events turn) ?d = Inr d1" "disp_inv d1"
      "registered d1 = fold registry_step (turn_events turn) (registered (loop_dispatcher l))" using reg by auto
  let ?l = "(reset_context (if ex then l else l\<lparr>loop_dispatcher := timerStart (turn_timer turn) (loop_dispatcher l)\<rparr>))
     \<lparr>loop_dispatcher := d1\<rparr>"
  have step: "poll_loop ex (turn # turns) n l
      = (let events = handlers_run (turn_events turn); total_events = n + events + (if turn_windows turn then 1 else 0)
         in if events > 0 then poll_loop ex turns total_events ?l else Inr (total_events, ?l))"
    using d1(1) by (simp add: reset_context_def Let_def split: if_splits)
  have l1: "loop_dispatcher ?l = d1" by simp
  show ?case
  proof (cases turns)
    case Nil
    with Cons.prems(2) d1 show ?thesis unfolding step by (simp add: handled_def Let_def)
  next
    case (Cons t ts)
    then have t: "complete_turns turns" "0 < handlers_run (turn_events turn)" using Cons.prems(2) by simp_all
    have "turns_usage ex turns d1" using Cons.prems(3) d1(1) by (simp add: Let_def)
    then show ?thesis
      using Cons.IH [of ?l "n + handlers_run (turn_events turn) + (if turn_windows turn then 1 else 0)"] d1(2,3) t l1
      unfolding step by (simp add: handled_def Let_def add.assoc)
  qed
qed simp

section \<open>Properties\<close>

text \<open>A wake-up is lost. The context is reset before it is waited on, so a call of \<open>wakeUp\<close>, or of
  \<open>interrupt\<close>, made after the flag was read and before the wait starts has no effect: without a
  handler to run the call blocks. Called while the wait is on, it ends it.\<close>

lemma wake_up_lost:
  "processEvents True ex False delay [] False turns (wakeUp l) = Inl Blocked"
  "processEvents True ex False delay [] True turns l
     = processEvents False ex False delay [] False turns (wakeUp l)"
proof -
  show "processEvents True ex False delay [] False turns (wakeUp l) = Inl Blocked"
    by (simp add: processEvents_def run_one_def handlers_run_def reset_context_def wakeUp_def Let_def)
  show "processEvents True ex False delay [] True turns l
     = processEvents False ex False delay [] False turns (wakeUp l)"
    by (cases l) (simp add: processEvents_def run_one_def handlers_run_def reset_context_def wakeUp_def Let_def)
qed

text \<open>C29: \<open>processEvents\<close> keeps the registry and tells whether it did anything. If it was interrupted
  while it sent the posted events it returns false at once. Otherwise it waits for one handler
  or a wake-up, if it may, polls until a poll runs no handler, cleans up without failing an
  assertion, and returns true exactly if some handler ran or window system events were sent; the
  registry is then what the calls made from its handlers say.\<close>

theorem processEvents_reports_activity:
  assumes "disp_inv (loop_dispatcher l)" "complete_turns turns"
    and "pre = (if wait then first else [])"
    and "d0 = (if ex then loop_dispatcher l else timerStart delay (loop_dispatcher l))\<lparr>interrupted := False\<rparr>"
    and "wait \<Longrightarrow> if woken then first = [] else handlers_run first = 1"
    and "usage_all pre d0" "dispatch_run pre d0 = Inr d1" "turns_usage ex turns d1"
  shows "(\<exists>l'. processEvents wait ex False delay first woken turns l = Inr (0 < handlers_run pre + handled turns, l')
       \<and> disp_inv (loop_dispatcher l')
       \<and> registered (loop_dispatcher l') = fold registry_step (pre @ concat (map turn_events turns)) (registered (loop_dispatcher l)))
     \<and> (\<exists>l'. processEvents wait ex True delay first woken turns l = Inr (False, l')
       \<and> disp_inv (loop_dispatcher l') \<and> registered (loop_dispatcher l') = registered (loop_dispatcher l))"
proof (intro conjI)
  have d0: "disp_inv d0" "registered d0 = registered (loop_dispatcher l)" using assms(1,4) by simp_all
  let ?l0 = "l\<lparr>loop_dispatcher := d0\<rparr>"
  have comm: "(if ex then l\<lparr>loop_dispatcher := (loop_dispatcher l)\<lparr>interrupted := False\<rparr>\<rparr>
      else l\<lparr>loop_dispatcher := timerStart delay ((loop_dispatcher l)\<lparr>interrupted := False\<rparr>)\<rparr>) = ?l0"
    using assms(4) by (simp add: timerStart_def timerCancel_def split: option.split)
  from dispatch_run_ok [OF d0(1) assms(6)] assms(7) d0(2)
  have d1: "disp_inv d1" "registered d1 = fold registry_step pre (registered (loop_dispatcher l))" by simp_all
  have "\<exists>l1. (if wait then run_one first woken (reset_context ?l0) else Inr (0, ?l0)) = Inr (handlers_run pre, l1)
      \<and> loop_dispatcher l1 = d1"
  proof (cases "wait \<and> \<not> woken")
    case True
    then have "handlers_run first = 1" "pre = first" using assms(3,5) by simp_all
    then show ?thesis using True assms(7) by (simp add: run_one_def reset_context_def)
  next
    case False
    then have "pre = []" using assms(3,5) by auto
    then show ?thesis using False assms(7) assms(3) by (auto simp: run_one_def reset_context_def handlers_run_def wakeUp_def)
  qed
  then obtain l1 where l1: "(if wait then run_one first woken (reset_context ?l0) else Inr (0, ?l0)) = Inr (handlers_run pre, l1)"
    "loop_dispatcher l1 = d1" by blast
  from poll_loop_ok [of l1 turns ex "handlers_run pre"] d1(1) assms(2,8) l1(2) obtain l2
    where l2: "poll_loop ex turns (handlers_run pre) l1 = Inr (handlers_run pre + handled turns, l2)" "disp_inv (loop_dispatcher l2)"
      "registered (loop_dispatcher l2) = fold registry_step (concat (map turn_events turns)) (registered d1)" by auto
  have "distinct (socketNotifiers (loop_dispatcher l2))" using l2(2) by (simp add: disp_inv_def ids_ok_def)
  from cleanup_ok [OF l2(2) this subset_refl] obtain d3
    where d3: "cleanupSocketNotifiers False (loop_dispatcher l2) = Inr d3" "disp_inv d3" "registered d3 = registered (loop_dispatcher l2)"
    by (auto simp: cleanupSocketNotifiers_def)
  have "processEvents wait ex False delay first woken turns l
      = rbind (if wait then run_one first woken (reset_context ?l0) else Inr (0, ?l0))
          (\<lambda>(n, l). rbind (poll_loop ex turns n l) (\<lambda>(n, l).
             rbind (cleanupSocketNotifiers False (loop_dispatcher l)) (\<lambda>d. Inr (0 < n, l\<lparr>loop_dispatcher := d\<rparr>))))"
    by (simp add: processEvents_def Let_def comm split del: if_split cong: if_cong)
  then show "\<exists>l'. processEvents wait ex False delay first woken turns l = Inr (0 < handlers_run pre + handled turns, l')
       \<and> disp_inv (loop_dispatcher l')
       \<and> registered (loop_dispatcher l') = fold registry_step (pre @ concat (map turn_events turns)) (registered (loop_dispatcher l))"
    using l1(1) d1(2) l2 d3 by simp
  show "\<exists>l'. processEvents wait ex True delay first woken turns l = Inr (False, l')
       \<and> disp_inv (loop_dispatcher l') \<and> registered (loop_dispatcher l') = registered (loop_dispatcher l)"
    using assms(1) by (simp add: processEvents_def interrupt_loop_def wakeUp_def Let_def)
qed

theorem processEvents_reports_activity_witness:
  "\<exists>l'. processEvents False False False (Some 10) [] False
      [\<lparr>turn_timer = Some 10, turn_events = [DTimeout False], turn_windows = False\<rparr>,
       \<lparr>turn_timer = None, turn_events = [], turn_windows = False\<rparr>]
      \<lparr>loop_dispatcher = new_dispatcher, context_stopped = False\<rparr> = Inr (True, l')"
proof -
  let ?turns = "[\<lparr>turn_timer = Some 10, turn_events = [DTimeout False], turn_windows = False\<rparr>,
       \<lparr>turn_timer = None, turn_events = [], turn_windows = False\<rparr>]"
  have "complete_turns ?turns" by (simp add: handlers_run_def)
  moreover have "turns_usage False ?turns ((timerStart (Some 10) new_dispatcher)\<lparr>interrupted := False\<rparr>)"
    by (simp add: Let_def split: sum.split)
  ultimately show ?thesis
    using processEvents_reports_activity
      [of "\<lparr>loop_dispatcher = new_dispatcher, context_stopped = False\<rparr>" ?turns "[]" False "[]" _ False "Some 10"]
    by (auto simp: handled_def handlers_run_def)
qed

end
