(* ===== verification/PartialIO.thy ===== *)
theory PartialIO
  imports Prelude
begin

text \<open>
  The transfer loops of \<open>sample_io_operations\<close>: \<open>read_some\<close> and \<open>write_some\<close> move part of a buffer,
  and the samples call them again for the rest, from completion callbacks
  (\<open>sample_tcp_socket_asynchronously\<close>) or from a loop (\<open>sample_tcp_socket_synchronously\<close>). The
  locale \<open>transfer\<close> is the contract of a callback and a socket that makes such a chain move
  every byte once and in place; it is interpreted on the samples' callbacks and on a socket
  that accepts or delivers as many bytes as it likes. The last section has the two programs
  of \<open>sample_shutting_down_closing_socket\<close>.
\<close>

section \<open>Buffers and sockets\<close>

text \<open>A region of a buffer: the offset and the length passed to an operation.\<close>

type_synonym region = "nat \<times> nat"

text \<open>What an operation does: it fails, or the socket is ready for up to one more byte than the
  number given.\<close>

type_synonym completion = "bool \<times> nat"

text \<open>\<open>write_some\<close> on a region of \<open>buf\<close> appends to the bytes on the wire; \<open>read_some\<close> fills a
  region of the buffer from the bytes that have arrived. Both move at least one byte, except
  that nothing is left to read when the peer has closed its end, which is an error.\<close>

definition move_write :: "string \<Rightarrow> region \<Rightarrow> nat \<Rightarrow> string \<Rightarrow> nat \<times> string" where
  "move_write buf r k sent_bytes =
     (let m = min (snd r) (Suc k) in (m, sent_bytes @ take m (drop (fst r) buf)))"

definition move_read :: "region \<Rightarrow> nat \<Rightarrow> string \<times> string \<Rightarrow> nat \<times> string \<times> string" where
  "move_read r k e = (case e of (buf, stream) \<Rightarrow>
     let m = min (snd r) (min (Suc k) (length stream))
     in (m, memcpy_at (fst r) (take m stream) buf, drop m stream))"

section \<open>Callbacks\<close>

record write_session =
  w_buf :: string
  total_bytes_written :: size_t

record read_session =
  total_bytes_read :: size_t
  buf_size :: u32

definition write_callback :: "bool \<Rightarrow> size_t \<Rightarrow> write_session \<Rightarrow> write_session \<times> region option" where
  "write_callback ec bytes_transferred s =
     (if ec then (s, None)
      else let s = s\<lparr>total_bytes_written := total_bytes_written s + bytes_transferred\<rparr>;
               len = (word_of_nat (length (w_buf s)) :: size_t)
           in if total_bytes_written s = len then (s, None)
              else (s, Some (unat (total_bytes_written s), unat (len - total_bytes_written s))))"

definition write_start :: "string \<Rightarrow> write_session \<times> region option" where
  "write_start buf = (\<lparr>w_buf = buf, total_bytes_written = 0\<rparr>, Some (0, length buf))"

definition writeToSocket :: "write_session \<times> region option" where
  "writeToSocket = write_start ''Hello''"

definition read_callback :: "bool \<Rightarrow> size_t \<Rightarrow> read_session \<Rightarrow> read_session \<times> region option" where
  "read_callback ec bytes_transferred s =
     (if ec then (s, None)
      else let s = s\<lparr>total_bytes_read := total_bytes_read s + bytes_transferred\<rparr>;
               len = (ucast (buf_size s) :: size_t)
           in if total_bytes_read s = len then (s, None)
              else (s, Some (unat (total_bytes_read s), unat (len - total_bytes_read s))))"

definition MESSAGE_SIZE :: nat where
  "MESSAGE_SIZE = 7"

definition read_start :: "nat \<Rightarrow> read_session \<times> region option" where
  "read_start n = (\<lparr>total_bytes_read = 0, buf_size = word_of_nat n\<rparr>, Some (0, n))"

definition readFromSocket :: "read_session \<times> region option" where
  "readFromSocket = read_start MESSAGE_SIZE"

text \<open>A chain of operations and callbacks: as long as an operation is in progress, its completion
  runs the callback, which may start the next.\<close>

fun transfer_run ::
  "(region \<Rightarrow> nat \<Rightarrow> 'e \<Rightarrow> nat \<times> 'e) \<Rightarrow> (bool \<Rightarrow> size_t \<Rightarrow> 's \<Rightarrow> 's \<times> region option)
   \<Rightarrow> completion list \<Rightarrow> 's \<times> region option \<Rightarrow> 'e \<Rightarrow> 's \<times> region option \<times> 'e" where
  "transfer_run move cb [] (s, r) e = (s, r, e)"
| "transfer_run move cb (c # cs) (s, None) e = (s, None, e)"
| "transfer_run move cb ((ec, k) # cs) (s, Some r) e =
     (let (m, e') = (if ec then (0, e) else move r k e)
      in transfer_run move cb cs (cb (m = 0) (word_of_nat m) s) e')"

section \<open>Loops\<close>

text \<open>The loop of the synchronous samples, \<open>while(total != size) total += sock.X_some(...)\<close>; it
  throws when the operation fails and has not returned when the operation does not.\<close>

fun transfer_loop ::
  "(region \<Rightarrow> nat \<Rightarrow> 'e \<Rightarrow> nat \<times> 'e) \<Rightarrow> size_t \<Rightarrow> completion list \<Rightarrow> size_t \<Rightarrow> 'e \<Rightarrow> (size_t \<times> 'e) result" where
  "transfer_loop move goal [] so_far e = (if so_far \<noteq> goal then Inl Blocked else Inr (so_far, e))"
| "transfer_loop move goal ((ec, k) # cs) so_far e =
     (if so_far \<noteq> goal then
        let (m, e') = (if ec then (0, e) else move (unat so_far, unat (goal - so_far)) k e)
        in if m = 0 then Inl (Thrown ''system_error'') else transfer_loop move goal cs (so_far + word_of_nat m) e'
      else Inr (so_far, e))"

definition sync_writeToSocket :: "completion list \<Rightarrow> string result" where
  "sync_writeToSocket cs =
     rbind (transfer_loop (move_write ''Hello'') (word_of_nat (length ''Hello'')) cs 0 '''') (\<lambda>(total, sent_bytes). Inr sent_bytes)"

text \<open>\<open>junk\<close> is what the uninitialised array holds.\<close>

definition sync_readFromSocket :: "completion list \<Rightarrow> string \<Rightarrow> string \<Rightarrow> string result" where
  "sync_readFromSocket cs junk stream =
     rbind (transfer_loop move_read (word_of_nat MESSAGE_SIZE) cs 0 (junk, stream))
       (\<lambda>(total_bytes_read, buf, _). Inr (take (unat total_bytes_read) buf))"


section \<open>The contract of a chain\<close>

text \<open>\<open>progress t e\<close> describes the world when \<open>t\<close> bytes have been moved.\<close>

locale transfer =
  fixes move :: "region \<Rightarrow> nat \<Rightarrow> 'e \<Rightarrow> nat \<times> 'e"
    and cb :: "bool \<Rightarrow> size_t \<Rightarrow> 's \<Rightarrow> 's \<times> region option"
    and count :: "'s \<Rightarrow> size_t"
    and ready :: "'s \<Rightarrow> bool"
    and goal :: nat
    and progress :: "nat \<Rightarrow> 'e \<Rightarrow> bool"
  assumes goal_fits: "goal < 2 ^ 64"
    and cb_error: "cb True b s = (s, None)"
    and cb_next: "ready s \<Longrightarrow> unat (count s) + unat b < goal \<Longrightarrow>
      \<exists>s'. cb False b s = (s', Some (unat (count s) + unat b, goal - (unat (count s) + unat b)))
         \<and> ready s' \<and> count s' = count s + b"
    and cb_last: "ready s \<Longrightarrow> unat (count s) + unat b = goal \<Longrightarrow>
      \<exists>s'. cb False b s = (s', None) \<and> ready s' \<and> count s' = count s + b"
    and move_bound: "move (t, n) k e = (m, e') \<Longrightarrow> m \<le> n"
    and move_progress: "progress t e \<Longrightarrow> t + n = goal \<Longrightarrow> move (t, n) k e = (m, e') \<Longrightarrow> progress (t + m) e'"
begin

definition on_way :: "'s \<Rightarrow> region option \<Rightarrow> 'e \<Rightarrow> bool" where
  "on_way s r e \<longleftrightarrow> ready s \<and> progress (unat (count s)) e
     \<and> (case r of None \<Rightarrow> unat (count s) \<le> goal
        | Some q \<Rightarrow> unat (count s) < goal \<and> q = (unat (count s), goal - unat (count s)))"

lemma unat_add_le: "unat (c :: size_t) + m \<le> goal \<Longrightarrow> unat (c + word_of_nat m) = unat c + m"
proof -
  assume le: "unat c + m \<le> goal"
  then have m: "unat (word_of_nat m :: size_t) = m"
    using goal_fits by (simp add: unsigned_of_nat take_bit_nat_eq_self)
  show ?thesis using le goal_fits by (subst unat_plus_simple [THEN iffD1]) (simp_all add: word_le_nat_alt unat_word_ariths m)
qed

text \<open>One completion: the chain stays on its way, and either an error ended it or the bytes moved
  are counted and the chain goes on for exactly as long as there are bytes to move.\<close>

lemma step_ok:
  assumes "on_way s (Some r) e" "move r k e = (m, e')" "m \<noteq> 0"
  shows "\<exists>s' r'. cb False (word_of_nat m) s = (s', r') \<and> on_way s' r' e'
     \<and> count s' = count s + word_of_nat m \<and> unat (count s') = unat (count s) + m
     \<and> (r' = None \<longleftrightarrow> unat (count s') = goal)"
proof -
  let ?t = "unat (count s)"
  from assms(1) have s: "ready s" "progress ?t e" "?t < goal" "r = (?t, goal - ?t)" by (auto simp: on_way_def)
  with assms(2) have mv: "move (?t, goal - ?t) k e = (m, e')" by simp
  from move_bound [OF mv] s(3) have le: "?t + m \<le> goal" by simp
  from unat_add_le [OF le] have c: "unat (count s + word_of_nat m) = ?t + m" .
  from le goal_fits have m: "unat (word_of_nat m :: size_t) = m"
    by (simp add: unsigned_of_nat take_bit_nat_eq_self)
  from move_progress [OF s(2) _ mv] s(3) have pr: "progress (?t + m) e'" by simp
  show ?thesis
  proof (cases "?t + m = goal")
    case True
    with cb_last [OF s(1), of "word_of_nat m"] m pr c show ?thesis by (auto simp: on_way_def)
  next
    case False
    with le have "?t + m < goal" by simp
    with cb_next [OF s(1), of "word_of_nat m"] m pr c show ?thesis by (fastforce simp: on_way_def)
  qed
qed

lemma run_on_way:
  "on_way s r e \<Longrightarrow> transfer_run move cb cs (s, r) e = (s', r', e') \<Longrightarrow> on_way s' r' e'"
proof (induction cs arbitrary: s r e)
  case (Cons c cs)
  obtain ec k where c: "c = (ec, k)" by fastforce
  show ?case
  proof (cases r)
    case (Some q)
    obtain m e1 where m: "(if ec then (0, e) else move q k e) = (m, e1)" by fastforce
    show ?thesis
    proof (cases "m = 0")
      case True
      then have "on_way s None e1" using Cons.prems(1) m Some
        by (auto simp: on_way_def split: if_splits dest: move_progress [where n = "goal - unat (count s)"])
      then show ?thesis using Cons.IH [of s None e1] Cons.prems(2) c Some m True by (simp add: cb_error)
    next
      case False
      with m have "move q k e = (m, e1)" by (auto split: if_splits)
      from step_ok [OF _ this False] Cons.prems Some obtain s1 r1
        where "cb False (word_of_nat m) s = (s1, r1)" "on_way s1 r1 e1" by blast
      with Cons.IH [of s1 r1 e1] Cons.prems(2) c Some m False show ?thesis by simp
    qed
  qed (use Cons c in auto)
qed auto

text \<open>The loop does what the chain of callbacks does.\<close>

lemma loop_agrees:
  assumes "on_way s r e" "r = None \<longleftrightarrow> unat (count s) = goal"
  shows "transfer_loop move (word_of_nat goal) cs (count s) e = Inr (t, e')
     \<longleftrightarrow> (\<exists>s'. transfer_run move cb cs (s, r) e = (s', None, e') \<and> count s' = t \<and> unat t = goal)"
  using assms
proof (induction cs arbitrary: s r e)
  case Nil
  then show ?case using goal_fits
    by (auto simp: word_unat_eq_iff unsigned_of_nat take_bit_nat_eq_self)
next
  case (Cons c cs)
  have g: "unat (word_of_nat goal :: size_t) = goal"
    using goal_fits by (simp add: unsigned_of_nat take_bit_nat_eq_self)
  obtain ec k where c: "c = (ec, k)" by fastforce
  show ?case
  proof (cases r)
    case None
    with Cons.prems g c show ?thesis by (auto simp: word_unat_eq_iff)
  next
    case (Some q)
    with Cons.prems have q: "q = (unat (count s), goal - unat (count s))" "unat (count s) < goal"
      by (auto simp: on_way_def)
    then have ne: "count s \<noteq> word_of_nat goal" using g by (auto simp: word_unat_eq_iff)
    have sub: "unat (word_of_nat goal - count s) = goal - unat (count s)"
      using q(2) g by (simp add: unat_sub word_le_nat_alt)
    obtain m e1 where m: "(if ec then (0, e) else move q k e) = (m, e1)" by fastforce
    show ?thesis
    proof (cases "m = 0")
      case True
      have "transfer_run move cb cs (s, None) e1 = (s, None, e1)" by (cases cs) simp_all
      then show ?thesis using True m c Some ne q sub by (auto simp: cb_error)
    next
      case False
      with m have "move q k e = (m, e1)" by (auto split: if_splits)
      from step_ok [OF _ this False] Cons.prems Some obtain s1 r1
        where s1: "cb False (word_of_nat m) s = (s1, r1)" "on_way s1 r1 e1" "count s1 = count s + word_of_nat m"
          "r1 = None \<longleftrightarrow> unat (count s1) = goal" by blast
      have "\<not> ec" using m False by (auto split: if_splits)
      with m q(1) have "move (unat (count s), goal - unat (count s)) k e = (m, e1)" by simp
      with Cons.IH [OF s1(2,4)] s1(1,3) \<open>\<not> ec\<close> False c Some ne q sub show ?thesis by simp
    qed
  qed
qed

end

text \<open>A socket that always moves something: the chain ends, after at most one operation per byte.\<close>

locale steady_transfer = transfer +
  assumes move_some: "progress t e \<Longrightarrow> t + n = goal \<Longrightarrow> 0 < n \<Longrightarrow> fst (move (t, n) k e) \<noteq> 0"
begin

lemma run_completes:
  assumes "on_way s r e" "r = None \<longleftrightarrow> unat (count s) = goal"
    and "\<forall>c \<in> set cs. \<not> fst c" "goal - unat (count s) \<le> length cs"
  shows "\<exists>s' e'. transfer_run move cb cs (s, r) e = (s', None, e') \<and> unat (count s') = goal \<and> progress goal e'"
  using assms
proof (induction cs arbitrary: s r e)
  case Nil
  then show ?case by (auto simp: on_way_def split: option.splits)
next
  case (Cons c cs)
  obtain k where c: "c = (False, k)" using Cons.prems(3) by (cases c) auto
  show ?case
  proof (cases r)
    case None
    with Cons.prems c show ?thesis by (auto simp: on_way_def)
  next
    case (Some q)
    with Cons.prems have q: "q = (unat (count s), goal - unat (count s))" "unat (count s) < goal"
        "progress (unat (count s)) e"
      by (auto simp: on_way_def)
    obtain m e1 where m: "move q k e = (m, e1)" by fastforce
    with move_some [OF q(3), of "goal - unat (count s)" k] q have m0: "m \<noteq> 0" by simp
    from step_ok [OF _ m m0] Cons.prems Some obtain s1 r1
      where s1: "cb False (word_of_nat m) s = (s1, r1)" "on_way s1 r1 e1"
        "unat (count s1) = unat (count s) + m" "r1 = None \<longleftrightarrow> unat (count s1) = goal" by blast
    have "goal - unat (count s1) \<le> length cs" using Cons.prems(4) s1(3) m0 by simp
    with Cons.IH [OF s1(2,4)] Cons.prems(3) s1(1) c Some m m0 show ?thesis by simp
  qed
qed

end

section \<open>The samples keep the contract\<close>

lemma unat_size_of: "n < 2 ^ 64 \<Longrightarrow> unat (word_of_nat n :: size_t) = n"
  by (simp add: unsigned_of_nat take_bit_nat_eq_self)

lemma count_next:
  fixes c b :: size_t
  assumes "unat c + unat b \<le> n" "n < 2 ^ 64"
  shows "unat (c + b) = unat c + unat b" "c + b = word_of_nat n \<longleftrightarrow> unat c + unat b = n"
    "unat (word_of_nat n - (c + b)) = n - (unat c + unat b)"
proof -
  show u: "unat (c + b) = unat c + unat b"
    using assms by (simp add: unat_word_ariths)
  then show "c + b = word_of_nat n \<longleftrightarrow> unat c + unat b = n"
    using assms by (simp add: word_unat_eq_iff unat_size_of)
  have "c + b \<le> word_of_nat n" using assms u by (simp add: word_le_nat_alt unat_size_of)
  then show "unat (word_of_nat n - (c + b)) = n - (unat c + unat b)"
    using assms u by (simp add: unat_sub unat_size_of)
qed

lemma write_callback_ok:
  assumes "unat (total_bytes_written s) + unat b \<le> length (w_buf s)" "length (w_buf s) < 2 ^ 64"
  shows "write_callback False b s = (s\<lparr>total_bytes_written := total_bytes_written s + b\<rparr>,
    if unat (total_bytes_written s) + unat b = length (w_buf s) then None
    else Some (unat (total_bytes_written s) + unat b, length (w_buf s) - (unat (total_bytes_written s) + unat b)))"
  using count_next [OF assms] by (simp add: write_callback_def Let_def)

lemma read_callback_ok:
  assumes "unat (total_bytes_read s) + unat b \<le> unat (buf_size s)"
  shows "read_callback False b s = (s\<lparr>total_bytes_read := total_bytes_read s + b\<rparr>,
    if unat (total_bytes_read s) + unat b = unat (buf_size s) then None
    else Some (unat (total_bytes_read s) + unat b, unat (buf_size s) - (unat (total_bytes_read s) + unat b)))"
proof -
  have "unat (buf_size s) < 2 ^ LENGTH(32)" by (rule unsigned_less)
  then have "unat (buf_size s) < 2 ^ 64" by simp
  moreover have "word_of_nat (unat (buf_size s)) = (ucast (buf_size s) :: size_t)"
    by simp
  ultimately show ?thesis using count_next [OF assms] by (simp add: read_callback_def Let_def)
qed

lemma move_write_bound: "move_write buf (t, n) k e = (m, e') \<Longrightarrow> m \<le> n"
  by (auto simp: move_write_def Let_def)

lemma move_read_bound: "move_read (t, n) k e = (m, e') \<Longrightarrow> m \<le> n"
  by (cases e) (auto simp: move_read_def Let_def)

lemma callback_error: "write_callback True b s = (s, None)" "read_callback True b s' = (s', None)"
  by (simp_all add: write_callback_def read_callback_def)

lemma write_transfer:
  assumes "length buf < 2 ^ 64"
  shows "steady_transfer (move_write buf) write_callback total_bytes_written (\<lambda>s. w_buf s = buf) (length buf)
    (\<lambda>t sent_bytes. sent_bytes = take t buf)"
proof
  show "length buf < 2 ^ 64" by (rule assms)
qed (use assms in \<open>auto simp: write_callback_ok callback_error move_write_def Let_def take_add\<close>)

definition read_so_far :: "string \<Rightarrow> string \<Rightarrow> nat \<Rightarrow> string \<times> string \<Rightarrow> bool" where
  "read_so_far junk stream t e \<longleftrightarrow> t \<le> length stream \<and> length junk = MESSAGE_SIZE
     \<and> e = (take t stream @ drop t junk, drop t stream)"

lemma move_read_progress:
  assumes "read_so_far junk stream t e" "t + n = MESSAGE_SIZE" "move_read (t, n) k e = (m, e')"
  shows "read_so_far junk stream (t + m) e'"
proof -
  from assms(1) have e: "t \<le> length stream" "length junk = MESSAGE_SIZE" "e = (take t stream @ drop t junk, drop t stream)"
    by (auto simp: read_so_far_def)
  with assms(3) have m: "m \<le> length stream - t" "e' = (memcpy_at t (take m (drop t stream)) (take t stream @ drop t junk), drop m (drop t stream))"
    by (auto simp: move_read_def Let_def)
  then have "snd e' = drop (t + m) stream" "fst e' = take (t + m) stream @ drop (t + m) junk"
    using e by (simp_all add: memcpy_at_def take_add add.commute [of m t] min_absorb2)
  with e m show ?thesis by (cases e') (simp add: read_so_far_def)
qed

interpretation hello: steady_transfer "move_write ''Hello''" write_callback total_bytes_written
  "\<lambda>s. w_buf s = ''Hello''" "length ''Hello''" "\<lambda>t sent_bytes. sent_bytes = take t ''Hello''"
  by (rule write_transfer) simp

lemma size_of_message: "unat (word_of_nat MESSAGE_SIZE :: u32) = MESSAGE_SIZE"
  by (simp add: MESSAGE_SIZE_def unsigned_of_nat take_bit_nat_eq_self)

interpretation reads: transfer move_read read_callback total_bytes_read
  "\<lambda>s. buf_size s = word_of_nat MESSAGE_SIZE" MESSAGE_SIZE "read_so_far junk stream" for junk stream
proof
  show "MESSAGE_SIZE < 2 ^ 64" by (simp add: MESSAGE_SIZE_def)
qed (auto intro: move_read_progress move_read_bound simp: read_callback_ok size_of_message callback_error)

interpretation full_reads: steady_transfer move_read read_callback total_bytes_read
  "\<lambda>s. buf_size s = word_of_nat MESSAGE_SIZE" MESSAGE_SIZE
  "\<lambda>t e. read_so_far junk stream t e \<and> MESSAGE_SIZE \<le> length stream" for junk stream
proof
  show "MESSAGE_SIZE < 2 ^ 64" by (simp add: MESSAGE_SIZE_def)
  show "read_so_far junk stream (t + m) e' \<and> MESSAGE_SIZE \<le> length stream"
    if "read_so_far junk stream t e \<and> MESSAGE_SIZE \<le> length stream" "t + n = MESSAGE_SIZE"
      "move_read (t, n) k e = (m, e')" for t n k e m e'
    using that by (auto intro: move_read_progress)
  show "fst (move_read (t, n) k e) \<noteq> 0"
    if "read_so_far junk stream t e \<and> MESSAGE_SIZE \<le> length stream" "t + n = MESSAGE_SIZE" "0 < n" for t n k e
    using that by (auto simp: read_so_far_def move_read_def Let_def)
qed (auto intro: move_read_bound simp: read_callback_ok size_of_message callback_error)

lemma hello_start: "hello.on_way (fst writeToSocket) (snd writeToSocket) ''''"
  unfolding hello.on_way_def by (simp add: writeToSocket_def write_start_def)

lemma read_start_on_way:
  "length junk = MESSAGE_SIZE \<Longrightarrow> reads.on_way junk stream (fst readFromSocket) (snd readFromSocket) (junk, stream)"
  unfolding reads.on_way_def by (simp add: readFromSocket_def read_start_def read_so_far_def MESSAGE_SIZE_def)

section \<open>A request and a response, delimited by shutting down\<close>

text \<open>\<open>asio::read\<close> into a stream buffer: what arrived before the end of the stream or another
  error. The programs take the end of the stream for the end of the message.\<close>

datatype read_end = Eof | ReadError

definition request_buf :: string where
  "request_buf = [CHR ''H'', CHR ''e'', char_of (0 :: nat), CHR ''l'', CHR ''l'', CHR ''o'']"

definition response_buf :: string where
  "response_buf = ''Hi!''"

record duplex =
  outgoing_bytes :: string
  send_shutdown :: bool

definition write_all :: "bool \<Rightarrow> string \<Rightarrow> duplex \<Rightarrow> duplex result" where
  "write_all ec xs d = (if ec then Inl (Thrown ''system_error'') else Inr (d\<lparr>outgoing_bytes := outgoing_bytes d @ xs\<rparr>))"

text \<open>The client: \<open>peer\<close> is what its read returns, given what it has sent by then.\<close>

definition communicate :: "bool \<Rightarrow> (duplex \<Rightarrow> string \<times> read_end) \<Rightarrow> duplex \<Rightarrow> (string \<times> duplex) result" where
  "communicate ec peer d =
     rbind (write_all ec request_buf d) (\<lambda>d.
       let d = d\<lparr>send_shutdown := True\<rparr>;
           (response, e) = peer d
       in if e = Eof then Inr (response, d) else Inl (Thrown ''system_error''))"

definition processRequest :: "bool \<Rightarrow> string \<times> read_end \<Rightarrow> duplex \<Rightarrow> (string \<times> duplex) result" where
  "processRequest ec incoming d =
     (if snd incoming \<noteq> Eof then Inl (Thrown ''system_error'')
      else rbind (write_all ec response_buf d) (\<lambda>d. Inr (fst incoming, d\<lparr>send_shutdown := True\<rparr>)))"

text \<open>One end reads what the other has sent, up to its shutdown; while there is none, the read goes
  on until something breaks it.\<close>

definition read_all :: "duplex \<Rightarrow> string \<times> read_end" where
  "read_all d = (outgoing_bytes d, if send_shutdown d then Eof else ReadError)"

definition fresh_duplex :: duplex where
  "fresh_duplex = \<lparr>outgoing_bytes = '''', send_shutdown = False\<rparr>"

definition server_end :: "duplex \<Rightarrow> string \<times> read_end" where
  "server_end d = (case processRequest False (read_all d) fresh_duplex of
     Inl _ \<Rightarrow> ('''', ReadError) | Inr (_, d') \<Rightarrow> read_all d')"

lemma shutdown_delimits_messages:
  "communicate False server_end fresh_duplex
     = Inr (response_buf, \<lparr>outgoing_bytes = request_buf, send_shutdown = True\<rparr>)
   \<and> processRequest False (request_buf, Eof) fresh_duplex
     = Inr (request_buf, \<lparr>outgoing_bytes = response_buf, send_shutdown = True\<rparr>)"
  by (simp add: communicate_def processRequest_def server_end_def read_all_def fresh_duplex_def write_all_def)

section \<open>Properties\<close>

lemma write_chain:
  assumes "buf \<noteq> ''''" "length buf < 2 ^ 64"
  shows "\<exists>s r. transfer_run (move_write buf) write_callback cs (write_start buf) ''''
            = (s, r, take (unat (total_bytes_written s)) buf) \<and> unat (total_bytes_written s) \<le> length buf
          \<and> ((\<forall>c \<in> set cs. \<not> fst c) \<and> length buf \<le> length cs \<longrightarrow> r = None \<and> unat (total_bytes_written s) = length buf)"
proof -
  note st = write_transfer [OF assms(2)]
  note tr = steady_transfer.axioms(1) [OF st]
  note ow = transfer.on_way_def [OF tr]
  obtain s0 r0 where start: "write_start buf = (s0, r0)" by fastforce
  have ow0: "transfer.on_way total_bytes_written (\<lambda>s. w_buf s = buf) (length buf) (\<lambda>t sent_bytes. sent_bytes = take t buf) s0 r0 ''''"
    and r0: "r0 = None \<longleftrightarrow> unat (total_bytes_written s0) = length buf"
    and c0: "total_bytes_written s0 = 0"
    using start assms(1) by (auto simp: ow write_start_def)
  obtain s r e where run: "transfer_run (move_write buf) write_callback cs (s0, r0) '''' = (s, r, e)"
    by (metis prod_cases3)
  from transfer.run_on_way [OF tr ow0 this]
  have "e = take (unat (total_bytes_written s)) buf" "unat (total_bytes_written s) \<le> length buf"
    by (auto simp: ow split: option.splits)
  with steady_transfer.run_completes [OF st ow0 r0, of cs] run c0 start show ?thesis by auto
qed

lemma read_chain:
  assumes "length junk = MESSAGE_SIZE"
  shows "\<exists>s r t. transfer_run move_read read_callback cs readFromSocket (junk, stream)
            = (s, r, take t stream @ drop t junk, drop t stream) \<and> t = unat (total_bytes_read s) \<and> t \<le> MESSAGE_SIZE
          \<and> ((\<forall>c \<in> set cs. \<not> fst c) \<and> MESSAGE_SIZE \<le> length cs \<and> MESSAGE_SIZE \<le> length stream
              \<longrightarrow> r = None \<and> t = MESSAGE_SIZE)"
proof -
  obtain s0 r0 where start: "readFromSocket = (s0, r0)" by fastforce
  have r0: "r0 = None \<longleftrightarrow> unat (total_bytes_read s0) = MESSAGE_SIZE" and c0: "total_bytes_read s0 = 0"
    using start by (auto simp: readFromSocket_def read_start_def MESSAGE_SIZE_def)
  have ow0: "reads.on_way junk stream s0 r0 (junk, stream)"
    using read_start_on_way [OF assms, of stream] unfolding start fst_conv snd_conv .
  obtain s r e where run: "transfer_run move_read read_callback cs (s0, r0) (junk, stream) = (s, r, e)"
    by (metis prod_cases3)
  from reads.run_on_way [OF ow0 this]
  have e: "e = (take (unat (total_bytes_read s)) stream @ drop (unat (total_bytes_read s)) junk, drop (unat (total_bytes_read s)) stream)"
    "unat (total_bytes_read s) \<le> MESSAGE_SIZE"
    by (auto simp: reads.on_way_def read_so_far_def split: option.splits)
  have "r = None \<and> unat (total_bytes_read s) = MESSAGE_SIZE"
    if cs: "\<forall>c \<in> set cs. \<not> fst c" "MESSAGE_SIZE \<le> length cs" "MESSAGE_SIZE \<le> length stream"
  proof -
    have "full_reads.on_way junk stream s0 r0 (junk, stream)"
      using ow0 cs(3) unfolding reads.on_way_def full_reads.on_way_def by simp
    from full_reads.run_completes [OF this r0 cs(1)] cs(2) run show ?thesis by (auto simp: c0)
  qed
  with run start e show ?thesis by auto
qed

text \<open>C18: a chain of partial transfers moves every byte once, in order and in place. However the
  socket splits the transfers, what a write chain has sent is exactly the beginning of the
  buffer its counter announces, and what a read chain has stored is the beginning of the
  incoming bytes, with the rest of the array untouched; no counter and no region leaves the
  buffer. Without errors a chain ends, after at most one operation per byte, with everything
  moved.\<close>

theorem chains_move_every_byte:
  assumes "buf \<noteq> ''''" "length buf < 2 ^ 64" "length junk = MESSAGE_SIZE"
  shows "(\<exists>s r. transfer_run (move_write buf) write_callback cs (write_start buf) ''''
              = (s, r, take (unat (total_bytes_written s)) buf) \<and> unat (total_bytes_written s) \<le> length buf
            \<and> ((\<forall>c \<in> set cs. \<not> fst c) \<and> length buf \<le> length cs \<longrightarrow> r = None \<and> unat (total_bytes_written s) = length buf))
       \<and> (\<exists>s r t. transfer_run move_read read_callback cs readFromSocket (junk, stream)
              = (s, r, take t stream @ drop t junk, drop t stream) \<and> t = unat (total_bytes_read s) \<and> t \<le> MESSAGE_SIZE
            \<and> ((\<forall>c \<in> set cs. \<not> fst c) \<and> MESSAGE_SIZE \<le> length cs \<and> MESSAGE_SIZE \<le> length stream
                \<longrightarrow> r = None \<and> t = MESSAGE_SIZE))"
  using write_chain [OF assms(1,2)] read_chain [OF assms(3)] by (rule conjI)

theorem chains_move_every_byte_witness:
  "\<exists>s. transfer_run (move_write ''Hello'') write_callback (replicate 5 (False, 0)) writeToSocket '''' = (s, None, ''Hello'')"
  using chains_move_every_byte [of "''Hello''" "''1234567''" "replicate 5 (False, 0)", THEN conjunct1]
  by (auto simp: MESSAGE_SIZE_def writeToSocket_def)

text \<open>C19: the synchronous loops and the callback chains are the same function of what the socket
  does: \<open>writeToSocket\<close> and \<open>readFromSocket\<close> of the synchronous samples return, with the same
  bytes sent or read, exactly when the chains end with their counter at the size; and what the
  reader returns is the first \<open>MESSAGE_SIZE\<close> bytes of the stream.\<close>

theorem loops_agree_with_chains:
  assumes "length junk = MESSAGE_SIZE"
  shows "(sync_writeToSocket cs = Inr out \<longleftrightarrow>
           (\<exists>s. transfer_run (move_write ''Hello'') write_callback cs writeToSocket '''' = (s, None, out)
              \<and> unat (total_bytes_written s) = length ''Hello''))
       \<and> (sync_readFromSocket cs junk stream = Inr xs \<longleftrightarrow>
           (\<exists>s rest. transfer_run move_read read_callback cs readFromSocket (junk, stream) = (s, None, xs, rest)
              \<and> unat (total_bytes_read s) = MESSAGE_SIZE))
       \<and> (sync_readFromSocket cs junk stream = Inr xs \<longrightarrow> xs = take MESSAGE_SIZE stream)"
proof (intro conjI impI)
  show w: "sync_writeToSocket cs = Inr out \<longleftrightarrow>
      (\<exists>s. transfer_run (move_write ''Hello'') write_callback cs writeToSocket '''' = (s, None, out)
         \<and> unat (total_bytes_written s) = length ''Hello'')"
    using hello.loop_agrees [OF hello_start, of cs _ out]
    by (auto simp: sync_writeToSocket_def rbind_Inr_conv writeToSocket_def write_start_def)
  have r: "transfer_loop move_read (word_of_nat MESSAGE_SIZE) cs 0 (junk, stream) = Inr (t, e) \<longleftrightarrow>
      (\<exists>s. transfer_run move_read read_callback cs readFromSocket (junk, stream) = (s, None, e)
         \<and> total_bytes_read s = t \<and> unat t = MESSAGE_SIZE)" for t e
    using reads.loop_agrees [OF read_start_on_way [OF assms, of stream], of cs t e]
    by (auto simp: readFromSocket_def read_start_def MESSAGE_SIZE_def)
  show "sync_readFromSocket cs junk stream = Inr xs \<longleftrightarrow>
      (\<exists>s rest. transfer_run move_read read_callback cs readFromSocket (junk, stream) = (s, None, xs, rest)
         \<and> unat (total_bytes_read s) = MESSAGE_SIZE)"
    using read_chain [OF assms, of cs stream] assms
    by (auto simp: sync_readFromSocket_def rbind_Inr_conv r)
  show "sync_readFromSocket cs junk stream = Inr xs \<Longrightarrow> xs = take MESSAGE_SIZE stream"
    using read_chain [OF assms, of cs stream] assms
    by (auto simp: sync_readFromSocket_def rbind_Inr_conv r)
qed

theorem loops_agree_with_chains_witness:
  "\<exists>s rest. transfer_run move_read read_callback [(False, 2), (False, 9)] readFromSocket (''.......'', ''Hello, world'')
     = (s, None, ''Hello, '', rest) \<and> unat (total_bytes_read s) = MESSAGE_SIZE"
proof -
  have "sync_readFromSocket [(False, 2), (False, 9)] ''.......'' ''Hello, world'' = Inr ''Hello, ''"
    by (simp add: sync_readFromSocket_def MESSAGE_SIZE_def move_read_def memcpy_at_def)
  then show ?thesis
    using loops_agree_with_chains [of "''.......''" "[(False, 2), (False, 9)]" _ "''Hello, world''" "''Hello, ''"]
    by (simp add: MESSAGE_SIZE_def)
qed

end
