(* ===== verification/SocketCalls.thy ===== *)
theory SocketCalls
  imports Prelude
begin

text \<open>
  The programs of \<open>sample_basic\<close> that open, bind, connect and accept sockets and resolve names. Each is a
  \<open>main\<close> that makes one call after the other and returns the code of the first that fails, told by
  an \<open>error_code\<close> argument or by an exception. What a call returns is the system's; it is a parameter.
  (Four of the files have misspelt names that keep them from compiling; the calls are those that
  are meant.)
\<close>

section \<open>Sockets and calls\<close>

datatype protocol = TcpV4 | TcpV6 | UdpV4 | UdpV6

record endpoint =
  ep_protocol :: protocol
  ep_address :: string
  ep_port :: "16 word"

datatype sock_state =
    Closed
  | Opened protocol
  | Bound endpoint
  | Listening endpoint int
  | Connected

datatype transport = Tcp | Udp

datatype sock_call =
    FromString string
  | OpenSocket protocol
  | OpenAcceptor protocol
  | BindSocket endpoint
  | BindAcceptor endpoint
  | Listen int
  | Accept
  | ConnectTo endpoint
  | ConnectAny
  | Resolve transport string string

text \<open>The objects of a program (an acceptor, a socket, the result of a resolver) and the calls it has made.\<close>

record sockets =
  acceptor_state :: sock_state
  socket_state :: sock_state
  resolved :: "endpoint list"
  log :: "sock_call list"

definition no_sockets :: sockets where
  "no_sockets = \<lparr>acceptor_state = Closed, socket_state = Closed, resolved = [], log = []\<rparr>"

text \<open>The system: the value of the error code of each call, 0 when it succeeds, and the endpoints of a
  name.\<close>

record system =
  code :: "sock_call \<Rightarrow> int"
  endpoints :: "transport \<Rightarrow> string \<Rightarrow> string \<Rightarrow> endpoint list"

fun effect :: "system \<Rightarrow> sock_call \<Rightarrow> sockets \<Rightarrow> sockets" where
  "effect os (FromString _) s = s"
| "effect os (OpenSocket p) s = s\<lparr>socket_state := Opened p\<rparr>"
| "effect os (OpenAcceptor p) s = s\<lparr>acceptor_state := Opened p\<rparr>"
| "effect os (BindSocket ep) s = s\<lparr>socket_state := Bound ep\<rparr>"
| "effect os (BindAcceptor ep) s = s\<lparr>acceptor_state := Bound ep\<rparr>"
| "effect os (Listen backlog) s =
     (case acceptor_state s of Bound ep \<Rightarrow> s\<lparr>acceptor_state := Listening ep backlog\<rparr> | _ \<Rightarrow> s)"
| "effect os Accept s = s\<lparr>socket_state := Connected\<rparr>"
| "effect os (ConnectTo ep) s = s\<lparr>socket_state := Connected\<rparr>"
| "effect os ConnectAny s = s\<lparr>socket_state := Connected\<rparr>"
| "effect os (Resolve t host service) s = s\<lparr>resolved := endpoints os t host service\<rparr>"

definition perform :: "system \<Rightarrow> sock_call \<Rightarrow> sockets \<Rightarrow> int \<times> sockets" where
  "perform os c s =
     (let s = s\<lparr>log := log s @ [c]\<rparr>; ec = code os c
      in (ec, if ec = 0 then effect os c s else s))"

text \<open>The overloads without an error code throw it; the rest of the \<open>try\<close> block is skipped, and the
  handler returns the code.\<close>

fun throwing :: "system \<Rightarrow> sock_call list \<Rightarrow> sockets \<Rightarrow> (int \<times> sockets) + sockets" where
  "throwing os [] s = Inr s"
| "throwing os (c # cs) s =
     (let (ec, s) = perform os c s in if ec \<noteq> 0 then Inl (ec, s) else throwing os cs s)"

definition try_block :: "(int \<times> sockets) + sockets \<Rightarrow> int \<times> sockets" where
  "try_block r = (case r of Inl es \<Rightarrow> es | Inr s \<Rightarrow> (0, s))"

section \<open>The programs\<close>

text \<open>Each returns its exit code, with the objects as they are when it does.\<close>

definition local_server :: endpoint where
  "local_server = \<lparr>ep_protocol = TcpV4, ep_address = ''127.0.0.1'', ep_port = 3333\<rparr>"

definition any_tcp :: endpoint where
  "any_tcp = \<lparr>ep_protocol = TcpV4, ep_address = ''0.0.0.0'', ep_port = 3333\<rparr>"

definition any_udp :: endpoint where
  "any_udp = \<lparr>ep_protocol = UdpV4, ep_address = ''0.0.0.0'', ep_port = 3333\<rparr>"

definition endpoint_server_main :: "system \<Rightarrow> int \<times> sockets" where
  "endpoint_server_main os =
     (let ep = \<lparr>ep_protocol = TcpV6, ep_address = ''::'', ep_port = 3333\<rparr> in (0, no_sockets))"

definition endpoint_client_main :: "system \<Rightarrow> int \<times> sockets" where
  "endpoint_client_main os =
     (let (ec, s) = perform os (FromString ''127.0.0.1'') no_sockets
      in if ec \<noteq> 0 then (ec, s) else let ep = local_server in (0, s))"

definition active_tcp_socket_main :: "system \<Rightarrow> int \<times> sockets" where
  "active_tcp_socket_main os =
     (let (ec, s) = perform os (OpenSocket TcpV4) no_sockets in if ec \<noteq> 0 then (ec, s) else (0, s))"

definition active_udp_socket_main :: "system \<Rightarrow> int \<times> sockets" where
  "active_udp_socket_main os =
     (let (ec, s) = perform os (OpenSocket UdpV6) no_sockets in if ec \<noteq> 0 then (ec, s) else (0, s))"

definition passive_tcp_socket_main :: "system \<Rightarrow> int \<times> sockets" where
  "passive_tcp_socket_main os =
     (let (ec, s) = perform os (OpenAcceptor TcpV6) no_sockets in if ec \<noteq> 0 then (ec, s) else (0, s))"

text \<open>Opening in the constructor throws, and nothing in these two programs catches it: the result is
  then the end of the program. Binding tells its error by a code.\<close>

definition acceptor_bind_main :: "system \<Rightarrow> (int \<times> sockets) result" where
  "acceptor_bind_main os =
     (case throwing os [OpenAcceptor TcpV4] no_sockets of
        Inl _ \<Rightarrow> Inl Terminated
      | Inr s \<Rightarrow> let (ec, s) = perform os (BindAcceptor any_tcp) s in Inr (if ec \<noteq> 0 then (ec, s) else (0, s)))"

definition udp_bind_main :: "system \<Rightarrow> (int \<times> sockets) result" where
  "udp_bind_main os =
     (case throwing os [OpenSocket UdpV4] no_sockets of
        Inl _ \<Rightarrow> Inl Terminated
      | Inr s \<Rightarrow> let (ec, s) = perform os (BindSocket any_udp) s in Inr (if ec \<noteq> 0 then (ec, s) else (0, s)))"

definition BACKLOG_SIZE :: int where
  "BACKLOG_SIZE = 30"

definition acceptor_listening_main :: "system \<Rightarrow> int \<times> sockets" where
  "acceptor_listening_main os =
     try_block (throwing os [OpenAcceptor TcpV4, BindAcceptor any_tcp, Listen BACKLOG_SIZE, Accept] no_sockets)"

definition tcp_connect_main :: "system \<Rightarrow> int \<times> sockets" where
  "tcp_connect_main os =
     try_block (throwing os [FromString ''127.0.0.1'', OpenSocket TcpV4, ConnectTo local_server] no_sockets)"

definition tcp_connect_dns_main :: "system \<Rightarrow> int \<times> sockets" where
  "tcp_connect_dns_main os =
     try_block (throwing os [Resolve Tcp ''samplehost.book'' ''3333'', ConnectAny] no_sockets)"

definition dns_tcp_main :: "system \<Rightarrow> int \<times> sockets" where
  "dns_tcp_main os =
     (let (ec, s) = perform os (Resolve Tcp ''samplehost.com'' ''3333'') no_sockets
      in if ec \<noteq> 0 then (ec, s) else (0, s))"

text \<open>The loop over the results ends at the end iterator; it keeps nothing.\<close>

fun visit :: "endpoint list \<Rightarrow> sockets \<Rightarrow> sockets" where
  "visit [] s = s"
| "visit (ep # it) s = visit it s"

definition dns_udp_main :: "system \<Rightarrow> int \<times> sockets" where
  "dns_udp_main os =
     (let (ec, s) = perform os (Resolve Udp ''samplehost.book'' ''3333'') no_sockets
      in if ec \<noteq> 0 then (ec, s) else (0, visit (resolved s) s))"

section \<open>One call after the other\<close>

fun script :: "system \<Rightarrow> sock_call list \<Rightarrow> sockets \<Rightarrow> int \<times> sockets" where
  "script os [] s = (0, s)"
| "script os (c # cs) s = (let (ec, s) = perform os c s in if ec \<noteq> 0 then (ec, s) else script os cs s)"

lemma try_block_throwing: "try_block (throwing os cs s) = script os cs s"
  by (induction cs arbitrary: s) (simp_all add: try_block_def split_def Let_def)

lemma visit_same [simp]: "visit it s = s"
  by (induction it) simp_all

lemma effect_log [simp]: "log (effect os c s) = log s"
  by (cases c) (auto split: sock_state.splits)

lemma log_perform [simp]: "log (snd (perform os c s)) = log s @ [c]"
  by (simp add: perform_def Let_def)

text \<open>The calls a script makes: up to the first that fails.\<close>

definition calls_made :: "system \<Rightarrow> sock_call list \<Rightarrow> sock_call list" where
  "calls_made os cs = takeWhile (\<lambda>c. code os c = 0) cs @ take 1 (dropWhile (\<lambda>c. code os c = 0) cs)"

definition first_error :: "system \<Rightarrow> sock_call list \<Rightarrow> int" where
  "first_error os cs = (case find (\<lambda>c. code os c \<noteq> 0) cs of None \<Rightarrow> 0 | Some c \<Rightarrow> code os c)"

lemma first_error_simps [simp]:
  "first_error os [] = 0"
  "first_error os (c # cs) = (if code os c \<noteq> 0 then code os c else first_error os cs)"
  by (simp_all add: first_error_def)

lemma throwing_first_error:
  "case throwing os cs s of Inl (ec, s') \<Rightarrow> ec = first_error os cs \<and> ec \<noteq> 0 | Inr s' \<Rightarrow> first_error os cs = 0"
  by (induction cs arbitrary: s) (auto simp: perform_def Let_def cong: sum.case_cong)

lemma script_result:
  "fst (script os cs s) = first_error os cs \<and> log (snd (script os cs s)) = log s @ calls_made os cs"
  by (induction cs arbitrary: s) (auto simp: first_error_def calls_made_def perform_def Let_def)

text \<open>What each call asks of the objects, and the check that the calls of a script come in order. The
  check does not depend on the system, as long as the calls succeed.\<close>

fun allowed :: "sock_call \<Rightarrow> sock_state \<times> sock_state \<Rightarrow> bool" where
  "allowed (OpenSocket p) (a, s) = (s = Closed)"
| "allowed (OpenAcceptor p) (a, s) = (a = Closed)"
| "allowed (BindSocket ep) (a, s) = (s = Opened (ep_protocol ep))"
| "allowed (BindAcceptor ep) (a, s) = (a = Opened (ep_protocol ep))"
| "allowed (Listen n) (a, s) = (case a of Bound _ \<Rightarrow> True | _ \<Rightarrow> False)"
| "allowed Accept (a, s) = (s = Closed \<and> (case a of Listening _ _ \<Rightarrow> True | _ \<Rightarrow> False))"
| "allowed (ConnectTo ep) (a, s) = (s = Opened (ep_protocol ep))"
| "allowed ConnectAny (a, s) = (s = Closed)"
| "allowed _ (a, s) = True"

definition states :: "sockets \<Rightarrow> sock_state \<times> sock_state" where
  "states s = (acceptor_state s, socket_state s)"

fun in_order :: "system \<Rightarrow> sock_call list \<Rightarrow> sockets \<Rightarrow> bool" where
  "in_order os [] s = True"
| "in_order os (c # cs) s = (allowed c (states s) \<and> (code os c = 0 \<longrightarrow> in_order os cs (effect os c (s\<lparr>log := log s @ [c]\<rparr>))))"

text \<open>Every call that has been made was made on objects that allowed it.\<close>

fun replay :: "system \<Rightarrow> sock_call list \<Rightarrow> sockets \<Rightarrow> sockets" where
  "replay os [] s = s"
| "replay os (c # cs) s = replay os cs (snd (perform os c s))"

lemma script_replay: "snd (script os cs s) = replay os (calls_made os cs) s"
  by (induction cs arbitrary: s) (simp_all add: calls_made_def perform_def Let_def split_def)

lemma in_order_allowed:
  "in_order os cs s \<Longrightarrow> k < length (calls_made os cs) \<Longrightarrow>
   allowed (calls_made os cs ! k) (states (replay os (take k (calls_made os cs)) s))"
proof (induction cs arbitrary: s k)
  case (Cons c cs)
  show ?case
  proof (cases k)
    case (Suc j)
    then show ?thesis using Cons.prems Cons.IH [of "effect os c (s\<lparr>log := log s @ [c]\<rparr>)" j]
      by (auto simp: calls_made_def perform_def Let_def split: if_splits)
  qed (use Cons.prems in \<open>auto simp: calls_made_def\<close>)
qed (simp add: calls_made_def)

section \<open>Every program is a script\<close>

definition samples :: "((system \<Rightarrow> int \<times> sockets) \<times> sock_call list) list" where
  "samples =
     [(endpoint_server_main, []),
      (endpoint_client_main, [FromString ''127.0.0.1'']),
      (active_tcp_socket_main, [OpenSocket TcpV4]),
      (active_udp_socket_main, [OpenSocket UdpV6]),
      (passive_tcp_socket_main, [OpenAcceptor TcpV6]),
      (acceptor_listening_main, [OpenAcceptor TcpV4, BindAcceptor any_tcp, Listen BACKLOG_SIZE, Accept]),
      (tcp_connect_main, [FromString ''127.0.0.1'', OpenSocket TcpV4, ConnectTo local_server]),
      (tcp_connect_dns_main, [Resolve Tcp ''samplehost.book'' ''3333'', ConnectAny]),
      (dns_tcp_main, [Resolve Tcp ''samplehost.com'' ''3333'']),
      (dns_udp_main, [Resolve Udp ''samplehost.book'' ''3333''])]"

lemmas main_defs = endpoint_server_main_def endpoint_client_main_def active_tcp_socket_main_def
  active_udp_socket_main_def passive_tcp_socket_main_def acceptor_listening_main_def tcp_connect_main_def
  tcp_connect_dns_main_def dns_tcp_main_def dns_udp_main_def

lemma samples_are_scripts: "(main, cs) \<in> set samples \<Longrightarrow> main os = script os cs no_sockets"
  by (auto simp: samples_def main_defs try_block_throwing split_def Let_def simp del: throwing.simps)

lemma samples_in_order: "(main, cs) \<in> set samples \<Longrightarrow> in_order os cs no_sockets"
  by (auto simp: samples_def no_sockets_def states_def any_tcp_def local_server_def)

text \<open>The two programs whose constructor is outside a \<open>try\<close> block.\<close>

lemma bind_mains:
  "acceptor_bind_main os = (if code os (OpenAcceptor TcpV4) \<noteq> 0 then Inl Terminated
     else Inr (script os [OpenAcceptor TcpV4, BindAcceptor any_tcp] no_sockets))"
  "udp_bind_main os = (if code os (OpenSocket UdpV4) \<noteq> 0 then Inl Terminated
     else Inr (script os [OpenSocket UdpV4, BindSocket any_udp] no_sockets))"
  by (simp_all add: acceptor_bind_main_def udp_bind_main_def perform_def Let_def split_def)

text \<open>What a program has when it exits with 0.\<close>

lemma success_states:
  "fst (acceptor_listening_main os) = 0 \<Longrightarrow> states (snd (acceptor_listening_main os)) = (Listening any_tcp BACKLOG_SIZE, Connected)"
  "fst (tcp_connect_main os) = 0 \<Longrightarrow> states (snd (tcp_connect_main os)) = (Closed, Connected)"
  "fst (dns_tcp_main os) = 0 \<Longrightarrow> resolved (snd (dns_tcp_main os)) = endpoints os Tcp ''samplehost.com'' ''3333''"
  by (auto simp: acceptor_listening_main_def tcp_connect_main_def dns_tcp_main_def try_block_def perform_def
      no_sockets_def states_def Let_def split: if_splits)

section \<open>Properties\<close>



end
