(* ===== verification/Lifecycle.thy ===== *)
theory Lifecycle
  imports Prelude
begin

text \<open>
  The contract of a request that runs through a bounded number of operations and then answers
  once: each completion of its operation brings it closer to its end, nothing takes it back, and
  the number of its answers is zero before the end and one after. The request objects of
  \<open>AsyncRequests\<close> and \<open>TMsgClient\<close> are interpretations.
\<close>

text \<open>The completions of a run that met the operation in progress.\<close>

fun effective :: "('e \<Rightarrow> 's \<Rightarrow> 's result) \<Rightarrow> ('e \<Rightarrow> 's \<Rightarrow> bool) \<Rightarrow> 'e list \<Rightarrow> 's \<Rightarrow> nat" where
  "effective step hits [] s = 0"
| "effective step hits (e # es) s =
     (if hits e s then 1 else 0) + (case step e s of Inl _ \<Rightarrow> 0 | Inr s' \<Rightarrow> effective step hits es s')"

lemma effective_const:
  "run_events step es s = Inr s' \<Longrightarrow> effective step (\<lambda>e _. h e) es s = length (filter h es)"
proof (induction es arbitrary: s)
  case (Cons e es)
  then obtain s1 where "step e s = Inr s1" "run_events step es s1 = Inr s'" by auto
  with Cons.IH [of s1] show ?case by simp
qed simp

locale one_shot =
  fixes step :: "'e \<Rightarrow> 's \<Rightarrow> 's result"
    and ok :: "'s \<Rightarrow> bool"
    and stages :: "'s \<Rightarrow> nat"
    and answers :: "'s \<Rightarrow> nat"
    and hits :: "'e \<Rightarrow> 's \<Rightarrow> bool"
  assumes step_ok: "ok s \<Longrightarrow> \<exists>s'. step e s = Inr s' \<and> ok s' \<and> stages s' \<le> stages s - (if hits e s then 1 else 0)"
    and answered: "ok s \<Longrightarrow> answers s = (if stages s = 0 then 1 else 0)"
begin

lemma run_stages:
  "ok s \<Longrightarrow> \<exists>s'. run_events step es s = Inr s' \<and> ok s' \<and> stages s' \<le> stages s - effective step hits es s"
proof (induction es arbitrary: s)
  case (Cons e es)
  from step_ok [OF Cons.prems, of e] obtain s1
    where s1: "step e s = Inr s1" "ok s1" "stages s1 \<le> stages s - (if hits e s then 1 else 0)" by blast
  from Cons.IH [OF s1(2)] s1(1,3) show ?case by fastforce
qed simp

text \<open>At most one answer, and exactly one after as many completions as there are stages.\<close>

lemma run_answers:
  assumes "ok s"
  shows "\<exists>s'. run_events step es s = Inr s' \<and> ok s' \<and> answers s' \<le> 1
    \<and> (stages s \<le> effective step hits es s \<longrightarrow> answers s' = 1)"
  using run_stages [OF assms, of es] answered by fastforce

end

end
