(* ===== verification/AsyncRequests.thy ===== *)
theory AsyncRequests
  imports Text Lifecycle
begin

text \<open>
  \<open>sample_implementing_client/asynchronous_tcp_client.cpp\<close>: a client that keeps several requests
  in progress, each in a session of its own with one asynchronous operation at a time, and
  cancels them by identifier. The first part takes a handler or a call as one step; the locks
  those steps take are the subject of the theory \<open>RequestLocks\<close>. An operation that completes may
  do so with any error code: whether \<open>cancel\<close> still reaches it is not known to the program.
\<close>

section \<open>Sessions\<close>

datatype error_code = Success | OperationAborted | OtherError nat

text \<open>The operation a session waits for.\<close>

datatype request_op = OpConnect | OpWrite string | OpReadUntil

record session =
  m_request :: string
  m_response :: string
  m_ec :: error_code
  m_id :: u32
  m_was_cancelled :: bool
  m_shutdown :: bool

record async_client =
  req_sessions :: "nat \<Rightarrow> session option"
  next_session :: nat
  m_active_sessions :: "int \<Rightarrow> nat option"
  in_progress :: "nat \<Rightarrow> request_op option"
  cancel_calls :: "nat list"
  callbacks :: "(nat \<times> u32 \<times> string \<times> error_code) list"
  m_work :: bool

definition new_async_client :: async_client where
  "new_async_client = \<lparr>req_sessions = Map.empty, next_session = 0, m_active_sessions = Map.empty,
     in_progress = Map.empty, cancel_calls = [], callbacks = [], m_work = True\<rparr>"

definition new_request_session :: "string \<Rightarrow> u32 \<Rightarrow> session" where
  "new_request_session request i = \<lparr>m_request = request, m_response = '''', m_ec = Success, m_id = i,
     m_was_cancelled = False, m_shutdown = False\<rparr>"

definition upd_session_at :: "nat \<Rightarrow> (session \<Rightarrow> session) \<Rightarrow> async_client \<Rightarrow> async_client" where
  "upd_session_at p f ac = ac\<lparr>req_sessions := (req_sessions ac)(p := map_option f (req_sessions ac p))\<rparr>"

definition start_request_op :: "nat \<Rightarrow> request_op \<Rightarrow> async_client \<Rightarrow> async_client" where
  "start_request_op p op ac = ac\<lparr>in_progress := (in_progress ac)(p \<mapsto> op)\<rparr>"

section \<open>Operations\<close>

text \<open>\<open>opens\<close>: the address parses and the socket opens; otherwise the call throws before anything
  is recorded. The map's key is an \<open>int\<close>, the identifier is unsigned.\<close>

definition request_text :: "u32 \<Rightarrow> string" where
  "request_text duration_sec = ''EMULATE_LONG_CALC_OP '' @ dec (unat duration_sec) @ [CHR 0x0A]"

definition emulateLongComputationOp :: "bool \<Rightarrow> u32 \<Rightarrow> u32 \<Rightarrow> async_client \<Rightarrow> async_client result" where
  "emulateLongComputationOp opens duration_sec request_id ac =
     (if \<not> opens then Inl (Thrown ''system_error'')
      else let p = next_session ac;
               ac = ac\<lparr>req_sessions := (req_sessions ac)(p \<mapsto> new_request_session (request_text duration_sec) request_id),
                       next_session := Suc p\<rparr>;
               ac = ac\<lparr>m_active_sessions := (m_active_sessions ac)(sint request_id \<mapsto> p)\<rparr>
           in Inr (start_request_op p OpConnect ac))"

definition completion_code :: "session \<Rightarrow> error_code" where
  "completion_code s = (if m_ec s = Success \<and> m_was_cancelled s then OperationAborted else m_ec s)"

definition onRequestComplete :: "nat \<Rightarrow> session \<Rightarrow> async_client \<Rightarrow> async_client" where
  "onRequestComplete p s ac =
     (let ac = upd_session_at p (\<lambda>s. s\<lparr>m_shutdown := True\<rparr>) ac;
          ac = (if m_active_sessions ac (sint (m_id s)) \<noteq> None
                then ac\<lparr>m_active_sessions := (m_active_sessions ac)(sint (m_id s) := None)\<rparr> else ac)
      in ac\<lparr>callbacks := callbacks ac @ [(p, m_id s, m_response s, completion_code s)]\<rparr>)"

text \<open>The three handlers; \<open>s\<close> is the session the handler's shared pointer refers to.\<close>

definition fail_request :: "nat \<Rightarrow> error_code \<Rightarrow> session \<Rightarrow> async_client \<Rightarrow> async_client" where
  "fail_request p ec s ac =
     onRequestComplete p (s\<lparr>m_ec := ec\<rparr>) (upd_session_at p (\<lambda>s. s\<lparr>m_ec := ec\<rparr>) ac)"

definition request_connected :: "nat \<Rightarrow> error_code \<Rightarrow> session \<Rightarrow> async_client \<Rightarrow> async_client" where
  "request_connected p ec s ac =
     (if ec \<noteq> Success then fail_request p ec s ac
      else if m_was_cancelled s then onRequestComplete p s ac
      else start_request_op p (OpWrite (m_request s)) ac)"

definition request_written :: "nat \<Rightarrow> error_code \<Rightarrow> session \<Rightarrow> async_client \<Rightarrow> async_client" where
  "request_written p ec s ac =
     (if ec \<noteq> Success then fail_request p ec s ac
      else if m_was_cancelled s then onRequestComplete p s ac
      else start_request_op p OpReadUntil ac)"

definition getline :: "string \<Rightarrow> string" where
  "getline xs = takeWhile (\<lambda>c. c \<noteq> CHR 0x0A) xs"

definition response_read :: "nat \<Rightarrow> error_code \<Rightarrow> string \<Rightarrow> session \<Rightarrow> async_client \<Rightarrow> async_client" where
  "response_read p ec buf s ac =
     (if ec \<noteq> Success then fail_request p ec s ac
      else onRequestComplete p (s\<lparr>m_response := getline buf\<rparr>) (upd_session_at p (\<lambda>s. s\<lparr>m_response := getline buf\<rparr>) ac))"

definition cancelRequest :: "u32 \<Rightarrow> async_client \<Rightarrow> async_client" where
  "cancelRequest request_id ac =
     (case m_active_sessions ac (sint request_id) of
        None \<Rightarrow> ac
      | Some p \<Rightarrow> (upd_session_at p (\<lambda>s. s\<lparr>m_was_cancelled := True\<rparr>) ac)\<lparr>cancel_calls := cancel_calls ac @ [p]\<rparr>)"

section \<open>Runs\<close>

text \<open>A call of the user, or the end of the operation of session \<open>p\<close> with a code and, for a read,
  what it has put in the buffer.\<close>

datatype request_event =
    Request u32 u32
  | Cancel u32
  | OpDone nat error_code string

definition op_done :: "nat \<Rightarrow> error_code \<Rightarrow> string \<Rightarrow> async_client \<Rightarrow> async_client" where
  "op_done p ec buf ac =
     (case (in_progress ac p, req_sessions ac p) of
        (Some op, Some s) \<Rightarrow>
          let ac = ac\<lparr>in_progress := (in_progress ac)(p := None)\<rparr>
          in (case op of
                OpConnect \<Rightarrow> request_connected p ec s ac
              | OpWrite _ \<Rightarrow> request_written p ec s ac
              | OpReadUntil \<Rightarrow> response_read p ec buf s ac)
      | _ \<Rightarrow> ac)"

fun request_exec :: "request_event \<Rightarrow> async_client \<Rightarrow> async_client result" where
  "request_exec (Request d i) ac = emulateLongComputationOp True d i ac"
| "request_exec (Cancel i) ac = Inr (cancelRequest i ac)"
| "request_exec (OpDone p ec buf) ac = Inr (op_done p ec buf ac)"

abbreviation request_run :: "request_event list \<Rightarrow> async_client \<Rightarrow> async_client result" where
  "request_run \<equiv> run_events request_exec"

text \<open>\<open>close\<close> waits for the I/O thread, which ends once there is neither work nor an operation;
  \<open>during\<close> is what that thread does meanwhile.\<close>

definition async_close :: "request_event list \<Rightarrow> async_client \<Rightarrow> async_client result" where
  "async_close during ac =
     rbind (request_run during (ac\<lparr>m_work := False\<rparr>)) (\<lambda>ac.
       if (\<forall>p < next_session ac. in_progress ac p = None) then Inr ac else Inl Blocked)"

text \<open>The callback of the example.\<close>

datatype verdict = Completed u32 string | CancelledByUser u32 | RequestFailed u32 nat

definition handler_output :: "nat \<times> u32 \<times> string \<times> error_code \<Rightarrow> verdict" where
  "handler_output c = (case c of (p, request_id, response, ec) \<Rightarrow>
     (case ec of Success \<Rightarrow> Completed request_id response
      | OperationAborted \<Rightarrow> CancelledByUser request_id
      | OtherError n \<Rightarrow> RequestFailed request_id n))"

section \<open>What a completion does\<close>

text \<open>Either the session's next operation starts, or the session completes: it is shut down, leaves
  the map and calls back.\<close>

definition completes :: "nat \<Rightarrow> session \<Rightarrow> async_client \<Rightarrow> async_client" where
  "completes p s ac = ac\<lparr>req_sessions := (req_sessions ac)(p \<mapsto> s\<lparr>m_shutdown := True\<rparr>),
     m_active_sessions := (m_active_sessions ac)(sint (m_id s) := None),
     in_progress := (in_progress ac)(p := None),
     callbacks := callbacks ac @ [(p, m_id s, m_response s, completion_code s)]\<rparr>"

fun stages_left :: "request_op option \<Rightarrow> nat" where
  "stages_left None = 0"
| "stages_left (Some OpReadUntil) = 1"
| "stages_left (Some (OpWrite _)) = 2"
| "stages_left (Some OpConnect) = 3"

lemma stages_left_0 [simp]: "stages_left x = 0 \<longleftrightarrow> x = None"
  by (cases x rule: stages_left.cases) simp_all

lemma onRequestComplete_eq:
  assumes "req_sessions ac p = Some s0" "\<And>b. s0\<lparr>m_shutdown := b\<rparr> = s\<lparr>m_shutdown := b\<rparr>"
  shows "onRequestComplete p s (ac\<lparr>in_progress := (in_progress ac)(p := None)\<rparr>) = completes p s ac"
  using assms by (simp add: onRequestComplete_def completes_def upd_session_at_def Let_def fun_upd_idem)

lemma upd_session_frame:
  "in_progress (upd_session_at p f ac) = in_progress ac" "m_active_sessions (upd_session_at p f ac) = m_active_sessions ac"
  "callbacks (upd_session_at p f ac) = callbacks ac" "next_session (upd_session_at p f ac) = next_session ac"
  "req_sessions (upd_session_at p f ac) = (req_sessions ac)(p := map_option f (req_sessions ac p))"
  by (simp_all add: upd_session_at_def)

lemma onRequestComplete_upd:
  assumes "req_sessions ac p = Some s"
  shows "onRequestComplete p (f s) (upd_session_at p f (ac\<lparr>in_progress := (in_progress ac)(p := None)\<rparr>)) = completes p (f s) ac"
  using assms by (simp add: onRequestComplete_def completes_def upd_session_at_def Let_def fun_upd_idem)

definition finished_session :: "request_op \<Rightarrow> error_code \<Rightarrow> string \<Rightarrow> session \<Rightarrow> session" where
  "finished_session op ec buf s =
     (if ec \<noteq> Success then s\<lparr>m_ec := ec\<rparr>
      else case op of OpReadUntil \<Rightarrow> s\<lparr>m_response := getline buf\<rparr> | _ \<Rightarrow> s)"

fun goes_on :: "request_op \<Rightarrow> session \<Rightarrow> request_op option" where
  "goes_on OpConnect s = (if m_was_cancelled s then None else Some (OpWrite (m_request s)))"
| "goes_on (OpWrite _) s = (if m_was_cancelled s then None else Some OpReadUntil)"
| "goes_on OpReadUntil s = None"

lemma op_done_eq:
  assumes "in_progress ac p = Some op" "req_sessions ac p = Some s"
  shows "op_done p ec buf ac =
    (case (if ec = Success then goes_on op s else None) of
       Some op' \<Rightarrow> ac\<lparr>in_progress := (in_progress ac)(p \<mapsto> op')\<rparr>
     | None \<Rightarrow> completes p (finished_session op ec buf s) ac)"
proof -
  note up = onRequestComplete_upd [OF assms(2)]
  show ?thesis using assms up [of "\<lambda>s. s\<lparr>m_ec := ec\<rparr>"] up [of "\<lambda>s. s\<lparr>m_response := getline buf\<rparr>"]
      onRequestComplete_eq [OF assms(2), of s]
    by (cases op) (simp_all add: op_done_def finished_session_def fail_request_def request_connected_def
        request_written_def response_read_def start_request_op_def)
qed

lemma op_done_none: "in_progress ac p = None \<or> req_sessions ac p = None \<Longrightarrow> op_done p ec buf ac = ac"
  by (auto simp: op_done_def split: option.splits)

section \<open>The invariant\<close>

text \<open>Sessions below the counter exist; each has an operation or has called back, once, with what
  the session then held, which has not changed since; and the map only has sessions with an
  operation, under their identifier.\<close>

definition sessions_ok :: "async_client \<Rightarrow> bool" where
  "sessions_ok ac \<longleftrightarrow> (\<forall>p. req_sessions ac p \<noteq> None \<longleftrightarrow> p < next_session ac)
     \<and> (\<forall>p. in_progress ac p \<noteq> None \<longrightarrow> p < next_session ac)"

definition answers_ok :: "async_client \<Rightarrow> bool" where
  "answers_ok ac \<longleftrightarrow> distinct (map fst (callbacks ac))
     \<and> (\<forall>p. p \<in> set (map fst (callbacks ac)) \<longleftrightarrow> p < next_session ac \<and> in_progress ac p = None)
     \<and> (\<forall>p i r ec s. (p, i, r, ec) \<in> set (callbacks ac) \<longrightarrow> req_sessions ac p = Some s \<longrightarrow>
          i = m_id s \<and> r = m_response s \<and> ec = completion_code s)
     \<and> (\<forall>p s. in_progress ac p \<noteq> None \<longrightarrow> req_sessions ac p = Some s \<longrightarrow> m_ec s = Success \<and> m_response s = '''')"

definition actives_ok :: "async_client \<Rightarrow> bool" where
  "actives_ok ac \<longleftrightarrow> (\<forall>k p. m_active_sessions ac k = Some p \<longrightarrow>
     in_progress ac p \<noteq> None \<and> (\<exists>s. req_sessions ac p = Some s \<and> k = sint (m_id s)))"

definition request_inv :: "async_client \<Rightarrow> bool" where
  "request_inv ac \<longleftrightarrow> sessions_ok ac \<and> answers_ok ac \<and> actives_ok ac"

lemmas request_inv_defs = request_inv_def sessions_ok_def answers_ok_def actives_ok_def

lemma request_inv_new: "request_inv new_async_client"
  by (simp add: request_inv_defs new_async_client_def)

lemma request_inv_session:
  assumes "request_inv ac" "p < next_session ac"
  shows "\<exists>s. req_sessions ac p = Some s"
  using assms by (simp add: request_inv_defs)

lemma request_inv_start:
  assumes "request_inv ac" "in_progress ac p = Some op"
  shows "request_inv (ac\<lparr>in_progress := (in_progress ac)(p \<mapsto> op')\<rparr>)"
  using assms by (auto simp: request_inv_defs)

lemma completion_code_shutdown [simp]: "completion_code (s\<lparr>m_shutdown := b\<rparr>) = completion_code s"
  by (simp add: completion_code_def)

lemma answered_not_in_progress:
  assumes "request_inv ac" "(q, i, r, ec) \<in> set (callbacks ac)"
  shows "q < next_session ac \<and> in_progress ac q = None"
proof -
  from assms(2) have "q \<in> set (map fst (callbacks ac))" by force
  with assms(1) show ?thesis by (auto simp: request_inv_defs)
qed

lemma answers_okI:
  assumes "distinct (map fst (callbacks ac))"
    and "\<And>p. p \<in> set (map fst (callbacks ac)) \<longleftrightarrow> p < next_session ac \<and> in_progress ac p = None"
    and "\<And>p i r ec s. (p, i, r, ec) \<in> set (callbacks ac) \<Longrightarrow> req_sessions ac p = Some s \<Longrightarrow>
          i = m_id s \<and> r = m_response s \<and> ec = completion_code s"
    and "\<And>p s. in_progress ac p \<noteq> None \<Longrightarrow> req_sessions ac p = Some s \<Longrightarrow> m_ec s = Success \<and> m_response s = ''''"
  shows "answers_ok ac"
  using assms unfolding answers_ok_def by blast

lemma answersD:
  assumes "request_inv ac"
  shows "distinct (map fst (callbacks ac))"
    and "p \<in> set (map fst (callbacks ac)) \<longleftrightarrow> p < next_session ac \<and> in_progress ac p = None"
    and "(p, i, r, ec) \<in> set (callbacks ac) \<Longrightarrow> req_sessions ac p = Some s \<Longrightarrow>
          i = m_id s \<and> r = m_response s \<and> ec = completion_code s"
    and "in_progress ac p \<noteq> None \<Longrightarrow> req_sessions ac p = Some s \<Longrightarrow> m_ec s = Success \<and> m_response s = ''''"
  using assms unfolding request_inv_def answers_ok_def by blast+

lemma request_inv_completes:
  assumes "request_inv ac" "in_progress ac p = Some op" "req_sessions ac p = Some s" "m_id s' = m_id s"
  shows "request_inv (completes p s' ac)"
proof -
  have p: "p < next_session ac" "p \<notin> set (map fst (callbacks ac))"
    using assms(1,2) by (auto simp: request_inv_defs)
  have "sessions_ok (completes p s' ac)"
    using assms(1) p by (auto simp: request_inv_def sessions_ok_def completes_def)
  moreover have "answers_ok (completes p s' ac)"
  proof (rule answers_okI)
    show "distinct (map fst (callbacks (completes p s' ac)))"
      using answersD(1) [OF assms(1)] p(2) by (simp add: completes_def)
    show "q \<in> set (map fst (callbacks (completes p s' ac)))
        \<longleftrightarrow> q < next_session (completes p s' ac) \<and> in_progress (completes p s' ac) q = None" for q
      using answersD(2) [OF assms(1), of q] p(1) by (auto simp: completes_def)
  next
    fix q i r ec t
    assume "(q, i, r, ec) \<in> set (callbacks (completes p s' ac))" "req_sessions (completes p s' ac) q = Some t"
    then show "i = m_id t \<and> r = m_response t \<and> ec = completion_code t"
      using answersD(3) [OF assms(1), of q i r ec t] answered_not_in_progress [OF assms(1), of q i r ec] assms(2)
      by (cases "q = p") (auto simp: completes_def)
  next
    fix q t
    assume "in_progress (completes p s' ac) q \<noteq> None" "req_sessions (completes p s' ac) q = Some t"
    then show "m_ec t = Success \<and> m_response t = ''''"
      using answersD(4) [OF assms(1), of q t] by (auto simp: completes_def split: if_splits)
  qed
  moreover have "actives_ok (completes p s' ac)"
    using assms by (fastforce simp: request_inv_def actives_ok_def completes_def split: if_splits)
  ultimately show ?thesis by (simp add: request_inv_def)
qed

lemma request_inv_request:
  assumes "request_inv ac"
  shows "\<exists>ac'. emulateLongComputationOp True d i ac = Inr ac' \<and> request_inv ac'"
proof -
  obtain ac' where ac': "emulateLongComputationOp True d i ac = Inr ac'"
    by (simp add: emulateLongComputationOp_def Let_def)
  note def = ac' [unfolded emulateLongComputationOp_def start_request_op_def new_request_session_def Let_def, simplified]
  have "sessions_ok ac'"
    using assms def by (auto simp: request_inv_def sessions_ok_def less_Suc_eq) metis+
  moreover have "answers_ok ac'"
  proof (rule answers_okI)
    show "distinct (map fst (callbacks ac'))" using answersD(1) [OF assms] def by auto
    show "q \<in> set (map fst (callbacks ac')) \<longleftrightarrow> q < next_session ac' \<and> in_progress ac' q = None" for q
      using answersD(2) [OF assms, of q] def by (auto simp: less_Suc_eq)
  next
    fix q j r ec t
    assume "(q, j, r, ec) \<in> set (callbacks ac')" "req_sessions ac' q = Some t"
    then show "j = m_id t \<and> r = m_response t \<and> ec = completion_code t"
      using answersD(3) [OF assms, of q j r ec t] answered_not_in_progress [OF assms, of q j r ec] def
      by (cases "q = next_session ac") auto
  next
    fix q t
    assume "in_progress ac' q \<noteq> None" "req_sessions ac' q = Some t"
    then show "m_ec t = Success \<and> m_response t = ''''"
      using answersD(4) [OF assms, of q t] def by (auto split: if_splits)
  qed
  moreover have "m_active_sessions ac k \<noteq> Some (next_session ac)" for k
    using assms unfolding request_inv_defs by (metis less_irrefl)
  then have "actives_ok ac'"
    using assms def by (auto simp: request_inv_def actives_ok_def split: if_splits)
  ultimately show ?thesis using ac' by (simp add: request_inv_def)
qed

lemma request_inv_cancel:
  assumes "request_inv ac"
  shows "request_inv (cancelRequest i ac)"
proof (cases "m_active_sessions ac (sint i)")
  case (Some p)
  then have p: "in_progress ac p \<noteq> None" "p < next_session ac"
    using assms by (auto simp: request_inv_defs)
  note def = cancelRequest_def upd_session_frame
  have "sessions_ok (cancelRequest i ac)"
    using assms Some p by (auto simp: def request_inv_def sessions_ok_def)
  moreover have "answers_ok (cancelRequest i ac)"
  proof (rule answers_okI)
    show "distinct (map fst (callbacks (cancelRequest i ac)))" using answersD(1) [OF assms] Some by (simp add: def)
    show "q \<in> set (map fst (callbacks (cancelRequest i ac)))
        \<longleftrightarrow> q < next_session (cancelRequest i ac) \<and> in_progress (cancelRequest i ac) q = None" for q
      using answersD(2) [OF assms, of q] Some by (simp add: def)
  next
    fix q j r ec t
    assume "(q, j, r, ec) \<in> set (callbacks (cancelRequest i ac))" "req_sessions (cancelRequest i ac) q = Some t"
    then show "j = m_id t \<and> r = m_response t \<and> ec = completion_code t"
      using answersD(3) [OF assms, of q j r ec t] answered_not_in_progress [OF assms, of q j r ec] Some p
      by (cases "q = p") (auto simp: def)
  next
    fix q t
    assume "in_progress (cancelRequest i ac) q \<noteq> None" "req_sessions (cancelRequest i ac) q = Some t"
    then show "m_ec t = Success \<and> m_response t = ''''"
      using answersD(4) [OF assms, of q] Some by (auto simp: def split: if_splits)
  qed
  moreover have "actives_ok (cancelRequest i ac)"
    using assms Some p by (fastforce simp: def request_inv_def actives_ok_def)
  ultimately show ?thesis by (simp add: request_inv_def)
qed (use assms in \<open>simp add: cancelRequest_def\<close>)

lemma request_inv_done:
  assumes "request_inv ac"
  shows "request_inv (op_done p ec buf ac)"
proof (cases "in_progress ac p = None \<or> req_sessions ac p = None")
  case False
  then obtain op s where "in_progress ac p = Some op" "req_sessions ac p = Some s" by auto
  moreover have "m_id (finished_session op ec buf s) = m_id s"
    by (simp add: finished_session_def split: request_op.split)
  ultimately show ?thesis
    using request_inv_start [OF assms] request_inv_completes [OF assms]
    by (auto simp: op_done_eq split: option.split)
qed (simp add: op_done_none assms)

lemma request_exec_inv: "request_inv ac \<Longrightarrow> \<exists>ac'. request_exec e ac = Inr ac' \<and> request_inv ac'"
  using request_inv_request request_inv_cancel request_inv_done by (cases e) simp_all

lemma request_run_inv: "request_inv ac \<Longrightarrow> \<exists>ac'. request_run es ac = Inr ac' \<and> request_inv ac'"
  using run_events_inv [of request_inv request_exec] request_exec_inv by blast

section \<open>Cancelled sessions\<close>

text \<open>A session in the map is marked by \<open>cancelRequest\<close>, and no event takes the mark back.\<close>

definition marked :: "u32 \<Rightarrow> nat \<Rightarrow> async_client \<Rightarrow> bool" where
  "marked i p ac \<longleftrightarrow> (\<exists>s. req_sessions ac p = Some s \<and> m_was_cancelled s \<and> m_id s = i)"

lemma marked_keep:
  assumes "marked i p ac" "request_inv ac" "request_exec e ac = Inr ac'"
  shows "marked i p ac'"
proof -
  from assms(1) obtain s where s: "req_sessions ac p = Some s" "m_was_cancelled s" "m_id s = i" by (auto simp: marked_def)
  with assms(2) have less: "p < next_session ac" by (auto simp: request_inv_defs)
  show ?thesis
  proof (cases e)
    case (Request d j)
    with assms(3) s less show ?thesis
      by (auto simp: marked_def emulateLongComputationOp_def start_request_op_def Let_def)
  next
    case (Cancel j)
    with assms(3) s show ?thesis
      by (auto simp: marked_def cancelRequest_def upd_session_frame split: option.splits)
  next
    case (OpDone q ec buf)
    show ?thesis
    proof (cases "in_progress ac q = None \<or> req_sessions ac q = None")
      case True
      with OpDone assms(1,3) show ?thesis by (simp add: op_done_none)
    next
      case False
      then obtain op t where t: "in_progress ac q = Some op" "req_sessions ac q = Some t" by auto
      have "m_was_cancelled (finished_session op ec buf t) = m_was_cancelled t \<and> m_id (finished_session op ec buf t) = m_id t"
        by (simp add: finished_session_def split: request_op.split)
      with OpDone assms(3) s t show ?thesis
        by (auto simp: op_done_eq marked_def completes_def split: option.splits)
    qed
  qed
qed

lemma marked_run:
  "marked i p ac \<Longrightarrow> request_inv ac \<Longrightarrow> request_run es ac = Inr ac' \<Longrightarrow> marked i p ac' \<and> request_inv ac'"
proof (induction es arbitrary: ac)
  case (Cons e es)
  then obtain a where "request_exec e ac = Inr a" "request_run es a = Inr ac'" by auto
  with Cons marked_keep request_exec_inv [of ac e] show ?case by fastforce
qed simp

section \<open>Progress\<close>

fun is_done :: "nat \<Rightarrow> request_event \<Rightarrow> bool" where
  "is_done p (OpDone q _ _) \<longleftrightarrow> q = p"
| "is_done p _ \<longleftrightarrow> False"

text \<open>Every completion of a session brings its end closer, whatever the other sessions do.\<close>

lemma stages_step:
  assumes "request_inv ac" "p < next_session ac" "request_exec e ac = Inr ac'"
  shows "p < next_session ac'
    \<and> stages_left (in_progress ac' p) \<le> stages_left (in_progress ac p) - (if is_done p e then 1 else 0)"
proof (cases e)
  case (Request d i)
  with assms(2,3) show ?thesis
    by (auto simp: emulateLongComputationOp_def start_request_op_def Let_def)
next
  case (Cancel i)
  with assms(2,3) show ?thesis
    by (auto simp: cancelRequest_def upd_session_frame split: option.splits)
next
  case (OpDone q ec buf)
  show ?thesis
  proof (cases "in_progress ac q = None \<or> req_sessions ac q = None")
    case True
    with OpDone assms request_inv_session [OF assms(1,2)] show ?thesis by (auto simp: op_done_none)
  next
    case False
    then obtain op t where t: "in_progress ac q = Some op" "req_sessions ac q = Some t" by auto
    have less: "goes_on op t = Some op' \<Longrightarrow> stages_left (Some op') \<le> stages_left (Some op) - 1" for op'
      by (cases op) (auto split: if_splits)
    from OpDone assms(2,3) t less show ?thesis
      by (cases "q = p") (auto simp: op_done_eq completes_def split: option.splits if_splits)
  qed
qed

interpretation request_life: one_shot request_exec "\<lambda>ac. request_inv ac \<and> p < next_session ac"
  "\<lambda>ac. stages_left (in_progress ac p)" "\<lambda>ac. count_list (map fst (callbacks ac)) p" "\<lambda>e _. is_done p e" for p
proof
  fix ac e assume ac: "request_inv ac \<and> p < next_session ac"
  with request_exec_inv [of ac e] obtain ac' where "request_exec e ac = Inr ac'" "request_inv ac'" by blast
  with stages_step [of ac p e ac'] ac
  show "\<exists>ac'. request_exec e ac = Inr ac' \<and> (request_inv ac' \<and> p < next_session ac')
      \<and> stages_left (in_progress ac' p) \<le> stages_left (in_progress ac p) - (if is_done p e then 1 else 0)" by simp
  show "count_list (map fst (callbacks ac)) p = (if stages_left (in_progress ac p) = 0 then 1 else 0)"
    using ac answersD(1) [of ac] answersD(2) [of ac p] by (auto simp: count_list_distinct)
qed

section \<open>Properties\<close>

text \<open>C15: every request is answered once. Whatever is requested and cancelled and however the
  operations end, in any order, each session either has exactly one operation in progress or has
  had its callback called exactly once, with its own identifier, with a success only if it was
  not cancelled and otherwise with the aborted code or the code of the failed operation; three
  completions of its operations are always enough.\<close>

theorem requests_answered_once:
  "\<exists>ac. request_run es new_async_client = Inr ac \<and> distinct (map fst (callbacks ac))
     \<and> (\<forall>p < next_session ac. in_progress ac p = None \<longleftrightarrow> p \<in> set (map fst (callbacks ac)))
     \<and> (\<forall>p i r ec. (p, i, r, ec) \<in> set (callbacks ac) \<longrightarrow>
          (\<exists>s. req_sessions ac p = Some s \<and> i = m_id s \<and> r = m_response s \<and> ec = completion_code s))
     \<and> (\<forall>p < next_session ac. \<forall>fs ac'. request_run fs ac = Inr ac' \<longrightarrow> 3 \<le> length (filter (is_done p) fs)
          \<longrightarrow> p \<in> set (map fst (callbacks ac')))"
proof -
  obtain ac where ac: "request_run es new_async_client = Inr ac" "request_inv ac"
    using request_run_inv [OF request_inv_new] by blast
  have "p \<in> set (map fst (callbacks ac'))"
    if p: "p < next_session ac" and run: "request_run fs ac = Inr ac'" "3 \<le> length (filter (is_done p) fs)" for p fs ac'
  proof -
    have "stages_left (in_progress ac p) \<le> 3" by (cases "in_progress ac p" rule: stages_left.cases) simp_all
    moreover have "effective request_exec (\<lambda>e _. is_done p e) fs ac = length (filter (is_done p) fs)"
      by (rule effective_const [OF run(1)])
    ultimately have "count_list (map fst (callbacks ac')) p = 1"
      using request_life.run_answers [of ac p fs] ac(2) p run by auto
    then show ?thesis by (metis count_list_0_iff zero_neq_one)
  qed
  moreover have "\<exists>s. req_sessions ac p = Some s \<and> i = m_id s \<and> r = m_response s \<and> ec = completion_code s"
    if "(p, i, r, ec) \<in> set (callbacks ac)" for p i r ec
    using answersD(3) [OF ac(2) that] answered_not_in_progress [OF ac(2) that] request_inv_session [OF ac(2)] by blast
  ultimately show ?thesis using ac(1) answersD(1,2) [OF ac(2)] by blast
qed

theorem requests_answered_once_witness:
  "\<exists>ac. request_run [Request 10 1, OpDone 0 Success '''', OpDone 0 Success '''', OpDone 0 Success (''Hi'' @ [CHR 0x0A])]
       new_async_client = Inr ac \<and> callbacks ac = [(0, 1, ''Hi'', Success)] \<and> in_progress ac 0 = None"
proof -
  let ?es = "[Request 10 1, OpDone 0 Success '''', OpDone 0 Success '''', OpDone 0 Success (''Hi'' @ [CHR 0x0A])]"
  obtain ac where ac: "request_run ?es new_async_client = Inr ac" "callbacks ac = [(0, 1, ''Hi'', Success)]"
    "next_session ac = 1"
    by (simp add: emulateLongComputationOp_def start_request_op_def new_async_client_def op_done_eq completes_def
        finished_session_def new_request_session_def completion_code_def getline_def Let_def)
  from requests_answered_once [of ?es] obtain ac' where "request_run ?es new_async_client = Inr ac'"
    "\<forall>p < next_session ac'. in_progress ac' p = None \<longleftrightarrow> p \<in> set (map fst (callbacks ac'))" by blast
  with ac have "in_progress ac 0 = None" by auto
  with ac show ?thesis by blast
qed

text \<open>C30: a cancelled request never succeeds. Once \<open>cancelRequest\<close> has found a request, its callback,
  if it comes, reports a failure under that identifier, even when every operation of the request
  ends well.\<close>

theorem cancelled_request_never_succeeds:
  assumes "request_run es new_async_client = Inr ac" "m_active_sessions ac (sint i) = Some p"
    and "request_run fs (cancelRequest i ac) = Inr ac'" "(p, j, r, ec) \<in> set (callbacks ac')"
  shows "j = i \<and> ec \<noteq> Success"
proof -
  from request_run_inv [OF request_inv_new, of es] assms(1) have inv: "request_inv ac" by auto
  with assms(2) obtain s where s: "req_sessions ac p = Some s" "sint i = sint (m_id s)"
    unfolding request_inv_def actives_ok_def by blast
  from s(2) have "m_id s = i" by (metis signed_word_eqI)
  with s(1) have "marked i p (cancelRequest i ac)"
    using assms(2) by (auto simp: marked_def cancelRequest_def upd_session_frame)
  from marked_run [OF this request_inv_cancel [OF inv] assms(3)] obtain t
    where "req_sessions ac' p = Some t" "m_was_cancelled t" "m_id t = i" "request_inv ac'" by (auto simp: marked_def)
  with answersD(3) [OF _ assms(4)] show ?thesis by (auto simp: completion_code_def split: if_splits)
qed

theorem cancelled_request_never_succeeds_witness:
  "\<exists>ac ac' j ec. request_run [Request 10 1] new_async_client = Inr ac
     \<and> request_run [OpDone 0 Success ''''] (cancelRequest 1 ac) = Inr ac'
     \<and> callbacks ac' = [(0, j, '''', ec)] \<and> ec \<noteq> Success"
proof -
  obtain ac where ac: "request_run [Request 10 1] new_async_client = Inr ac" "m_active_sessions ac (sint (1 :: u32)) = Some 0"
    "callbacks ac = []" "in_progress ac 0 = Some OpConnect" "req_sessions ac 0 = Some (new_request_session (request_text 10) 1)"
    by (simp add: emulateLongComputationOp_def start_request_op_def new_async_client_def Let_def)
  then obtain ac' j ec where ac': "request_run [OpDone 0 Success ''''] (cancelRequest 1 ac) = Inr ac'"
    "callbacks ac' = [(0, j, '''', ec)]"
    by (simp add: cancelRequest_def upd_session_frame op_done_eq completes_def finished_session_def new_request_session_def)
  with cancelled_request_never_succeeds [OF ac(1,2) ac'(1), of j "''''" ec] ac show ?thesis by auto
qed

text \<open>Identifiers that are used twice break cancellation. The map holds one session per
  identifier, and the end of any of them removes the entry, so when a second request is made
  under an identifier still in use and the first one ends, the second can no longer be cancelled
  although it is in progress.\<close>

lemma reused_identifier_cannot_be_cancelled:
  "\<exists>ac. request_run [Request 10 i, Request 11 i, OpDone 0 (OtherError n) xs] new_async_client = Inr ac
     \<and> in_progress ac 1 = Some OpConnect \<and> m_active_sessions ac (sint i) = None \<and> cancelRequest i ac = ac
     \<and> callbacks ac = [(0, i, '''', OtherError n)]"
  by (simp add: emulateLongComputationOp_def start_request_op_def new_async_client_def Let_def cancelRequest_def
      op_done_def request_connected_def fail_request_def onRequestComplete_def upd_session_at_def
      new_request_session_def completion_code_def)

text \<open>\<open>close\<close> returns exactly when every request has been answered.\<close>

lemma async_close_answers:
  assumes "request_inv ac" "async_close during ac = Inr ac'"
  shows "\<forall>p < next_session ac'. p \<in> set (map fst (callbacks ac'))"
proof -
  have "request_inv (ac\<lparr>m_work := False\<rparr>)" using assms(1) by (simp add: request_inv_defs)
  from request_run_inv [OF this, of during] assms(2) have "request_inv ac'" "\<forall>p < next_session ac'. in_progress ac' p = None"
    by (auto simp: async_close_def split: if_splits)
  with answersD(2) [of ac'] show ?thesis by simp
qed

end
