(* ===== verification/SampleMains.thy ===== *)
theory SampleMains
  imports PartialIO SocketCalls AsyncRequests
begin

text \<open>
  The \<open>main\<close> functions of \<open>sample_io_operations\<close>, which connect and then run a transfer of \<open>PartialIO\<close>;
  the two samples there that end a connection attempt (\<open>canceling_asyn_operations_deprecated.cpp\<close>)
  or read lines; and \<open>sample_basic/framework_basics/example.cpp\<close>, which prints whatever a web server
  sends until it is stopped.
\<close>

section \<open>Transfers\<close>

definition connecting :: "sock_call list" where
  "connecting = [FromString ''127.0.0.1'', OpenSocket TcpV4, ConnectTo local_server]"

text \<open>How the handler of \<open>main\<close> turns the end of the transfer into an exit code; \<open>thrown\<close> is the code of
  an exception of the transfer.\<close>

definition exit_code :: "int \<Rightarrow> 'a result \<Rightarrow> int result" where
  "exit_code thrown r =
     (case r of Inr _ \<Rightarrow> Inr 0
      | Inl e \<Rightarrow> (case e of Thrown _ \<Rightarrow> Inr thrown | _ \<Rightarrow> Inl e))"

definition after_calls :: "system \<Rightarrow> sock_call list \<Rightarrow> int result \<Rightarrow> int result" where
  "after_calls os cs r = (case throwing os cs no_sockets of Inl (ec, s) \<Rightarrow> Inr ec | Inr s \<Rightarrow> r)"

definition sync_read_main :: "system \<Rightarrow> int \<Rightarrow> completion list \<Rightarrow> string \<Rightarrow> string \<Rightarrow> int result" where
  "sync_read_main os thrown cs junk stream =
     after_calls os connecting (exit_code thrown (sync_readFromSocket cs junk stream))"

definition sync_write_main :: "system \<Rightarrow> int \<Rightarrow> completion list \<Rightarrow> int result" where
  "sync_write_main os thrown cs = after_calls os connecting (exit_code thrown (sync_writeToSocket cs))"

text \<open>The asynchronous programs run the context until nothing is left to do, and fall off the end of
  \<open>main\<close>, which returns 0.\<close>

definition ran_out :: "'s \<times> region option \<times> 'e \<Rightarrow> int result" where
  "ran_out r = (case r of (s, None, e) \<Rightarrow> Inr 0 | (s, Some _, e) \<Rightarrow> Inl Blocked)"

definition async_read_main :: "system \<Rightarrow> completion list \<Rightarrow> string \<Rightarrow> string \<Rightarrow> int result" where
  "async_read_main os cs junk stream =
     after_calls os connecting (ran_out (transfer_run move_read read_callback cs readFromSocket (junk, stream)))"

definition async_write_main :: "system \<Rightarrow> completion list \<Rightarrow> int result" where
  "async_write_main os cs =
     after_calls os connecting (ran_out (transfer_run (move_write ''Hello'') write_callback cs writeToSocket ''''))"

definition shutdown_client_main :: "system \<Rightarrow> int \<Rightarrow> bool \<Rightarrow> (duplex \<Rightarrow> string \<times> read_end) \<Rightarrow> int result" where
  "shutdown_client_main os thrown ec peer =
     after_calls os connecting (exit_code thrown (communicate ec peer fresh_duplex))"

text \<open>Constructing an acceptor with an endpoint opens, binds and listens. \<open>SOMAXCONN\<close> is the system's.\<close>

definition shutdown_server_main :: "int \<Rightarrow> system \<Rightarrow> int \<Rightarrow> bool \<Rightarrow> string \<times> read_end \<Rightarrow> int result" where
  "shutdown_server_main SOMAXCONN os thrown ec incoming =
     after_calls os [OpenAcceptor TcpV4, BindAcceptor any_tcp, Listen SOMAXCONN, Accept]
       (exit_code thrown (processRequest ec incoming fresh_duplex))"

text \<open>What \<open>read_until\<close> has put into the buffer, or that it has thrown.\<close>

definition readFromSocketDelim :: "string option \<Rightarrow> string result" where
  "readFromSocketDelim buf = (case buf of None \<Rightarrow> Inl (Thrown ''system_error'') | Some xs \<Rightarrow> Inr (getline xs))"

text \<open>A stream buffer written to and read from: the line read, and what stays in the buffer.\<close>

definition stream_buffer_main :: "string \<times> string" where
  "stream_buffer_main =
     (let buf = ''Message1'' @ [CHR 0x0A] @ ''Message2'';
          message1 = getline buf
      in (message1, drop (Suc (length message1)) buf))"

lemma after_calls_first_error:
  "after_calls os cs r = (if first_error os cs = 0 then r else Inr (first_error os cs))"
  using throwing_first_error [of os cs no_sockets] by (auto simp: after_calls_def split: sum.splits)

lemma transfer_run_None: "transfer_run move cb cs (s, None) e = (s, None, e)"
  by (cases cs) simp_all

text \<open>A failed transfer: the synchronous programs exit with its code, the asynchronous ones print it and
  exit with 0.\<close>

lemma failed_transfers:
  assumes "first_error os connecting = 0"
  shows "sync_read_main os thrown ((True, k) # cs) junk stream = Inr thrown"
    and "sync_write_main os thrown ((True, k) # cs) = Inr thrown"
    and "async_read_main os ((True, k) # cs) junk stream = Inr 0"
    and "async_write_main os ((True, k) # cs) = Inr 0"
  using assms
  by (simp_all add: sync_read_main_def sync_write_main_def async_read_main_def async_write_main_def
      after_calls_first_error exit_code_def sync_readFromSocket_def sync_writeToSocket_def MESSAGE_SIZE_def
      readFromSocket_def writeToSocket_def read_start_def write_start_def read_callback_def write_callback_def
      ran_out_def transfer_run_None split: list.split)

section \<open>Cancelling a connection attempt\<close>

datatype connect_end = Connects | ConnectAborted | ConnectFails int

datatype cancel_report = Silent | OperationCancelled | ErrorOccured int

definition connect_handler :: "connect_end \<Rightarrow> cancel_report" where
  "connect_handler ec =
     (case ec of Connects \<Rightarrow> Silent | ConnectAborted \<Rightarrow> OperationCancelled | ConnectFails n \<Rightarrow> ErrorOccured n)"

text \<open>The attempt may end during the pause (\<open>early\<close>); what is left of it then, \<open>cancel\<close> aborts.
  \<open>cancel_code\<close> is the code of the exception that \<open>cancel\<close> throws, if it does: unwinding then destroys
  the thread, which has not been joined. The result is the exit code and what the handler reported.\<close>

definition cancel_main :: "system \<Rightarrow> connect_end option \<Rightarrow> int \<Rightarrow> (int \<times> cancel_report) result" where
  "cancel_main os early cancel_code =
     (case throwing os [FromString ''127.0.0.1'', OpenSocket TcpV4] no_sockets of
        Inl (ec, s) \<Rightarrow> Inr (ec, Silent)
      | Inr s \<Rightarrow>
          if cancel_code \<noteq> 0 then Inl Terminated
          else (case early of
                  Some ec \<Rightarrow> Inr (0, connect_handler ec)
                | None \<Rightarrow> Inr (0, connect_handler ConnectAborted)))"

lemma cancel_main_reports:
  "first_error os [FromString ''127.0.0.1'', OpenSocket TcpV4] = 0 \<Longrightarrow>
   cancel_main os early 0 = Inr (0, case early of None \<Rightarrow> OperationCancelled | Some ec \<Rightarrow> connect_handler ec)"
  "first_error os [FromString ''127.0.0.1'', OpenSocket TcpV4] = 0 \<Longrightarrow> n \<noteq> 0 \<Longrightarrow> cancel_main os early n = Inl Terminated"
  by (auto simp: cancel_main_def first_error_def perform_def connect_handler_def Let_def split: option.splits if_splits)

section \<open>Grabbing some data\<close>

definition vBuffer_size :: nat where
  "vBuffer_size = 1 * 1024"

record grabber =
  vBuffer :: string
  grab_reading :: bool
  grab_output :: string

definition GrabSomeData :: "grabber \<Rightarrow> grabber" where
  "GrabSomeData g = g\<lparr>grab_reading := True\<rparr>"

definition newline :: char where
  "newline = CHR 0x0A"

text \<open>\<open>for(int i = 0; i < length; ++i) std::cout << vBuffer[i]\<close>\<close>

function print_from :: "string \<Rightarrow> nat \<Rightarrow> nat \<Rightarrow> string" where
  "print_from buf i len = (if i < len then buf ! i # print_from buf (Suc i) len else [])"
  by pat_completeness auto
termination
  by (relation "measure (\<lambda>(buf, i, len). len - i)") auto

declare print_from.simps [simp del]

text \<open>The bytes \<open>xs\<close> read are at the front of the buffer when the handler runs.\<close>

definition grab_done :: "bool \<Rightarrow> string \<Rightarrow> grabber \<Rightarrow> grabber" where
  "grab_done ec xs g =
     (let g = g\<lparr>vBuffer := memcpy_at 0 xs (vBuffer g), grab_reading := False\<rparr>
      in if \<not> ec then
           GrabSomeData (g\<lparr>grab_output := grab_output g @ [newline, newline] @ ''Read '' @ dec (length xs)
             @ '' bytes'' @ [newline, newline] @ print_from (vBuffer g) 0 (length xs)\<rparr>)
         else g)"

fun grab_run :: "(bool \<times> string) list \<Rightarrow> grabber \<Rightarrow> grabber" where
  "grab_run [] g = g"
| "grab_run ((ec, xs) # rs) g =
     grab_run rs (if grab_reading g \<and> length xs \<le> length (vBuffer g) then grab_done ec xs g else g)"

definition sRequest :: string where
  "sRequest = ''GET /index.html HTTP/1.1'' @ [CHR 0x0D, newline] @ ''Host: example.com'' @ [CHR 0x0D, newline]
     @ ''Connection: close'' @ [CHR 0x0D, newline, CHR 0x0D, newline]"

text \<open>\<open>open_ec\<close> and \<open>connect_ec\<close> are the ends of the two steps of \<open>connect\<close>, which opens the socket first,
  \<open>what\<close> is the message of an error; \<open>n\<close> is how much of the request \<open>write_some\<close> sent, and \<open>rs\<close> are the
  reads that end before the context is stopped. When the socket is not open the thread is not
  joined. The result is the exit code, the output, and what has been sent.\<close>

definition example_main ::
  "bool \<Rightarrow> bool \<Rightarrow> string \<Rightarrow> nat \<Rightarrow> (bool \<times> string) list \<Rightarrow> (int \<times> string \<times> string) result" where
  "example_main open_ec connect_ec what n rs =
     (let ec = (open_ec \<or> connect_ec);
          out = (if \<not> ec then ''Connected! '' @ [newline]
                 else ''Failed to connect to address : '' @ [newline] @ what @ [newline]);
          is_open = (\<not> open_ec)
      in if is_open then
           let g = GrabSomeData \<lparr>vBuffer = replicate vBuffer_size (CHR 0x00), grab_reading = False, grab_output = out\<rparr>;
               g = grab_run rs g
           in Inr (0, grab_output g, take n sRequest)
         else Inl Terminated)"

lemma print_from_drop: "len \<le> length buf \<Longrightarrow> print_from buf i len = drop i (take len buf)"
proof (induction buf i len rule: print_from.induct)
  case (1 buf i len)
  show ?case
  proof (cases "i < len")
    case True
    then have "drop i (take len buf) = buf ! i # drop (Suc i) (take len buf)"
      using 1(2) by (simp add: Cons_nth_drop_Suc [symmetric])
    then show ?thesis using 1 True by (simp add: print_from.simps [of buf i])
  qed (simp add: print_from.simps)
qed

definition read_report :: "string \<Rightarrow> string" where
  "read_report xs = [newline, newline] @ ''Read '' @ dec (length xs) @ '' bytes'' @ [newline, newline] @ xs"

lemma grab_done_output:
  "length xs \<le> length (vBuffer g) \<Longrightarrow> grab_output (grab_done False xs g) = grab_output g @ read_report xs"
  "length xs \<le> length (vBuffer g) \<Longrightarrow> length (vBuffer (grab_done ec xs g)) = length (vBuffer g)"
  "grab_reading (grab_done ec xs g) = (\<not> ec)"
  "grab_output (grab_done True xs g) = grab_output g"
  by (simp_all add: grab_done_def GrabSomeData_def read_report_def memcpy_at_def print_from_drop Let_def)

lemma grab_run_stopped: "\<not> grab_reading g \<Longrightarrow> grab_run rs g = g"
  by (induction rs g rule: grab_run.induct) auto

text \<open>Everything read before the first error is printed, in order and complete.\<close>

lemma grab_run_output:
  "grab_reading g \<Longrightarrow> \<forall>r \<in> set rs. length (snd r) \<le> length (vBuffer g) \<Longrightarrow>
   grab_output (grab_run rs g) = grab_output g @ concat (map (\<lambda>r. read_report (snd r)) (takeWhile (\<lambda>r. \<not> fst r) rs))"
proof (induction rs arbitrary: g)
  case (Cons r rs)
  obtain ec xs where r: "r = (ec, xs)" by (cases r)
  show ?case
  proof (cases ec)
    case True
    then show ?thesis using Cons.prems r by (simp add: grab_done_output grab_run_stopped)
  next
    case False
    have "grab_reading (grab_done False xs g)" "length (vBuffer (grab_done False xs g)) = length (vBuffer g)"
      using Cons.prems r by (simp_all add: grab_done_output)
    with Cons.IH [of "grab_done False xs g"] Cons.prems r False show ?thesis by (simp add: grab_done_output)
  qed
qed simp

lemma example_prints_what_it_reads:
  assumes "\<forall>r \<in> set rs. length (snd r) \<le> vBuffer_size"
  shows "example_main False False what n rs = Inr (0, ''Connected! '' @ [newline]
     @ concat (map (\<lambda>r. read_report (snd r)) (takeWhile (\<lambda>r. \<not> fst r) rs)), take n sRequest)"
  using grab_run_output [of "\<lparr>vBuffer = replicate vBuffer_size (CHR 0x00), grab_reading = True,
      grab_output = ''Connected! '' @ [newline]\<rparr>" rs] assms
  by (simp add: example_main_def GrabSomeData_def Let_def)

text \<open>A failed connection is reported, and the request is sent all the same; a socket that could not be
  opened ends the program.\<close>

lemma example_ignores_failed_connect:
  "example_main False True what n [] = Inr (0, ''Failed to connect to address : '' @ [newline] @ what @ [newline], take n sRequest)"
  "example_main True connect_ec what n rs = Inl Terminated"
  by (simp_all add: example_main_def GrabSomeData_def Let_def)

section \<open>Fixed-length buffers\<close>

text \<open>A buffer is a view of memory: where it starts, and how many bytes it has.\<close>

record buffer_view =
  view_start :: nat
  view_size :: nat

definition asio_buffer :: "nat \<Rightarrow> nat \<Rightarrow> buffer_view" where
  "asio_buffer data n = \<lparr>view_start = data, view_size = n\<rparr>"

text \<open>\<open>buf\<close> is where the allocator puts the array, and where the string keeps its characters.\<close>

definition BUF_SIZE_BYTES :: nat where
  "BUF_SIZE_BYTES = 20"

definition input_buffer_main :: "nat \<Rightarrow> int \<times> buffer_view" where
  "input_buffer_main buf = (let input_buf = asio_buffer buf BUF_SIZE_BYTES in (0, input_buf))"

definition output_buffer_main :: "nat \<Rightarrow> int \<times> buffer_view" where
  "output_buffer_main data =
     (let buf = ''Hello Loyio''; output_buf = asio_buffer data (length buf) in (0, output_buf))"

text \<open>The input view is the whole array, and the output view the characters of the string without the
  zero after them.\<close>

lemma buffer_mains:
  "input_buffer_main buf = (0, \<lparr>view_start = buf, view_size = 20\<rparr>)"
  "output_buffer_main data = (0, \<lparr>view_start = data, view_size = 11\<rparr>)"
  by (simp_all add: input_buffer_main_def output_buffer_main_def asio_buffer_def BUF_SIZE_BYTES_def)

end
