(* ===== verification/RequestLocks.thy ===== *)
theory RequestLocks
  imports Prelude
begin

text \<open>
  The locks of \<open>sample_implementing_client/asynchronous_tcp_client.cpp\<close>, lock by lock: the user's
  thread in \<open>emulateLongComputationOp\<close> and \<open>cancelRequest\<close>, and the I/O thread in the completion
  handlers and \<open>onRequestComplete\<close>. There is one mutex for the map of sessions and one per session.
  The user's thread takes the map's mutex and then a session's; the I/O thread, when it finds its
  session cancelled, takes them in the other order.
\<close>

section \<open>Threads and positions\<close>

datatype lock_thread = User | Io

text \<open>The user's thread, on the session \<open>p\<close> of an identifier.\<close>

datatype user_pc =
    UIdle
  | URequest nat     \<comment> \<open>in \<open>emulateLongComputationOp\<close>, about to lock \<open>m_active_sessions_guard\<close>\<close>
  | UInsert nat      \<comment> \<open>holds it, about to insert and unlock\<close>
  | UCancel nat      \<comment> \<open>in \<open>cancelRequest\<close>, about to lock \<open>m_active_sessions_guard\<close>\<close>
  | UFind nat        \<comment> \<open>holds it, about to look up\<close>
  | UMark nat        \<comment> \<open>found, holds it, about to lock the session's \<open>m_cancel_guard\<close>\<close>
  | UMarked nat      \<comment> \<open>holds both, has marked the session\<close>

text \<open>The I/O thread in a handler of session \<open>p\<close>; the flag of the last three says whether the
  handler holds the session's \<open>m_cancel_guard\<close>.\<close>

datatype io_pc =
    IoIdle
  | IoLock nat         \<comment> \<open>operation succeeded, about to lock the session's \<open>m_cancel_guard\<close>\<close>
  | IoTest nat         \<comment> \<open>holds it, about to test \<open>m_was_cancelled\<close>\<close>
  | IoStart nat        \<comment> \<open>holds it, starts the next operation and returns\<close>
  | IoComplete nat bool  \<comment> \<open>in \<open>onRequestComplete\<close>, about to lock \<open>m_active_sessions_guard\<close>\<close>
  | IoErase nat bool     \<comment> \<open>holds it, erases and unlocks\<close>
  | IoCallback nat bool  \<comment> \<open>calls back and returns\<close>

record lock_state =
  m_active_sessions_guard :: "lock_thread option"
  m_cancel_guard :: "nat \<Rightarrow> lock_thread option"
  was_cancelled :: "nat \<Rightarrow> bool"
  in_map :: "nat \<Rightarrow> bool"
  user_at :: user_pc
  io_at :: io_pc

definition locks_init :: lock_state where
  "locks_init = \<lparr>m_active_sessions_guard = None, m_cancel_guard = (\<lambda>_. None), was_cancelled = (\<lambda>_. False),
     in_map = (\<lambda>_. False), user_at = UIdle, io_at = IoIdle\<rparr>"

section \<open>Steps\<close>

text \<open>The next step of a thread that is inside a call; \<open>None\<close> while it waits for a mutex.\<close>

fun user_next :: "user_pc \<Rightarrow> lock_state \<Rightarrow> lock_state option" where
  "user_next UIdle s = None"
| "user_next (URequest p) s =
     (if m_active_sessions_guard s = None
      then Some (s\<lparr>m_active_sessions_guard := Some User, user_at := UInsert p\<rparr>) else None)"
| "user_next (UInsert p) s =
     Some (s\<lparr>in_map := (in_map s)(p := True), m_active_sessions_guard := None, user_at := UIdle\<rparr>)"
| "user_next (UCancel p) s =
     (if m_active_sessions_guard s = None
      then Some (s\<lparr>m_active_sessions_guard := Some User, user_at := UFind p\<rparr>) else None)"
| "user_next (UFind p) s =
     Some (if in_map s p then s\<lparr>user_at := UMark p\<rparr>
           else s\<lparr>m_active_sessions_guard := None, user_at := UIdle\<rparr>)"
| "user_next (UMark p) s =
     (if m_cancel_guard s p = None
      then Some (s\<lparr>m_cancel_guard := (m_cancel_guard s)(p := Some User),
                   was_cancelled := (was_cancelled s)(p := True), user_at := UMarked p\<rparr>) else None)"
| "user_next (UMarked p) s =
     Some (s\<lparr>m_cancel_guard := (m_cancel_guard s)(p := None), m_active_sessions_guard := None, user_at := UIdle\<rparr>)"

fun io_next :: "io_pc \<Rightarrow> lock_state \<Rightarrow> lock_state option" where
  "io_next IoIdle s = None"
| "io_next (IoLock p) s =
     (if m_cancel_guard s p = None
      then Some (s\<lparr>m_cancel_guard := (m_cancel_guard s)(p := Some Io), io_at := IoTest p\<rparr>) else None)"
| "io_next (IoTest p) s =
     Some (s\<lparr>io_at := (if was_cancelled s p then IoComplete p True else IoStart p)\<rparr>)"
| "io_next (IoStart p) s = Some (s\<lparr>m_cancel_guard := (m_cancel_guard s)(p := None), io_at := IoIdle\<rparr>)"
| "io_next (IoComplete p h) s =
     (if m_active_sessions_guard s = None
      then Some (s\<lparr>m_active_sessions_guard := Some Io, io_at := IoErase p h\<rparr>) else None)"
| "io_next (IoErase p h) s =
     Some (s\<lparr>in_map := (in_map s)(p := False), m_active_sessions_guard := None, io_at := IoCallback p h\<rparr>)"
| "io_next (IoCallback p h) s =
     Some (s\<lparr>m_cancel_guard := (if h then (m_cancel_guard s)(p := None) else m_cancel_guard s), io_at := IoIdle\<rparr>)"

text \<open>The user calls for any session; the I/O thread runs the handler of an operation that succeeded
  (\<open>IoLock\<close>), or of one that failed or was the session's last (\<open>IoComplete\<close> without the guard).\<close>

inductive lock_step :: "lock_state \<Rightarrow> lock_state \<Rightarrow> bool" where
  call_request: "user_at s = UIdle \<Longrightarrow> lock_step s (s\<lparr>user_at := URequest p\<rparr>)"
| call_cancel: "user_at s = UIdle \<Longrightarrow> lock_step s (s\<lparr>user_at := UCancel p\<rparr>)"
| run_success: "io_at s = IoIdle \<Longrightarrow> lock_step s (s\<lparr>io_at := IoLock p\<rparr>)"
| run_last: "io_at s = IoIdle \<Longrightarrow> lock_step s (s\<lparr>io_at := IoComplete p False\<rparr>)"
| user_moves: "user_next (user_at s) s = Some s' \<Longrightarrow> lock_step s s'"
| io_moves: "io_next (io_at s) s = Some s' \<Longrightarrow> lock_step s s'"

inductive locks_reachable :: "lock_state \<Rightarrow> bool" where
  locks_start: "locks_reachable locks_init"
| locks_next: "locks_reachable s \<Longrightarrow> lock_step s s' \<Longrightarrow> locks_reachable s'"

section \<open>Who holds what\<close>

fun user_has_map :: "user_pc \<Rightarrow> bool" where
  "user_has_map (UInsert _) = True"
| "user_has_map (UFind _) = True"
| "user_has_map (UMark _) = True"
| "user_has_map (UMarked _) = True"
| "user_has_map _ = False"

fun io_has_map :: "io_pc \<Rightarrow> bool" where
  "io_has_map (IoErase _ _) = True"
| "io_has_map _ = False"

fun io_has_session :: "io_pc \<Rightarrow> nat \<Rightarrow> bool" where
  "io_has_session (IoTest p) q = (q = p)"
| "io_has_session (IoStart p) q = (q = p)"
| "io_has_session (IoComplete p h) q = (h \<and> q = p)"
| "io_has_session (IoErase p h) q = (h \<and> q = p)"
| "io_has_session (IoCallback p h) q = (h \<and> q = p)"
| "io_has_session _ q = False"

definition locks_inv :: "lock_state \<Rightarrow> bool" where
  "locks_inv s \<longleftrightarrow>
     m_active_sessions_guard s =
       (if user_has_map (user_at s) then Some User else if io_has_map (io_at s) then Some Io else None)
     \<and> \<not> (user_has_map (user_at s) \<and> io_has_map (io_at s))
     \<and> m_cancel_guard s =
           (\<lambda>p. if user_at s = UMarked p then Some User else if io_has_session (io_at s) p then Some Io else None)
     \<and> (\<forall>p. user_at s = UMarked p \<longrightarrow> \<not> io_has_session (io_at s) p)
     \<and> (\<forall>p. io_at s = IoComplete p True \<longrightarrow> was_cancelled s p)"

lemma locks_inv_init: "locks_inv locks_init"
  by (simp add: locks_inv_def locks_init_def)

lemma locks_inv_user:
  assumes "locks_inv s" "user_next (user_at s) s = Some s'"
  shows "locks_inv s'"
proof (cases "user_at s")
  case (UMark p)
  with assms have "s' = s\<lparr>m_cancel_guard := (m_cancel_guard s)(p := Some User),
                   was_cancelled := (was_cancelled s)(p := True), user_at := UMarked p\<rparr>" "m_cancel_guard s p = None"
    by (auto split: if_splits)
  with UMark assms(1) show ?thesis by (auto simp: locks_inv_def fun_eq_iff split: if_splits)
next
  case (UMarked p)
  with assms show ?thesis by (auto simp: locks_inv_def fun_eq_iff)
qed (use assms in \<open>auto simp: locks_inv_def split: if_splits\<close>)

lemma locks_inv_io:
  assumes "locks_inv s" "io_next (io_at s) s = Some s'"
  shows "locks_inv s'"
proof (cases "io_at s")
  case (IoLock p)
  with assms have "s' = s\<lparr>m_cancel_guard := (m_cancel_guard s)(p := Some Io), io_at := IoTest p\<rparr>" "m_cancel_guard s p = None"
    by (auto split: if_splits)
  with IoLock assms(1) show ?thesis by (auto simp: locks_inv_def fun_eq_iff split: if_splits)
next
  case (IoTest p)
  with assms show ?thesis by (auto simp: locks_inv_def fun_eq_iff split: if_splits)
next
  case (IoStart p)
  with assms show ?thesis by (auto simp: locks_inv_def fun_eq_iff split: if_splits)
next
  case (IoCallback p h)
  with assms show ?thesis by (auto simp: locks_inv_def fun_eq_iff split: if_splits)
qed (use assms in \<open>auto simp: locks_inv_def split: if_splits\<close>)

lemma locks_inv_call:
  "locks_inv s \<Longrightarrow> user_at s = UIdle \<Longrightarrow> locks_inv (s\<lparr>user_at := URequest p\<rparr>)"
  "locks_inv s \<Longrightarrow> user_at s = UIdle \<Longrightarrow> locks_inv (s\<lparr>user_at := UCancel p\<rparr>)"
  "locks_inv s \<Longrightarrow> io_at s = IoIdle \<Longrightarrow> locks_inv (s\<lparr>io_at := IoLock p\<rparr>)"
  "locks_inv s \<Longrightarrow> io_at s = IoIdle \<Longrightarrow> locks_inv (s\<lparr>io_at := IoComplete p False\<rparr>)"
  by (simp_all add: locks_inv_def cong: if_cong)

lemma locks_inv_step:
  assumes "lock_step s s'" "locks_inv s"
  shows "locks_inv s'"
  using assms(1)
proof cases
  case user_moves
  with assms(2) show ?thesis by (rule locks_inv_user)
next
  case io_moves
  with assms(2) show ?thesis by (rule locks_inv_io)
qed (use assms(2) in \<open>simp_all only: locks_inv_call\<close>)

lemma locks_reachable_inv: "locks_reachable s \<Longrightarrow> locks_inv s"
  by (induction rule: locks_reachable.induct) (auto intro: locks_inv_init locks_inv_step)

section \<open>Deadlock\<close>

text \<open>A thread is inside a call and neither can move.\<close>

definition deadlocked :: "lock_state \<Rightarrow> bool" where
  "deadlocked s \<longleftrightarrow> (user_at s \<noteq> UIdle \<or> io_at s \<noteq> IoIdle)
     \<and> user_next (user_at s) s = None \<and> io_next (io_at s) s = None"

lemma deadlocked_shape:
  assumes "locks_inv s"
  shows "deadlocked s \<longleftrightarrow> (\<exists>p. user_at s = UMark p \<and> io_at s = IoComplete p True)"
  using assms
  by (cases "user_at s"; cases "io_at s") (auto simp: locks_inv_def deadlocked_def split: if_splits)

section \<open>Properties\<close>

text \<open>A schedule: session 0 is requested and cancelled; its operation ends well and the handler finds
  it cancelled; meanwhile the user cancels it again.\<close>

fun user_steps :: "nat \<Rightarrow> lock_state \<Rightarrow> lock_state option" where
  "user_steps 0 s = Some s"
| "user_steps (Suc n) s = (case user_next (user_at s) s of None \<Rightarrow> None | Some s' \<Rightarrow> user_steps n s')"

fun io_steps :: "nat \<Rightarrow> lock_state \<Rightarrow> lock_state option" where
  "io_steps 0 s = Some s"
| "io_steps (Suc n) s = (case io_next (io_at s) s of None \<Rightarrow> None | Some s' \<Rightarrow> io_steps n s')"

lemma steps_reachable:
  "locks_reachable s \<Longrightarrow> user_steps n s = Some s' \<Longrightarrow> locks_reachable s'"
  "locks_reachable s \<Longrightarrow> io_steps n s = Some s' \<Longrightarrow> locks_reachable s'"
  by (induction n arbitrary: s) (auto split: option.splits dest: locks_next [OF _ user_moves] locks_next [OF _ io_moves])

definition cancelled_twice :: lock_state where
  "cancelled_twice = locks_init\<lparr>m_active_sessions_guard := Some User, m_cancel_guard := (\<lambda>_. None)(0 := Some Io),
     was_cancelled := (\<lambda>_. False)(0 := True), in_map := (\<lambda>_. False)(0 := True),
     user_at := UMark 0, io_at := IoComplete 0 True\<rparr>"

lemma reachable_cancelled_twice: "locks_reachable cancelled_twice"
proof -
  have "locks_reachable (locks_init\<lparr>user_at := URequest 0\<rparr>)"
    by (rule locks_next [OF locks_start call_request]) (simp add: locks_init_def)
  from steps_reachable(1) [OF this, of 2]
  have "locks_reachable (locks_init\<lparr>in_map := (\<lambda>_. False)(0 := True)\<rparr>)"
    by (simp add: numeral_2_eq_2 locks_init_def)
  from locks_next [OF this call_cancel, of 0]
  have "locks_reachable (locks_init\<lparr>in_map := (\<lambda>_. False)(0 := True), user_at := UCancel 0\<rparr>)"
    by (simp add: locks_init_def)
  from steps_reachable(1) [OF this, of 4]
  have "locks_reachable (locks_init\<lparr>was_cancelled := (\<lambda>_. False)(0 := True), in_map := (\<lambda>_. False)(0 := True)\<rparr>)"
    by (simp add: numeral_eq_Suc locks_init_def)
  from locks_next [OF this run_success, of 0]
  have "locks_reachable (locks_init\<lparr>was_cancelled := (\<lambda>_. False)(0 := True), in_map := (\<lambda>_. False)(0 := True), io_at := IoLock 0\<rparr>)"
    by (simp add: locks_init_def)
  from steps_reachable(2) [OF this, of 2]
  have "locks_reachable (locks_init\<lparr>m_cancel_guard := (\<lambda>_. None)(0 := Some Io),
      was_cancelled := (\<lambda>_. False)(0 := True), in_map := (\<lambda>_. False)(0 := True), io_at := IoComplete 0 True\<rparr>)"
    by (simp add: numeral_2_eq_2 locks_init_def)
  from locks_next [OF this call_cancel, of 0]
  have "locks_reachable (locks_init\<lparr>m_cancel_guard := (\<lambda>_. None)(0 := Some Io),
      was_cancelled := (\<lambda>_. False)(0 := True), in_map := (\<lambda>_. False)(0 := True),
      user_at := UCancel 0, io_at := IoComplete 0 True\<rparr>)"
    by (simp add: locks_init_def)
  from steps_reachable(1) [OF this, of 2] show ?thesis
    by (simp add: numeral_2_eq_2 locks_init_def cancelled_twice_def)
qed

text \<open>C17: the client can deadlock. The handlers lock a session's mutex and then, in
  \<open>onRequestComplete\<close>, the map's; \<open>cancelRequest\<close> locks them in the other order. In every
  reachable state the two mutexes are held by the threads that are where they hold them, and the
  only states in which a thread is inside a call and none can move are those in which the I/O
  thread completes a session it found cancelled while the user's thread cancels that session
  again; such a state can be reached.\<close>

theorem request_locks_can_deadlock:
  "(\<forall>s. locks_reachable s \<longrightarrow> locks_inv s \<and>
      (deadlocked s \<longleftrightarrow> (\<exists>p. user_at s = UMark p \<and> io_at s = IoComplete p True \<and> was_cancelled s p)))
   \<and> (\<exists>s. locks_reachable s \<and> deadlocked s)"
proof (intro conjI allI impI)
  fix s assume "locks_reachable s"
  then show inv: "locks_inv s" by (rule locks_reachable_inv)
  show "deadlocked s \<longleftrightarrow> (\<exists>p. user_at s = UMark p \<and> io_at s = IoComplete p True \<and> was_cancelled s p)"
    using deadlocked_shape [OF inv] inv by (auto simp: locks_inv_def)
next
  show "\<exists>s. locks_reachable s \<and> deadlocked s"
    using reachable_cancelled_twice by (auto simp: deadlocked_def cancelled_twice_def)
qed

theorem request_locks_can_deadlock_witness:
  "deadlocked cancelled_twice \<and> was_cancelled cancelled_twice 0"
  using request_locks_can_deadlock [THEN conjunct1, rule_format, OF reachable_cancelled_twice]
  by (auto simp: cancelled_twice_def)

end
