(* ===== verification/AsyncMain.thy ===== *)
theory AsyncMain
  imports AsyncRequests "HOL-Library.Multiset"
begin

text \<open>
  \<open>main\<close> of \<open>sample_implementing_client/asynchronous_tcp_client.cpp\<close>: three requests under the identifiers
  1, 2 and 3, the first of which is cancelled after the second has been made, and then \<open>close\<close>. What
  the I/O thread does between the calls, while \<open>main\<close> sleeps, is an input.
\<close>

section \<open>The program\<close>

text \<open>The completions of the I/O thread.\<close>

definition completions :: "(nat \<times> error_code \<times> string) list \<Rightarrow> request_event list" where
  "completions ds = map (\<lambda>(p, ec, buf). OpDone p ec buf) ds"

text \<open>A request that throws leaves the \<open>try\<close> block, and the client is destroyed with its thread running,
  which ends the program before the exception is caught.\<close>

definition request_in_main :: "bool \<Rightarrow> u32 \<Rightarrow> u32 \<Rightarrow> async_client \<Rightarrow> async_client result" where
  "request_in_main opens duration_sec request_id ac =
     (case emulateLongComputationOp opens duration_sec request_id ac of Inl e \<Rightarrow> Inl Terminated | Inr ac \<Rightarrow> Inr ac)"

text \<open>What the callback has printed when \<open>main\<close> returns 0. The four pauses are those before the second
  request, before the third, before \<open>close\<close>, and in it.\<close>

definition async_main ::
  "bool \<times> bool \<times> bool \<Rightarrow> (nat \<times> error_code \<times> string) list \<times> (nat \<times> error_code \<times> string) list
     \<times> (nat \<times> error_code \<times> string) list \<times> (nat \<times> error_code \<times> string) list \<Rightarrow> verdict list result" where
  "async_main opens pauses =
     (case opens of (o1, o2, o3) \<Rightarrow> case pauses of (d1, d2, d3, d4) \<Rightarrow>
        rbind (request_in_main o1 10 1 new_async_client) (\<lambda>client.
        rbind (request_run (completions d1) client) (\<lambda>client.
        rbind (request_in_main o2 11 2 client) (\<lambda>client.
        let client = cancelRequest 1 client in
        rbind (request_run (completions d2) client) (\<lambda>client.
        rbind (request_in_main o3 12 3 client) (\<lambda>client.
        rbind (request_run (completions d3) client) (\<lambda>client.
        rbind (async_close (completions d4) client) (\<lambda>client.
          Inr (map handler_output (callbacks client))))))))))"

section \<open>Identifiers\<close>

text \<open>The sessions made so far, by identifier: requests are numbered in their order and keep theirs.\<close>

definition identifiers :: "async_client \<Rightarrow> u32 list" where
  "identifiers ac = map (\<lambda>p. case req_sessions ac p of None \<Rightarrow> 0 | Some s \<Rightarrow> m_id s) [0..<next_session ac]"

fun requested :: "request_event \<Rightarrow> u32 list" where
  "requested (Request d i) = [i]"
| "requested _ = []"

lemma identifiers_exec:
  assumes "request_inv ac" "request_exec e ac = Inr ac'"
  shows "identifiers ac' = identifiers ac @ requested e"
proof (cases e)
  case (Request d i)
  with assms show ?thesis
    by (auto simp: identifiers_def emulateLongComputationOp_def start_request_op_def new_request_session_def Let_def)
next
  case (Cancel i)
  with assms show ?thesis
    by (auto simp: identifiers_def cancelRequest_def upd_session_frame split: option.splits)
next
  case (OpDone q ec buf)
  show ?thesis
  proof (cases "in_progress ac q = None \<or> req_sessions ac q = None")
    case True
    with OpDone assms(2) show ?thesis by (simp add: op_done_none)
  next
    case False
    then obtain op t where t: "in_progress ac q = Some op" "req_sessions ac q = Some t" by auto
    have "m_id (finished_session op ec buf t) = m_id t" by (simp add: finished_session_def split: request_op.split)
    with OpDone assms(2) t show ?thesis
      by (auto simp: op_done_eq identifiers_def completes_def split: option.splits)
  qed
qed

lemma identifiers_run:
  "request_inv ac \<Longrightarrow> request_run es ac = Inr ac' \<Longrightarrow> identifiers ac' = identifiers ac @ concat (map requested es)"
proof (induction es arbitrary: ac)
  case (Cons e es)
  then obtain a where a: "request_exec e ac = Inr a" "request_run es a = Inr ac'" by auto
  with request_exec_inv [OF Cons.prems(1), of e] have "request_inv a" by auto
  with Cons.IH [OF this a(2)] identifiers_exec [OF Cons.prems(1) a(1)] show ?case by simp
qed simp

lemma requested_completions [simp]: "concat (map requested (completions ds)) = []"
  by (auto simp: completions_def)

section \<open>The run of main\<close>

definition main_events ::
  "(nat \<times> error_code \<times> string) list \<Rightarrow> (nat \<times> error_code \<times> string) list \<Rightarrow> (nat \<times> error_code \<times> string) list
   \<Rightarrow> request_event list" where
  "main_events d1 d2 d3 = Request 10 1 # completions d1 @ [Request 11 2, Cancel 1] @ completions d2
     @ [Request 12 3] @ completions d3"

lemma async_main_eq:
  "async_main (True, True, True) (d1, d2, d3, d4) =
     rbind (request_run (main_events d1 d2 d3) new_async_client) (\<lambda>client.
       rbind (async_close (completions d4) client) (\<lambda>client. Inr (map handler_output (callbacks client))))"
proof -
  have assoc: "rbind (rbind r f) g = rbind r (\<lambda>x. rbind (f x) g)"
    for r :: "async_client result" and f and g :: "async_client \<Rightarrow> verdict list result"
    by (cases r) simp_all
  have req: "request_in_main True d i ac = emulateLongComputationOp True d i ac" for d i ac
    by (simp add: request_in_main_def emulateLongComputationOp_def Let_def)
  show ?thesis by (simp add: async_main_def main_events_def run_events_append req assoc Let_def)
qed

fun verdict_id :: "verdict \<Rightarrow> u32" where
  "verdict_id (Completed i r) = i"
| "verdict_id (CancelledByUser i) = i"
| "verdict_id (RequestFailed i n) = i"

lemma verdict_id_output: "verdict_id (handler_output (p, i, r, ec)) = i"
  by (cases ec) (simp_all add: handler_output_def)

section \<open>What main reports\<close>

lemma inv_no_work: "request_inv (ac\<lparr>m_work := b\<rparr>) = request_inv ac" "identifiers (ac\<lparr>m_work := b\<rparr>) = identifiers ac"
  by (simp_all add: request_inv_defs identifiers_def)

text \<open>The client as it is when \<open>close\<close> has run the completions \<open>ds\<close>.\<close>

lemma main_client:
  obtains client closing where "request_run (main_events d1 d2 d3) new_async_client = Inr client"
    "request_run (completions d4) (client\<lparr>m_work := False\<rparr>) = Inr closing" "request_inv client" "request_inv closing"
    "identifiers client = [1, 2, 3]" "identifiers closing = [1, 2, 3]"
proof -
  obtain client where c: "request_run (main_events d1 d2 d3) new_async_client = Inr client" "request_inv client"
    using request_run_inv [OF request_inv_new] by blast
  moreover have "identifiers client = [1, 2, 3]"
    using identifiers_run [OF request_inv_new c(1)] by (simp add: main_events_def identifiers_def new_async_client_def)
  moreover obtain closing where "request_run (completions d4) (client\<lparr>m_work := False\<rparr>) = Inr closing" "request_inv closing"
    using request_run_inv [of "client\<lparr>m_work := False\<rparr>"] c(2) inv_no_work by blast
  moreover from calculation have "identifiers closing = [1, 2, 3]"
    using identifiers_run [of "client\<lparr>m_work := False\<rparr>" "completions d4" closing] inv_no_work by simp
  ultimately show thesis using that by blast
qed

lemma next_session_identifiers: "next_session ac = length (identifiers ac)"
  by (simp add: identifiers_def)

text \<open>Once nothing is in progress, the callbacks are one for each identifier.\<close>

lemma callbacks_identifiers:
  assumes inv: "request_inv ac" and idle: "\<forall>p < next_session ac. in_progress ac p = None"
  shows "mset (map (verdict_id \<circ> handler_output) (callbacks ac)) = mset (identifiers ac)"
proof -
  have ids: "map (verdict_id \<circ> handler_output) (callbacks ac) = map ((!) (identifiers ac)) (map fst (callbacks ac))"
    unfolding map_map
  proof (rule map_cong [OF refl])
    fix x assume "x \<in> set (callbacks ac)"
    moreover obtain p i r ec where x: "x = (p, i, r, ec)" by (cases x)
    ultimately have c: "(p, i, r, ec) \<in> set (callbacks ac)" by simp
    then have p: "p < next_session ac" using answersD(2) [OF inv, of p] by force
    then obtain s where s: "req_sessions ac p = Some s" using request_inv_session [OF inv] by blast
    then show "(verdict_id \<circ> handler_output) x = ((!) (identifiers ac) \<circ> fst) x"
      using answersD(3) [OF inv c s] p by (simp add: x verdict_id_output identifiers_def)
  qed
  have "p \<in> set (map fst (callbacks ac)) \<longleftrightarrow> p \<in> set [0..<next_session ac]" for p
    using answersD(2) [OF inv, of p] idle by (auto simp del: set_map)
  then have "set (map fst (callbacks ac)) = set [0..<next_session ac]" by blast
  then have "mset (map fst (callbacks ac)) = mset [0..<next_session ac]"
    using answersD(1) [OF inv] by (metis distinct_upt set_eq_iff_mset_eq_distinct)
  then have "mset (map ((!) (identifiers ac)) (map fst (callbacks ac))) = mset (map ((!) (identifiers ac)) [0..<next_session ac])"
    by (metis mset_map)
  then show ?thesis by (simp add: ids next_session_identifiers map_nth)
qed

text \<open>Three completions of each session in \<open>close\<close> are enough.\<close>

lemma enough_completions:
  assumes "request_inv ac" "p < next_session ac" "request_run (completions ds) ac = Inr ac'"
    and "3 \<le> length (filter (\<lambda>d. fst d = p) ds)"
  shows "in_progress ac' p = None"
proof -
  have "length (filter (is_done p) (completions ds)) = length (filter (\<lambda>d. fst d = p) ds)"
    by (induction ds) (auto simp: completions_def)
  then have "stages_left (in_progress ac p) \<le> effective request_exec (\<lambda>e _. is_done p e) (completions ds) ac"
    using assms(4) effective_const [OF assms(3), of "is_done p"]
    by (cases "in_progress ac p" rule: stages_left.cases) simp_all
  with request_life.run_stages [of ac p "completions ds"] assms(1-3) have "stages_left (in_progress ac' p) = 0" by fastforce
  then show ?thesis by (cases "in_progress ac' p" rule: stages_left.cases) simp_all
qed

text \<open>A first request with no completion before it is cancelled has been found.\<close>

lemma request_run_other:
  "req_sessions ac p = Some s \<Longrightarrow> in_progress ac p = Some OpConnect \<Longrightarrow> \<forall>q. q \<noteq> p \<longrightarrow> in_progress ac q = None \<Longrightarrow>
   \<forall>d \<in> set ds. fst d \<noteq> p \<Longrightarrow> request_run (completions ds) ac = Inr ac"
  by (induction ds) (auto simp: completions_def op_done_none)

lemma first_request_marked:
  assumes "\<forall>d \<in> set d1. fst d \<noteq> 0" "request_run (main_events d1 d2 d3) new_async_client = Inr client" "request_inv client"
  shows "marked 1 0 client"
proof -
  obtain a where a: "request_exec (Request 10 1) new_async_client = Inr a" "request_inv a"
    using request_exec_inv [OF request_inv_new] by blast
  have fields: "in_progress a 0 = Some OpConnect" "\<forall>q. q \<noteq> 0 \<longrightarrow> in_progress a q = None"
    "m_active_sessions a (sint (1 :: u32)) = Some 0" "next_session a = 1"
    "req_sessions a 0 = Some (new_request_session (request_text 10) 1)"
    using a(1) by (auto simp: emulateLongComputationOp_def start_request_op_def new_async_client_def Let_def)
  have d1: "request_run (completions d1) a = Inr a"
    using request_run_other [OF fields(5,1,2) assms(1)] .
  obtain b where b: "request_exec (Request 11 2) a = Inr b" "request_inv b" using request_exec_inv [OF a(2)] by blast
  have "m_active_sessions b (sint (1 :: u32)) = Some 0 \<and> req_sessions b 0 = Some (new_request_session (request_text 10) 1)"
    using b(1) fields by (auto simp: emulateLongComputationOp_def start_request_op_def Let_def)
  then have "marked 1 0 (cancelRequest 1 b)"
    by (auto simp: marked_def cancelRequest_def upd_session_frame new_request_session_def)
  moreover have "request_run (completions d2 @ [Request 12 3] @ completions d3) (cancelRequest 1 b) = Inr client"
    using assms(2) a(1) d1 b(1) by (simp add: main_events_def run_events_append)
  ultimately show ?thesis using marked_run request_inv_cancel [OF b(2)] by blast
qed

section \<open>Properties\<close>


definition sample_completions :: "(nat \<times> error_code \<times> string) list" where
  "sample_completions = concat (map (\<lambda>p. replicate 3 (p, Success, ''Response'')) [0, 1, 2])"


end
