(* ===== verification/SampleServers.thy ===== *)
theory SampleServers
  imports Prelude
begin

text \<open>
  The servers of \<open>sample_implementing_server\<close>: one client after the other
  (\<open>synchronous_iterative_tcp_server.cpp\<close>), a thread for each client
  (\<open>synchronous_parallel_tcp_server.cpp\<close>), and asynchronous operations run by a pool of threads
  (\<open>asynchronous_tcp_server.cpp\<close>). All three read a line, count up to a number while they sleep, and
  answer with one line. What a client does is an input.
\<close>

section \<open>The counting loop\<close>

text \<open>\<open>int i = 0; while (i != n) i++\<close>: \<open>None\<close> is not returning, which an \<open>int\<close> that starts beyond its
  goal would do.\<close>

partial_function (option) busy_loop :: "int \<Rightarrow> int \<Rightarrow> int option" where
  "busy_loop n i = (if i \<noteq> n then busy_loop n (i + 1) else Some i)"

lemma busy_loop_ends: "i \<le> n \<Longrightarrow> busy_loop n i = Some n"
proof (induction "nat (n - i)" arbitrary: i)
  case 0
  then show ?case by (simp add: busy_loop.simps)
next
  case (Suc k)
  then have "i \<noteq> n" "k = nat (n - (i + 1))" "i + 1 \<le> n" by simp_all
  with Suc.hyps(1) [of "i + 1"] show ?case by (simp add: busy_loop.simps [of n i])
qed

definition response_line :: string where
  "response_line = ''Response'' @ [CHR 0x0A]"

section \<open>Synchronous servers\<close>

text \<open>A client: the line it sends, or nothing if reading it fails, and whether it takes the answer.
  The handler catches what its operations throw.\<close>

record sync_client =
  sends :: "string option"
  takes_answer :: bool

definition HandleClient :: "int \<Rightarrow> sync_client \<Rightarrow> string option" where
  "HandleClient n c =
     (case sends c of
        None \<Rightarrow> Some ''''
      | Some request \<Rightarrow>
          (case busy_loop n 0 of
             None \<Rightarrow> None
           | Some _ \<Rightarrow> Some (if takes_answer c then response_line else '''')))"

text \<open>The iterative server counts to 300, the parallel one to 100.\<close>

definition iterative_HandleClient :: "sync_client \<Rightarrow> string option" where
  "iterative_HandleClient = HandleClient 300"

definition parallel_HandleClient :: "sync_client \<Rightarrow> string option" where
  "parallel_HandleClient = HandleClient 100"

datatype incoming = NoClient | AcceptError | Client sync_client

text \<open>A turn of the loop \<open>while(!m_stop.load()) acc.Accept()\<close>: what the flag reads, and what the
  accept meets. An accept that throws does so out of the thread's function; an accept that no
  client ends does not return.\<close>

definition iterative_Accept :: "incoming \<Rightarrow> string list \<Rightarrow> string list result" where
  "iterative_Accept inc answers =
     (case inc of
        NoClient \<Rightarrow> Inl Blocked
      | AcceptError \<Rightarrow> Inl Terminated
      | Client c \<Rightarrow> (case iterative_HandleClient c of None \<Rightarrow> Inl Blocked | Some a \<Rightarrow> Inr (answers @ [a])))"

fun iterative_Run :: "(bool \<times> incoming) list \<Rightarrow> string list \<Rightarrow> string list result" where
  "iterative_Run [] answers = Inl Blocked"
| "iterative_Run ((m_stop, inc) # turns) answers =
     (if m_stop then Inr answers else rbind (iterative_Accept inc answers) (iterative_Run turns))"

text \<open>The parallel server starts a thread per client and detaches it: the loop only collects the clients,
  and each thread runs its handler.\<close>

definition StartHandlingClient :: "sync_client \<Rightarrow> sync_client list \<Rightarrow> sync_client list" where
  "StartHandlingClient sock threads = threads @ [sock]"

definition parallel_Accept :: "incoming \<Rightarrow> sync_client list \<Rightarrow> sync_client list result" where
  "parallel_Accept inc threads =
     (case inc of
        NoClient \<Rightarrow> Inl Blocked
      | AcceptError \<Rightarrow> Inl Terminated
      | Client c \<Rightarrow> Inr (StartHandlingClient c threads))"

fun parallel_Run :: "(bool \<times> incoming) list \<Rightarrow> sync_client list \<Rightarrow> sync_client list result" where
  "parallel_Run [] threads = Inl Blocked"
| "parallel_Run ((m_stop, inc) # turns) threads =
     (if m_stop then Inr threads else rbind (parallel_Accept inc threads) (parallel_Run turns))"

definition answer_to :: "sync_client \<Rightarrow> string" where
  "answer_to c = (if sends c \<noteq> None \<and> takes_answer c then response_line else '''')"

lemma HandleClient_answers: "0 \<le> n \<Longrightarrow> HandleClient n c = Some (answer_to c)"
  by (auto simp: HandleClient_def answer_to_def busy_loop_ends split: option.split)

lemma iterative_Run_clients:
  "iterative_Run (map (\<lambda>c. (False, Client c)) cs @ turns) answers = iterative_Run turns (answers @ map answer_to cs)"
  by (induction cs arbitrary: answers)
    (simp_all add: iterative_Accept_def iterative_HandleClient_def HandleClient_answers)

lemma parallel_Run_clients:
  "parallel_Run (map (\<lambda>c. (False, Client c)) cs @ turns) threads = parallel_Run turns (threads @ cs)"
  by (induction cs arbitrary: threads) (simp_all add: parallel_Accept_def StartHandlingClient_def)

section \<open>The asynchronous server\<close>

text \<open>A service is an object of its own, deleted by its last handler; the handlers hold a bare
  pointer to it, so they stay outstanding whether or not the object is still there.\<close>

datatype aservice_op = ARead | AWrite string

record aservice =
  as_request :: string
  as_response :: string

record aserver =
  as_objects :: "nat \<Rightarrow> aservice option"
  as_ops :: "nat \<Rightarrow> aservice_op option"
  as_wire :: "nat \<Rightarrow> string"
  as_next :: nat
  as_accepting :: bool
  as_acceptor_open :: bool
  m_isStopped :: bool
  as_running :: bool
  m_thread_pool :: nat

definition aservice_StartHandling :: "nat \<Rightarrow> aserver \<Rightarrow> aserver" where
  "aservice_StartHandling p sv = sv\<lparr>as_ops := (as_ops sv)(p \<mapsto> ARead)\<rparr>"

definition aservice_ProcessingRequest :: "string \<Rightarrow> string option" where
  "aservice_ProcessingRequest request = (case busy_loop 1000 0 of None \<Rightarrow> None | Some _ \<Rightarrow> Some response_line)"

definition onFinish :: "nat \<Rightarrow> aserver \<Rightarrow> aserver" where
  "onFinish p sv = sv\<lparr>as_objects := (as_objects sv)(p := None)\<rparr>"

definition aservice_onRequestReceived :: "bool \<Rightarrow> nat \<Rightarrow> aservice \<Rightarrow> aserver \<Rightarrow> aserver result" where
  "aservice_onRequestReceived ec p s sv =
     (if ec then Inr (onFinish p sv)
      else case aservice_ProcessingRequest (as_request s) of
             None \<Rightarrow> Inl Blocked
           | Some r \<Rightarrow> Inr (sv\<lparr>as_objects := (as_objects sv)(p \<mapsto> s\<lparr>as_response := r\<rparr>),
                              as_ops := (as_ops sv)(p \<mapsto> AWrite r)\<rparr>))"

definition aservice_onResponseSent :: "bool \<Rightarrow> nat \<Rightarrow> aserver \<Rightarrow> aserver result" where
  "aservice_onResponseSent ec p sv = Inr (onFinish p sv)"

definition InitAccept :: "aserver \<Rightarrow> aserver" where
  "InitAccept sv = sv\<lparr>as_accepting := True\<rparr>"

definition onAccept :: "bool \<Rightarrow> aserver \<Rightarrow> aserver" where
  "onAccept ec sv =
     (let sv = (if \<not> ec then
                  let p = as_next sv;
                      sv = sv\<lparr>as_objects := (as_objects sv)(p \<mapsto> \<lparr>as_request = '''', as_response = ''''\<rparr>), as_next := Suc p\<rparr>
                  in aservice_StartHandling p sv
                else sv)
      in if \<not> m_isStopped sv then InitAccept sv else sv\<lparr>as_acceptor_open := False\<rparr>)"

definition acceptor_Start :: "aserver \<Rightarrow> aserver" where
  "acceptor_Start sv = InitAccept (sv\<lparr>as_acceptor_open := True\<rparr>)"

definition acceptor_Stop :: "aserver \<Rightarrow> aserver" where
  "acceptor_Stop sv = sv\<lparr>m_isStopped := True\<rparr>"

definition aserver_Start :: "u32 \<Rightarrow> aserver \<Rightarrow> aserver result" where
  "aserver_Start thread_pool_size sv =
     (if thread_pool_size > 0
      then Inr ((acceptor_Start sv)\<lparr>m_thread_pool := unat thread_pool_size, as_running := True\<rparr>)
      else Inl AssertFailed)"

definition aserver_Stop :: "aserver \<Rightarrow> aserver" where
  "aserver_Stop sv = (acceptor_Stop sv)\<lparr>as_running := False\<rparr>"

definition new_aserver :: aserver where
  "new_aserver = \<lparr>as_objects = Map.empty, as_ops = Map.empty, as_wire = (\<lambda>_. ''''), as_next = 0, as_accepting = False,
     as_acceptor_open = False, m_isStopped = False, as_running = False, m_thread_pool = 0\<rparr>"

definition DEFAULT_THREAD_POOL_SIZE :: u32 where
  "DEFAULT_THREAD_POOL_SIZE = 2"

text \<open>\<open>hardware_concurrency\<close> may be 0, when it is not known.\<close>

definition pool_size :: "u32 \<Rightarrow> u32" where
  "pool_size hardware_concurrency =
     (let thread_pool_size = hardware_concurrency * 2
      in if thread_pool_size = 0 then DEFAULT_THREAD_POOL_SIZE else thread_pool_size)"

datatype aserver_event = AAccepted bool | AOpDone nat bool string

text \<open>A handler runs as long as the context does.\<close>

definition aop_done :: "nat \<Rightarrow> bool \<Rightarrow> string \<Rightarrow> aserver \<Rightarrow> aserver result" where
  "aop_done p ec xs sv =
     (case as_ops sv p of
        None \<Rightarrow> Inr sv
      | Some op \<Rightarrow>
          let sv = sv\<lparr>as_ops := (as_ops sv)(p := None)\<rparr>
          in case as_objects sv p of
               None \<Rightarrow> Inl UseAfterFree
             | Some s \<Rightarrow>
                 (case op of
                    ARead \<Rightarrow>
                      let s = s\<lparr>as_request := as_request s @ xs\<rparr>
                      in aservice_onRequestReceived ec p s (sv\<lparr>as_objects := (as_objects sv)(p \<mapsto> s)\<rparr>)
                  | AWrite r \<Rightarrow>
                      aservice_onResponseSent ec p
                        (if ec then sv else sv\<lparr>as_wire := (as_wire sv)(p := as_wire sv p @ r)\<rparr>)))"

fun aserver_exec :: "aserver_event \<Rightarrow> aserver \<Rightarrow> aserver result" where
  "aserver_exec (AAccepted ec) sv =
     Inr (if as_running sv \<and> as_accepting sv then onAccept ec (sv\<lparr>as_accepting := False\<rparr>) else sv)"
| "aserver_exec (AOpDone p ec xs) sv = (if as_running sv then aop_done p ec xs sv else Inr sv)"

abbreviation aserver_run :: "aserver_event list \<Rightarrow> aserver \<Rightarrow> aserver result" where
  "aserver_run \<equiv> run_events aserver_exec"

text \<open>\<open>main\<close>: start, serve for a minute, stop.\<close>

definition aserver_main :: "u32 \<Rightarrow> aserver_event list \<Rightarrow> aserver result" where
  "aserver_main hardware_concurrency es =
     rbind (aserver_Start (pool_size hardware_concurrency) new_aserver) (\<lambda>sv.
       rbind (aserver_run es sv) (\<lambda>sv. Inr (aserver_Stop sv)))"

section \<open>Services are deleted once\<close>

text \<open>An object exists exactly as long as it has an operation outstanding, and its connection has
  been sent the answer at most once, by the time the object is gone.\<close>

definition aserver_inv :: "aserver \<Rightarrow> bool" where
  "aserver_inv sv \<longleftrightarrow> (\<forall>p. (as_objects sv p = None \<longleftrightarrow> as_ops sv p = None)
     \<and> (as_next sv \<le> p \<longrightarrow> as_objects sv p = None \<and> as_wire sv p = '''')
     \<and> (as_ops sv p \<noteq> None \<longrightarrow> as_wire sv p = '''' \<and> as_ops sv p \<in> {Some ARead, Some (AWrite response_line)})
     \<and> as_wire sv p \<in> {'''', response_line})"

lemma processing_answers: "aservice_ProcessingRequest r = Some response_line"
  by (simp add: aservice_ProcessingRequest_def busy_loop_ends)

lemma aserver_inv_accept: "aserver_inv sv \<Longrightarrow> aserver_inv (onAccept ec sv)"
  by (auto simp: aserver_inv_def onAccept_def aservice_StartHandling_def InitAccept_def Let_def)

lemma aserver_inv_done:
  assumes "aserver_inv sv"
  shows "\<exists>sv'. aop_done p ec xs sv = Inr sv' \<and> aserver_inv sv'"
proof (cases "as_ops sv p")
  case (Some op)
  with assms obtain s where "as_objects sv p = Some s" "op = ARead \<or> op = AWrite response_line" "as_wire sv p = ''''"
    "p < as_next sv"
    unfolding aserver_inv_def by (metis insertE option.distinct(1) option.exhaust option.inject singletonD not_le)
  with Some assms show ?thesis
    by (auto simp: aop_done_def aservice_onRequestReceived_def aservice_onResponseSent_def onFinish_def
        processing_answers aserver_inv_def Let_def)
qed (simp add: aop_done_def assms)

lemma aserver_run_inv: "aserver_inv sv \<Longrightarrow> \<exists>sv'. aserver_run es sv = Inr sv' \<and> aserver_inv sv'"
proof (rule run_events_inv)
  fix e sv assume inv: "aserver_inv sv"
  have "aserver_inv (sv\<lparr>as_accepting := False\<rparr>)" using inv by (simp add: aserver_inv_def)
  with inv show "\<exists>sv'. aserver_exec e sv = Inr sv' \<and> aserver_inv sv'"
    using aserver_inv_accept aserver_inv_done by (cases e) auto
qed

section \<open>Properties\<close>

text \<open>The synchronous servers answer every client, in turn, and cannot be stopped while they
  wait. Whatever clients come, the iterative server returns after \<open>Stop\<close> with the answer to each in
  the order they came, and the parallel server with one thread for each, whose handler gives the
  same answer; the counting loops end. But a \<open>Stop\<close> that finds them in \<open>accept\<close> has no effect until
  one more client comes.\<close>

lemma synchronous_servers_serve_everyone:
  "iterative_Run (map (\<lambda>c. (False, Client c)) cs @ (True, inc) # turns) [] = Inr (map answer_to cs)
   \<and> parallel_Run (map (\<lambda>c. (False, Client c)) cs @ (True, inc) # turns) [] = Inr cs
   \<and> map parallel_HandleClient cs = map (\<lambda>c. Some (answer_to c)) cs
   \<and> iterative_Run (map (\<lambda>c. (False, Client c)) cs @ (False, NoClient) # turns) [] = Inl Blocked
   \<and> parallel_Run (map (\<lambda>c. (False, Client c)) cs @ (False, NoClient) # turns) [] = Inl Blocked"
  by (simp add: iterative_Run_clients parallel_Run_clients parallel_HandleClient_def HandleClient_answers
      iterative_Accept_def parallel_Accept_def)


end
