(* ===== verification/SampleClients.thy ===== *)
theory SampleClients
  imports SampleServers AsyncRequests
begin

text \<open>
  The synchronous clients of \<open>sample_implementing_client\<close> (\<open>synchronous_tcp_client.cpp\<close>,
  \<open>synchronous_udp_client.cpp\<close>) and the daytime server
  (\<open>sample_implementing_server/asynchronous_tcp_daytime_server.cpp\<close>), whose connections are kept
  alive by the handlers of their two operations.
\<close>

section \<open>The synchronous TCP client\<close>

record tcp_client =
  tc_connected :: bool
  tc_open :: bool
  tc_sent :: string

definition new_tcp_client :: tcp_client where
  "new_tcp_client = \<lparr>tc_connected = False, tc_open = True, tc_sent = ''''\<rparr>"

definition tcp_connect :: "bool \<Rightarrow> tcp_client \<Rightarrow> tcp_client result" where
  "tcp_connect ec c = (if ec then Inl (Thrown ''system_error'') else Inr (c\<lparr>tc_connected := True\<rparr>))"

definition tcp_close :: "bool \<Rightarrow> tcp_client \<Rightarrow> tcp_client result" where
  "tcp_close ec c = (if ec then Inl (Thrown ''system_error'') else Inr (c\<lparr>tc_connected := False, tc_open := False\<rparr>))"

definition tcp_sendRequest :: "bool \<Rightarrow> string \<Rightarrow> tcp_client \<Rightarrow> tcp_client result" where
  "tcp_sendRequest ec request c =
     (if ec then Inl (Thrown ''system_error'') else Inr (c\<lparr>tc_sent := tc_sent c @ request\<rparr>))"

text \<open>\<open>read_until\<close> fails, or has read at least up to the first end of line.\<close>

definition tcp_receiveResponse :: "string option \<Rightarrow> string result" where
  "tcp_receiveResponse buf = (case buf of None \<Rightarrow> Inl (Thrown ''system_error'') | Some xs \<Rightarrow> Inr (getline xs))"

definition long_comp_request :: "u32 \<Rightarrow> string" where
  "long_comp_request duration_sec = ''EMULATE_LONG_COMP_OP '' @ dec (unat duration_sec) @ [CHR 0x0A]"

text \<open>\<open>server\<close> is what the peer answers to what it has been sent.\<close>

definition tcp_emulateLongComputationOp ::
  "bool \<Rightarrow> (string \<Rightarrow> string option) \<Rightarrow> u32 \<Rightarrow> tcp_client \<Rightarrow> (string \<times> tcp_client) result" where
  "tcp_emulateLongComputationOp ec server duration_sec c =
     rbind (tcp_sendRequest ec (long_comp_request duration_sec) c) (\<lambda>c.
       rbind (tcp_receiveResponse (server (tc_sent c))) (\<lambda>response. Inr (response, c)))"

text \<open>What \<open>main\<close> prints as the response, and the exception it catches: closing may fail after the
  response has been printed.\<close>

definition tcp_main ::
  "bool \<Rightarrow> bool \<Rightarrow> bool \<Rightarrow> (string \<Rightarrow> string option) \<Rightarrow> string option \<times> fault option" where
  "tcp_main ec_connect ec_send ec_close server =
     (case rbind (tcp_connect ec_connect new_tcp_client) (tcp_emulateLongComputationOp ec_send server 10) of
        Inl e \<Rightarrow> (None, Some e)
      | Inr (response, c) \<Rightarrow>
          (Some response, case tcp_close ec_close c of Inl e \<Rightarrow> Some e | Inr c \<Rightarrow> None))"

text \<open>Against a server that answers a line, the sample prints \<open>Response\<close>.\<close>

lemma getline_line: "CHR 0x0A \<notin> set xs \<Longrightarrow> getline (xs @ CHR 0x0A # ys) = xs"
  by (simp add: getline_def takeWhile_append)

lemma dec_no_newline: "CHR 0x0A \<notin> set (dec n)"
  using dec_digits by (fastforce simp: is_digit_def)

lemma request_is_a_line: "getline (long_comp_request n) @ [CHR 0x0A] = long_comp_request n"
proof -
  have "getline ((''EMULATE_LONG_COMP_OP '' @ dec (unat n)) @ CHR 0x0A # '''') = ''EMULATE_LONG_COMP_OP '' @ dec (unat n)"
    by (rule getline_line) (simp add: dec_no_newline)
  then show ?thesis by (simp add: long_comp_request_def)
qed

definition answering_server :: "string \<Rightarrow> string option" where
  "answering_server sent_text = iterative_HandleClient \<lparr>sends = Some (getline sent_text), takes_answer = True\<rparr>"

lemma tcp_client_gets_answer: "tcp_main False False ec answering_server = (Some ''Response'', if ec then Some (Thrown ''system_error'') else None)"
  by (simp add: tcp_main_def tcp_connect_def tcp_emulateLongComputationOp_def tcp_sendRequest_def
      tcp_receiveResponse_def tcp_close_def answering_server_def iterative_HandleClient_def HandleClient_answers
      answer_to_def response_line_def getline_def)

section \<open>The synchronous UDP client\<close>

text \<open>The response buffer has six characters; the rest of a longer datagram is lost. The socket is shut
  down after the first response.\<close>

record udp_client =
  uc_sent :: "string list"
  uc_shutdown :: bool

definition udp_sendRequest :: "bool \<Rightarrow> string \<Rightarrow> udp_client \<Rightarrow> udp_client result" where
  "udp_sendRequest ec request c =
     (if ec then Inl (Thrown ''system_error'') else Inr (c\<lparr>uc_sent := uc_sent c @ [request]\<rparr>))"

definition udp_receiveResponse :: "string option \<Rightarrow> bool \<Rightarrow> udp_client \<Rightarrow> (string \<times> udp_client) result" where
  "udp_receiveResponse datagram ec c =
     (case datagram of
        None \<Rightarrow> Inl (Thrown ''system_error'')
      | Some xs \<Rightarrow>
          if ec then Inl (Thrown ''system_error'')
          else Inr (take 6 xs, c\<lparr>uc_shutdown := True\<rparr>))"

definition udp_emulateLongComputationOp ::
  "bool \<Rightarrow> string option \<Rightarrow> bool \<Rightarrow> u32 \<Rightarrow> udp_client \<Rightarrow> (string \<times> udp_client) result" where
  "udp_emulateLongComputationOp ec_send datagram ec_shutdown duration_sec c =
     rbind (udp_sendRequest ec_send (long_comp_request duration_sec) c) (\<lambda>c.
       udp_receiveResponse datagram ec_shutdown c)"

definition new_udp_client :: udp_client where
  "new_udp_client = \<lparr>uc_sent = [], uc_shutdown = False\<rparr>"

text \<open>\<open>main\<close> asks one server after the other on the same client: the responses it prints, and the
  exception it catches. The second request is made with a socket that has been shut down.\<close>

definition udp_main ::
  "bool \<times> string option \<times> bool \<Rightarrow> bool \<times> string option \<times> bool \<Rightarrow> string list \<times> fault option" where
  "udp_main server1 server2 =
     (let (ec_send, datagram, ec_shutdown) = server1;
          (ec_send', datagram', ec_shutdown') = server2
      in case udp_emulateLongComputationOp ec_send datagram ec_shutdown 10 new_udp_client of
           Inl e \<Rightarrow> ([], Some e)
         | Inr (response, c) \<Rightarrow>
             (case udp_emulateLongComputationOp ec_send' datagram' ec_shutdown' 10 c of
                Inl e \<Rightarrow> ([response], Some e)
              | Inr (response', c) \<Rightarrow> ([response, response'], None)))"

lemma udp_response_truncated:
  "udp_emulateLongComputationOp False (Some xs) False n c = Inr (r, c') \<Longrightarrow> length r \<le> 6 \<and> prefix r xs \<and> uc_shutdown c'"
  by (auto simp: udp_emulateLongComputationOp_def udp_sendRequest_def udp_receiveResponse_def take_is_prefix)

section \<open>The daytime server\<close>

datatype daytime_op = DayRead | DayWrite string

record daytime_connection =
  day_message :: string
  day_response :: string
  day_ops :: "daytime_op list"
  day_sent :: string

record daytime_server =
  day_conns :: "nat \<Rightarrow> daytime_connection option"
  day_next :: nat
  day_accepting :: "nat option"

definition new_daytime_connection :: daytime_connection where
  "new_daytime_connection = \<lparr>day_message = '''', day_response = '''', day_ops = [], day_sent = ''''\<rparr>"

definition daytime_start :: "string \<Rightarrow> daytime_connection \<Rightarrow> daytime_connection" where
  "daytime_start now c =
     (let c = c\<lparr>day_message := now\<rparr>;
          c = c\<lparr>day_ops := day_ops c @ [DayRead]\<rparr>
      in c\<lparr>day_ops := day_ops c @ [DayWrite (day_message c)]\<rparr>)"

definition start_accept :: "daytime_server \<Rightarrow> daytime_server" where
  "start_accept sv = sv\<lparr>day_conns := (day_conns sv)(day_next sv \<mapsto> new_daytime_connection),
     day_next := Suc (day_next sv), day_accepting := Some (day_next sv)\<rparr>"

definition new_daytime_server :: daytime_server where
  "new_daytime_server = start_accept \<lparr>day_conns = Map.empty, day_next = 0, day_accepting = None\<rparr>"

text \<open>The connection of an accept that failed goes with the handler that held it.\<close>

definition handle_accept :: "nat \<Rightarrow> bool \<Rightarrow> string \<Rightarrow> daytime_server \<Rightarrow> daytime_server" where
  "handle_accept new_connection error now sv =
     (let sv = (if \<not> error
                then sv\<lparr>day_conns := (day_conns sv)(new_connection := map_option (daytime_start now) (day_conns sv new_connection))\<rparr>
                else sv\<lparr>day_conns := (day_conns sv)(new_connection := None)\<rparr>)
      in start_accept sv)"

text \<open>The handlers of a connection do nothing; the last one takes the connection with it.\<close>

definition daytime_op_done :: "daytime_op \<Rightarrow> bool \<Rightarrow> string \<Rightarrow> daytime_connection \<Rightarrow> daytime_connection option" where
  "daytime_op_done op ec xs c =
     (if op \<notin> set (day_ops c) then Some c
      else let c = c\<lparr>day_ops := remove1 op (day_ops c)\<rparr>;
               c = (case op of
                      DayRead \<Rightarrow> c\<lparr>day_response := day_response c @ xs\<rparr>
                    | DayWrite m \<Rightarrow> if ec then c else c\<lparr>day_sent := day_sent c @ m\<rparr>)
           in if day_ops c = [] then None else Some c)"

datatype daytime_event = DayAccepted bool string | DayDone nat daytime_op bool string

fun daytime_exec :: "daytime_event \<Rightarrow> daytime_server \<Rightarrow> daytime_server" where
  "daytime_exec (DayAccepted error now) sv =
     (case day_accepting sv of None \<Rightarrow> sv | Some p \<Rightarrow> handle_accept p error now (sv\<lparr>day_accepting := None\<rparr>))"
| "daytime_exec (DayDone p op ec xs) sv =
     (if day_accepting sv = Some p then sv
      else sv\<lparr>day_conns := (day_conns sv)(p := Option.bind (day_conns sv p) (daytime_op_done op ec xs))\<rparr>)"

text \<open>The server never stops accepting, and every connection that exists is the one it waits for or
  has an operation in progress; so none is leaked and none is gone early, and what is sent on it is
  its message, whole.\<close>

definition day_running :: "daytime_connection \<Rightarrow> bool" where
  "day_running c \<longleftrightarrow> (day_ops c \<in> {[DayRead, DayWrite (day_message c)], [DayWrite (day_message c)]} \<and> day_sent c = '''')
     \<or> (day_ops c = [DayRead] \<and> day_sent c \<in> {'''', day_message c})"

definition daytime_inv :: "daytime_server \<Rightarrow> bool" where
  "daytime_inv sv \<longleftrightarrow> (\<exists>p. day_accepting sv = Some p \<and> day_conns sv p = Some new_daytime_connection)
     \<and> (\<forall>p c. day_conns sv p = Some c \<longrightarrow> p < day_next sv \<and> (day_accepting sv = Some p \<or> day_running c))"

lemma daytime_inv_new: "daytime_inv new_daytime_server"
  by (simp add: daytime_inv_def new_daytime_server_def start_accept_def)

lemma day_running_start: "day_running (daytime_start now new_daytime_connection)"
  by (simp add: day_running_def daytime_start_def new_daytime_connection_def)

lemma day_running_done: "day_running c \<Longrightarrow> daytime_op_done op ec xs c = Some c' \<Longrightarrow> day_running c'"
  by (auto simp: day_running_def daytime_op_done_def Let_def split: if_splits daytime_op.splits)

lemma daytime_inv_exec:
  assumes "daytime_inv sv"
  shows "daytime_inv (daytime_exec e sv)"
proof (cases e)
  case (DayAccepted error now)
  from assms obtain p where p: "day_accepting sv = Some p" "day_conns sv p = Some new_daytime_connection"
    by (auto simp: daytime_inv_def)
  with DayAccepted assms show ?thesis
    by (auto simp: daytime_inv_def handle_accept_def start_accept_def day_running_start less_Suc_eq split: if_splits)
next
  case (DayDone p op ec xs)
  show ?thesis
  proof (cases "day_accepting sv = Some p")
    case True
    with DayDone assms show ?thesis by simp
  next
    case False
    with DayDone assms show ?thesis
      by (auto simp: daytime_inv_def bind_eq_Some_conv intro: day_running_done)
  qed
qed

lemma daytime_inv_run: "daytime_inv sv \<Longrightarrow> daytime_inv (fold daytime_exec es sv)"
  by (induction es arbitrary: sv) (simp_all add: daytime_inv_exec)

text \<open>The daytime server accepts for ever and tells each client the time once. Whatever connects
  and whatever fails, an accept is always in progress; every other connection that exists has an
  operation in progress, so connections are freed exactly when their two operations have ended;
  and a connection has sent nothing or exactly the time string made when it was accepted.\<close>

lemma daytime_server_keeps_accepting:
  "\<exists>p. day_accepting (fold daytime_exec es new_daytime_server) = Some p
     \<and> (\<forall>q c. day_conns (fold daytime_exec es new_daytime_server) q = Some c \<longrightarrow> q \<noteq> p \<longrightarrow>
          day_ops c \<noteq> [] \<and> (day_sent c = '''' \<or> day_sent c = day_message c))"
  using daytime_inv_run [OF daytime_inv_new, of es] by (fastforce simp: daytime_inv_def day_running_def)

end
