(* ===== verification/TMsgServer.thy ===== *)
theory TMsgServer
  imports Text
begin

text \<open>
  \<open>bugs_server/t_msg_server.cpp\<close>: a line-based request server. A \<open>Service\<close> reads a line, parses it,
  writes one response and is destroyed with the last of its handlers; the \<open>Server\<close> accepts
  connections one after the other. The grammar is written with Boost.Spirit, whose operators are
  parsing expressions: literals and sequences match in order, \<open>*p\<close> takes as many \<open>p\<close> as there are
  and is never taken back.
\<close>

section \<open>The grammar\<close>

text \<open>\<open>x3::alpha\<close> and \<open>x3::alnum\<close> on 7-bit characters.\<close>

definition is_alpha :: "char \<Rightarrow> bool" where
  "is_alpha c \<longleftrightarrow> (65 :: nat) \<le> of_char c \<and> of_char c \<le> (90 :: nat) \<or> (97 :: nat) \<le> of_char c \<and> of_char c \<le> (122 :: nat)"

definition ident_start :: "char \<Rightarrow> bool" where
  "ident_start c \<longleftrightarrow> is_alpha c \<or> c = CHR ''_''"

definition ident_char :: "char \<Rightarrow> bool" where
  "ident_char c \<longleftrightarrow> is_alpha c \<or> is_digit c \<or> c = CHR ''_''"

type_synonym 'a parser = "string \<Rightarrow> ('a \<times> string) option"

definition lit :: "string \<Rightarrow> unit parser" where
  "lit l xs = (if take (length l) xs = l then Some ((), drop (length l) xs) else None)"

definition identifier_rule :: "string parser" where
  "identifier_rule xs = (case xs of
       c # cs \<Rightarrow> if ident_start c then Some (c # takeWhile ident_char cs, dropWhile ident_char cs) else None
     | [] \<Rightarrow> None)"

definition eol :: "unit parser" where
  "eol xs = (case xs of
       c # cs \<Rightarrow>
         if c = CHR 0x0D then Some ((), case cs of d # ds \<Rightarrow> if d = CHR 0x0A then ds else cs | [] \<Rightarrow> cs)
         else if c = CHR 0x0A then Some ((), cs) else None
     | [] \<Rightarrow> None)"

definition eoi :: "unit parser" where
  "eoi xs = (if xs = '''' then Some ((), xs) else None)"

definition parse_request :: "string \<Rightarrow> string option" where
  "parse_request request =
     (case lit ''T_MSG_NOW_'' request of None \<Rightarrow> None | Some (_, xs) \<Rightarrow>
      case identifier_rule xs of None \<Rightarrow> None | Some (messages, xs) \<Rightarrow>
      case lit ''s'' xs of None \<Rightarrow> None | Some (_, xs) \<Rightarrow>
      case eol xs of None \<Rightarrow> None | Some (_, xs) \<Rightarrow>
      case eoi xs of None \<Rightarrow> None | Some _ \<Rightarrow> Some messages)"

definition ProcessingRequest :: "string \<Rightarrow> string" where
  "ProcessingRequest request = (case parse_request request of
       Some messages \<Rightarrow> ''Your message is :'' @ messages @ ''s'' @ [CHR 0x0A]
     | None \<Rightarrow> ''Unknown request'' @ [CHR 0x0A])"

section \<open>Services\<close>

datatype service_op = ServiceRead | ServiceWrite string

text \<open>A service lives as long as a handler that holds it is outstanding.\<close>

record service =
  s_request :: string
  s_response :: string
  s_op :: "service_op option"
  s_sent :: string

definition new_service :: service where
  "new_service = \<lparr>s_request = '''', s_response = '''', s_op = None, s_sent = ''''\<rparr>"

definition StartHandling :: "service \<Rightarrow> service" where
  "StartHandling s = s\<lparr>s_op := Some ServiceRead\<rparr>"

definition onRequestReceived :: "bool \<Rightarrow> service \<Rightarrow> service" where
  "onRequestReceived ec s =
     (if ec then s
      else let s = s\<lparr>s_response := ProcessingRequest (s_request s)\<rparr>
           in s\<lparr>s_op := Some (ServiceWrite (s_response s))\<rparr>)"

text \<open>Nothing but a log entry: the service goes with this handler.\<close>

definition onResponseSent :: "bool \<Rightarrow> service \<Rightarrow> service" where
  "onResponseSent ec s = s"

section \<open>Server\<close>

record tmsg_server =
  services :: "nat \<Rightarrow> service option"
  next_service :: nat
  accepting_next :: bool

definition accept_loop :: "tmsg_server \<Rightarrow> tmsg_server" where
  "accept_loop sv = sv\<lparr>accepting_next := True\<rparr>"

definition new_tmsg_server :: tmsg_server where
  "new_tmsg_server = accept_loop \<lparr>services = Map.empty, next_service = 0, accepting_next = False\<rparr>"

definition tmsg_accepted :: "bool \<Rightarrow> tmsg_server \<Rightarrow> tmsg_server" where
  "tmsg_accepted ec sv =
     (if \<not> ec then
        accept_loop (sv\<lparr>services := (services sv)(next_service sv \<mapsto> StartHandling new_service),
                        next_service := Suc (next_service sv)\<rparr>)
      else sv)"

text \<open>An accept ends (\<open>Stop\<close> only makes it end with an error), or the operation of a service: a
  read with what has arrived up to and after the first end of line, a write.\<close>

datatype tmsg_event = Accepted bool | ServiceDone nat bool string

definition service_done :: "bool \<Rightarrow> string \<Rightarrow> service \<Rightarrow> service" where
  "service_done ec xs s =
     (case s_op s of
        None \<Rightarrow> s
      | Some ServiceRead \<Rightarrow> onRequestReceived ec (s\<lparr>s_op := None, s_request := s_request s @ xs\<rparr>)
      | Some (ServiceWrite out) \<Rightarrow>
          onResponseSent ec (s\<lparr>s_op := None, s_sent := s_sent s @ (if ec then '''' else out)\<rparr>))"

fun tmsg_exec :: "tmsg_event \<Rightarrow> tmsg_server \<Rightarrow> tmsg_server" where
  "tmsg_exec (Accepted ec) sv = (if accepting_next sv then tmsg_accepted ec (sv\<lparr>accepting_next := False\<rparr>) else sv)"
| "tmsg_exec (ServiceDone p ec xs) sv = sv\<lparr>services := (services sv)(p := map_option (service_done ec xs) (services sv p))\<rparr>"

abbreviation tmsg_run :: "tmsg_event list \<Rightarrow> tmsg_server \<Rightarrow> tmsg_server" where
  "tmsg_run es sv \<equiv> fold tmsg_exec es sv"

section \<open>No request is understood\<close>

lemma ident_s: "ident_char (CHR ''s'')"
  by (simp add: ident_char_def is_alpha_def)

lemma after_identifier: "identifier_rule xs = Some (m, ys) \<Longrightarrow> lit ''s'' ys = None"
proof -
  assume "identifier_rule xs = Some (m, ys)"
  then obtain cs where ys: "ys = dropWhile ident_char cs"
    by (auto simp: identifier_rule_def split: list.splits if_splits)
  have "ys \<noteq> [] \<Longrightarrow> \<not> ident_char (hd ys)" unfolding ys by (rule hd_dropWhile)
  then show ?thesis using ident_s by (cases ys) (auto simp: lit_def)
qed

lemma parse_request_None: "parse_request xs = None"
  using after_identifier by (fastforce simp: parse_request_def split: option.splits)

lemma ProcessingRequest_unknown: "ProcessingRequest xs = ''Unknown request'' @ [CHR 0x0A]"
  by (simp add: ProcessingRequest_def parse_request_None)

definition unknown :: string where
  "unknown = ''Unknown request'' @ [CHR 0x0A]"

definition service_ok :: "service \<Rightarrow> bool" where
  "service_ok s \<longleftrightarrow> (case s_op s of
       Some ServiceRead \<Rightarrow> s_sent s = ''''
     | Some (ServiceWrite out) \<Rightarrow> out = unknown \<and> s_sent s = ''''
     | None \<Rightarrow> s_sent s = '''' \<or> s_sent s = unknown)"

lemma service_ok_done: "service_ok s \<Longrightarrow> service_ok (service_done ec xs s)"
  by (auto simp: service_ok_def service_done_def onRequestReceived_def onResponseSent_def ProcessingRequest_unknown
      unknown_def Let_def split: option.splits service_op.splits)

definition server_services_ok :: "tmsg_server \<Rightarrow> bool" where
  "server_services_ok sv \<longleftrightarrow> (\<forall>p s. services sv p = Some s \<longrightarrow> service_ok s \<and> p < next_service sv)"

lemma services_ok_exec: "server_services_ok sv \<Longrightarrow> server_services_ok (tmsg_exec e sv)"
  by (cases e) (auto simp: server_services_ok_def tmsg_accepted_def accept_loop_def StartHandling_def new_service_def
      service_ok_done less_Suc_eq, auto simp: service_ok_def)

lemma services_ok_run: "server_services_ok sv \<Longrightarrow> server_services_ok (tmsg_run es sv)"
  by (induction es arbitrary: sv) (simp_all add: services_ok_exec)

lemma no_more_services:
  "\<not> accepting_next sv \<Longrightarrow> \<not> accepting_next (tmsg_run es sv) \<and> next_service (tmsg_run es sv) = next_service sv"
proof (induction es arbitrary: sv)
  case (Cons e es)
  have "\<not> accepting_next (tmsg_exec e sv) \<and> next_service (tmsg_exec e sv) = next_service sv"
    using Cons.prems by (cases e) simp_all
  with Cons.IH [of "tmsg_exec e sv"] show ?case by simp
qed simp

section \<open>Properties\<close>

text \<open>C39: the request server answers every request with \<open>Unknown request\<close>. The identifier of the
  grammar takes every letter, digit and underscore, the closing \<open>s\<close> included, so the grammar
  accepts no text at all, and whatever arrives on whatever connection, a service sends that one
  line, once, or nothing.\<close>

theorem every_request_is_unknown:
  "parse_request request = None
   \<and> (\<forall>es p s. services (tmsg_run es new_tmsg_server) p = Some s \<longrightarrow>
        s_sent s = '''' \<or> s_sent s = ''Unknown request'' @ [CHR 0x0A])"
proof (intro conjI allI impI)
  show "parse_request request = None" by (rule parse_request_None)
next
  fix es p s assume "services (tmsg_run es new_tmsg_server) p = Some s"
  moreover have "server_services_ok new_tmsg_server"
    by (simp add: server_services_ok_def new_tmsg_server_def accept_loop_def)
  ultimately have "service_ok s" using services_ok_run [of new_tmsg_server es] by (auto simp: server_services_ok_def)
  then show "s_sent s = '''' \<or> s_sent s = ''Unknown request'' @ [CHR 0x0A]"
    by (auto simp: service_ok_def unknown_def split: option.splits service_op.splits)
qed

theorem every_request_is_unknown_witness:
  "s_sent (the (services (tmsg_run [Accepted False, ServiceDone 0 False (''T_MSG_NOW_hellos'' @ [CHR 0x0A]),
     ServiceDone 0 False ''''] new_tmsg_server) 0)) = ''Unknown request'' @ [CHR 0x0A]"
proof -
  let ?sv = "tmsg_run [Accepted False, ServiceDone 0 False (''T_MSG_NOW_hellos'' @ [CHR 0x0A]),
     ServiceDone 0 False ''''] new_tmsg_server"
  obtain s where s: "services ?sv 0 = Some s" "s_sent s \<noteq> ''''"
    by (simp add: new_tmsg_server_def accept_loop_def tmsg_accepted_def StartHandling_def new_service_def
        service_done_def onRequestReceived_def onResponseSent_def ProcessingRequest_unknown Let_def)
  with every_request_is_unknown [THEN conjunct2] have "s_sent s = ''Unknown request'' @ [CHR 0x0A]" by blast
  then show ?thesis unfolding s(1) option.sel .
qed

text \<open>An accept that fails is the last: the server goes on serving the connections it has and never
  takes another.\<close>

lemma failed_accept_is_final:
  "next_service (tmsg_run es (tmsg_exec (Accepted True) sv)) = next_service sv"
  using no_more_services [of "tmsg_exec (Accepted True) sv" es] by (auto simp: tmsg_accepted_def)

end
