(* ===== verification/TMsgClient.thy ===== *)
theory TMsgClient
  imports AsyncRequests
begin

text \<open>
  \<open>bugs_server/t_msg_client.cpp\<close>: requests as objects that live as long as their handlers, each
  ending in one call of its callback, and a client that keeps weak pointers to them so that they
  can be cancelled. The loops of \<open>sendMessage\<close> and \<open>GetMessage\<close> never end.
\<close>

section \<open>A request operation\<close>

datatype rop = RConnectSend | RWrite string | RReadReply | RConnectGet | RReadGet

record request_operation =
  r_request :: string
  r_response :: string
  r_ec :: error_code
  r_id :: u32
  r_was_cancelled :: bool
  r_shutdown :: bool
  r_ops :: "rop list"
  r_calls :: "(u32 \<times> string \<times> error_code) list"

definition new_request_operation :: "string \<Rightarrow> u32 \<Rightarrow> request_operation" where
  "new_request_operation request i = \<lparr>r_request = request, r_response = '''', r_ec = Success, r_id = i,
     r_was_cancelled = False, r_shutdown = False, r_ops = [], r_calls = []\<rparr>"

definition start_rop :: "rop \<Rightarrow> request_operation \<Rightarrow> request_operation" where
  "start_rop op r = r\<lparr>r_ops := r_ops r @ [op]\<rparr>"

definition rop_Send :: "request_operation \<Rightarrow> request_operation" where
  "rop_Send r = start_rop RConnectSend r"

definition rop_Get :: "request_operation \<Rightarrow> request_operation" where
  "rop_Get r = start_rop RConnectGet r"

text \<open>\<open>doCancel\<close> cancels the socket, whose operations then end with an error, later.\<close>

definition rop_Cancel :: "request_operation \<Rightarrow> request_operation" where
  "rop_Cancel r = r\<lparr>r_was_cancelled := True\<rparr>"

definition onComplete :: "request_operation \<Rightarrow> request_operation" where
  "onComplete r =
     (let r = r\<lparr>r_shutdown := True\<rparr>;
          r = (if r_ec r = Success \<and> r_was_cancelled r then r\<lparr>r_ec := OperationAborted\<rparr> else r)
      in r\<lparr>r_calls := r_calls r @ [(r_id r, r_response r, r_ec r)]\<rparr>)"

definition sendMsgComplete :: "error_code \<Rightarrow> request_operation \<Rightarrow> request_operation" where
  "sendMsgComplete ec r =
     (let r = r\<lparr>r_ec := ec\<rparr>
      in if r_ec r \<noteq> Success \<or> r_was_cancelled r then onComplete r
         else onComplete (if r_response r \<noteq> '''' then r\<lparr>r_response := butlast (r_response r)\<rparr> else r))"

definition onRequestWritten :: "error_code \<Rightarrow> request_operation \<Rightarrow> request_operation" where
  "onRequestWritten ec r =
     (let r = r\<lparr>r_ec := ec\<rparr>
      in if r_ec r \<noteq> Success \<or> r_was_cancelled r then onComplete r else start_rop RReadReply r)"

definition send_connected :: "error_code \<Rightarrow> request_operation \<Rightarrow> request_operation" where
  "send_connected ec r =
     (let r = r\<lparr>r_ec := ec\<rparr>
      in if r_ec r \<noteq> Success \<or> r_was_cancelled r then onComplete r else start_rop (RWrite (r_request r)) r)"

definition get_connected :: "error_code \<Rightarrow> request_operation \<Rightarrow> request_operation" where
  "get_connected ec r =
     (let r = r\<lparr>r_ec := ec\<rparr>
      in if r_ec r \<noteq> Success \<or> r_was_cancelled r then onComplete r else start_rop RReadGet r)"

text \<open>An operation in progress ends; \<open>xs\<close> is what a read has appended to the buffer. The handler of
  \<open>Get\<close>'s read does not look at its error code.\<close>

definition rop_done :: "rop \<Rightarrow> error_code \<Rightarrow> string \<Rightarrow> request_operation \<Rightarrow> request_operation" where
  "rop_done op ec xs r =
     (if op \<notin> set (r_ops r) then r
      else let r = r\<lparr>r_ops := remove1 op (r_ops r)\<rparr>
           in case op of
                RConnectSend \<Rightarrow> send_connected ec r
              | RWrite _ \<Rightarrow> onRequestWritten ec r
              | RReadReply \<Rightarrow> sendMsgComplete ec (r\<lparr>r_response := r_response r @ xs\<rparr>)
              | RConnectGet \<Rightarrow> get_connected ec r
              | RReadGet \<Rightarrow> onComplete (r\<lparr>r_response := r_response r @ xs\<rparr>))"

datatype rop_event = RopDone rop error_code string | RopCancel

fun rop_exec :: "rop_event \<Rightarrow> request_operation \<Rightarrow> request_operation" where
  "rop_exec (RopDone op ec xs) r = rop_done op ec xs r"
| "rop_exec RopCancel r = rop_Cancel r"

abbreviation rop_run :: "rop_event list \<Rightarrow> request_operation \<Rightarrow> request_operation" where
  "rop_run es r \<equiv> fold rop_exec es r"

section \<open>The client\<close>

text \<open>A weak pointer is empty (\<open>None\<close>) or refers to an object, which has expired when nothing holds
  it: no handler is outstanding, and the calling function does not hold it either.\<close>

record tmsg_client =
  request_ops :: "nat \<Rightarrow> request_operation option"
  next_request :: nat
  m_pending_ops :: "int \<Rightarrow> nat option option"
  m_nextId :: size_t

definition new_tmsg_client :: tmsg_client where
  "new_tmsg_client = \<lparr>request_ops = Map.empty, next_request = 0, m_pending_ops = Map.empty, m_nextId = 1\<rparr>"

text \<open>The map's key is an \<open>int\<close>.\<close>

definition op_key :: "size_t \<Rightarrow> int" where
  "op_key i = sint (ucast i :: u32)"

definition expired_op :: "nat list \<Rightarrow> nat option \<Rightarrow> tmsg_client \<Rightarrow> bool" where
  "expired_op locals w tc = (case w of None \<Rightarrow> True
     | Some p \<Rightarrow> p \<notin> set locals \<and> (case request_ops tc p of None \<Rightarrow> True | Some r \<Rightarrow> r_ops r = []))"

text \<open>Both calls begin alike: create the operation, enter it under the mutex, assert that the key
  was free, and erase the expired entries.\<close>

definition enter_op :: "string \<Rightarrow> size_t \<Rightarrow> tmsg_client \<Rightarrow> tmsg_client result" where
  "enter_op request request_id tc =
     (let p = next_request tc;
          tc = tc\<lparr>request_ops := (request_ops tc)(p \<mapsto> new_request_operation request (ucast request_id)), next_request := Suc p\<rparr>
      in if m_pending_ops tc (op_key request_id) \<noteq> None then Inl AssertFailed
         else let tc = tc\<lparr>m_pending_ops := (m_pending_ops tc)(op_key request_id \<mapsto> Some p)\<rparr>
              in Inr (tc\<lparr>m_pending_ops := (\<lambda>k. case m_pending_ops tc k of None \<Rightarrow> None
                            | Some w \<Rightarrow> if expired_op [p] w tc then None else Some w)\<rparr>))"

definition upd_request :: "nat \<Rightarrow> (request_operation \<Rightarrow> request_operation) \<Rightarrow> tmsg_client \<Rightarrow> tmsg_client" where
  "upd_request p f tc = tc\<lparr>request_ops := (request_ops tc)(p := map_option f (request_ops tc p))\<rparr>"

text \<open>One round of the loop of \<open>sendMessage\<close>, whose counter is a local variable.\<close>

definition send_round :: "string \<Rightarrow> size_t \<Rightarrow> tmsg_client \<Rightarrow> (size_t \<times> tmsg_client) result" where
  "send_round request request_id tc =
     (let request_id = request_id + 1
      in rbind (enter_op request request_id tc) (\<lambda>tc. Inr (request_id, upd_request (next_request tc - 1) rop_Send tc)))"

fun send_rounds :: "(string \<times> rop_event list) list \<Rightarrow> size_t \<Rightarrow> tmsg_client \<Rightarrow> (size_t \<times> tmsg_client) result" where
  "send_rounds [] i tc = Inr (i, tc)"
| "send_rounds ((request, during) # rounds) i tc =
     rbind (send_round request i tc) (\<lambda>(i, tc).
       send_rounds rounds i (upd_request (next_request tc - 1) (rop_run during) tc))"

text \<open>The loop of \<open>GetMessage\<close>; \<open>None\<close> is not returning.\<close>

partial_function (option) get_loop :: "nat \<Rightarrow> tmsg_client \<Rightarrow> tmsg_client option" where
  "get_loop p tc = get_loop p (upd_request p rop_Get tc)"

definition GetMessage :: "tmsg_client \<Rightarrow> (size_t \<times> tmsg_client option) result" where
  "GetMessage tc =
     (let request_id = m_nextId tc
      in rbind (enter_op '''' request_id (tc\<lparr>m_nextId := m_nextId tc + 1\<rparr>)) (\<lambda>tc.
           Inr (request_id, get_loop (next_request tc - 1) tc)))"

text \<open>\<open>operator[]\<close> enters an empty pointer under a key that is not there.\<close>

definition tmsg_cancelRequest :: "u32 \<Rightarrow> tmsg_client \<Rightarrow> tmsg_client" where
  "tmsg_cancelRequest request_id tc =
     (let k = sint request_id;
          tc = (if m_pending_ops tc k = None then tc\<lparr>m_pending_ops := (m_pending_ops tc)(k \<mapsto> None)\<rparr> else tc)
      in case m_pending_ops tc k of
           Some (Some p) \<Rightarrow> if expired_op [] (Some p) tc then tc else upd_request p rop_Cancel tc
         | _ \<Rightarrow> tc)"

section \<open>A sent request\<close>

fun send_stages :: "rop list \<Rightarrow> nat" where
  "send_stages [RConnectSend] = 3"
| "send_stages [RWrite _] = 2"
| "send_stages [RReadReply] = 1"
| "send_stages _ = 0"

text \<open>A request that was sent is connecting, writing or reading, has not called back and has no
  response yet, or it has called back once.\<close>

definition sent_ok :: "request_operation \<Rightarrow> bool" where
  "sent_ok r \<longleftrightarrow>
     (0 < send_stages (r_ops r) \<and> r_calls r = [] \<and> r_response r = '''')
   \<or> (r_ops r = [] \<and> (\<exists>ec. r_calls r = [(r_id r, r_response r, ec)] \<and> r_ec r = ec))"

lemma send_stages_cases:
  "0 < send_stages ops \<Longrightarrow> ops = [RConnectSend] \<or> (\<exists>xs. ops = [RWrite xs]) \<or> ops = [RReadReply]"
  by (cases ops rule: send_stages.cases) auto

lemmas rop_defs = rop_done_def send_connected_def onRequestWritten_def sendMsgComplete_def onComplete_def start_rop_def

lemma rop_done_sent:
  assumes "sent_ok r"
  shows "sent_ok (rop_done op ec xs r) \<and> r_id (rop_done op ec xs r) = r_id r
    \<and> (op \<in> set (r_ops r) \<longrightarrow> send_stages (r_ops (rop_done op ec xs r)) < send_stages (r_ops r))
    \<and> (op \<notin> set (r_ops r) \<longrightarrow> rop_done op ec xs r = r)"
proof (cases "0 < send_stages (r_ops r)")
  case True
  from send_stages_cases [OF this] assms show ?thesis
    by (elim disjE exE) (auto simp: sent_ok_def rop_defs Let_def)
next
  case False
  with assms have "r_ops r = []" by (auto simp: sent_ok_def)
  with assms show ?thesis by (simp add: rop_done_def)
qed

lemma sent_ok_run: "sent_ok r \<Longrightarrow> sent_ok (rop_run es r) \<and> r_id (rop_run es r) = r_id r"
proof (induction es arbitrary: r)
  case (Cons e es)
  have "sent_ok (rop_exec e r) \<and> r_id (rop_exec e r) = r_id r"
  proof (cases e)
    case RopCancel
    with Cons.prems show ?thesis by (auto simp: rop_Cancel_def sent_ok_def)
  qed (use rop_done_sent [OF Cons.prems] in simp)
  with Cons.IH [of "rop_exec e r"] show ?case by simp
qed simp

lemma sent_ok_Send: "sent_ok (rop_Send (new_request_operation request i))"
  by (simp add: sent_ok_def rop_Send_def start_rop_def new_request_operation_def)

lemma send_stages_length: "0 < send_stages ops \<Longrightarrow> length ops = 1"
  by (drule send_stages_cases) auto

text \<open>As a life of at most three completions.\<close>

definition rop_step :: "rop_event \<Rightarrow> request_operation \<Rightarrow> request_operation result" where
  "rop_step e r = Inr (rop_exec e r)"

fun rop_hits :: "rop_event \<Rightarrow> request_operation \<Rightarrow> bool" where
  "rop_hits (RopDone op ec xs) r \<longleftrightarrow> op \<in> set (r_ops r)"
| "rop_hits RopCancel r \<longleftrightarrow> False"

lemma rop_run_events: "run_events rop_step es r = Inr (rop_run es r)"
  by (induction es arbitrary: r) (simp_all add: rop_step_def)

interpretation rop_life: one_shot rop_step sent_ok "\<lambda>r. send_stages (r_ops r)" "\<lambda>r. length (r_calls r)" rop_hits
proof
  fix e r assume ok: "sent_ok r"
  show "\<exists>r'. rop_step e r = Inr r' \<and> sent_ok r' \<and> send_stages (r_ops r') \<le> send_stages (r_ops r) - (if rop_hits e r then 1 else 0)"
  proof (cases e)
    case (RopDone op ec xs)
    with rop_done_sent [OF ok, of op ec xs] show ?thesis by (auto simp: rop_step_def)
  next
    case RopCancel
    with ok show ?thesis by (auto simp: rop_step_def rop_Cancel_def sent_ok_def)
  qed
  show "length (r_calls r) = (if send_stages (r_ops r) = 0 then 1 else 0)"
    using ok by (auto simp: sent_ok_def)
qed

section \<open>Calls that do not return\<close>

lemma get_loop_None: "get_loop p tc = None"
proof (cases "get_loop p tc")
  case (Some tc')
  then have False by (rule get_loop.raw_induct [where P = "\<lambda>_ _ _. False", rotated])
  then show ?thesis ..
qed

section \<open>Properties\<close>

text \<open>A request that is sent calls back once. However its operations end and whenever it is
  cancelled, it either waits for exactly one operation or has called back exactly once, under its
  identifier, with the response it holds; the end of three operations is always enough.\<close>

lemma sent_request_calls_back_once:
  assumes "r0 = rop_Send (new_request_operation request i)" "r = rop_run es r0"
  shows "length (r_ops r) + length (r_calls r) = 1
   \<and> (\<forall>c \<in> set (r_calls r). fst c = i \<and> fst (snd c) = r_response r)
   \<and> (3 \<le> effective rop_step rop_hits es r0 \<longrightarrow> length (r_calls r) = 1)"
proof -
  have ok: "sent_ok r0" "send_stages (r_ops r0) = 3"
    using assms(1) sent_ok_Send by (auto simp: rop_Send_def start_rop_def new_request_operation_def)
  have "sent_ok r" "r_id r = i" using sent_ok_run [OF ok(1), of es] assms
    by (auto simp: rop_Send_def start_rop_def new_request_operation_def)
  moreover from rop_life.run_answers [OF ok(1), of es] ok(2) assms(2)
  have "3 \<le> effective rop_step rop_hits es r0 \<longrightarrow> length (r_calls r) = 1"
    by (auto simp: rop_run_events)
  ultimately show ?thesis using send_stages_length [of "r_ops r"] by (auto simp: sent_ok_def)
qed

text \<open>Two calls of the client that do not come back. \<open>GetMessage\<close> starts one connect after the
  other on the same socket and never returns, with the mutex held. And \<open>cancelRequest\<close> of an
  identifier that is not in the map enters an empty pointer for it, so that the request that is
  made next under that identifier fails the assertion that its key is new.\<close>

lemma get_never_returns_and_cancel_breaks_send:
  "(\<forall>tc. m_pending_ops tc (op_key (m_nextId tc)) = None \<longrightarrow> (\<exists>i. GetMessage tc = Inr (i, None)))
   \<and> (\<forall>tc. send_round request i (tmsg_cancelRequest (ucast (i + 1)) tc) = Inl AssertFailed)"
proof (intro conjI allI impI)
  fix tc :: tmsg_client assume "m_pending_ops tc (op_key (m_nextId tc)) = None"
  then show "\<exists>i. GetMessage tc = Inr (i, None)"
    by (simp add: GetMessage_def enter_op_def get_loop_None Let_def)
next
  fix tc
  have "m_pending_ops (tmsg_cancelRequest (ucast (i + 1)) tc) (op_key (i + 1)) \<noteq> None"
    by (auto simp: tmsg_cancelRequest_def op_key_def upd_request_def Let_def split: option.splits)
  then show "send_round request i (tmsg_cancelRequest (ucast (i + 1)) tc) = Inl AssertFailed"
    by (auto simp: send_round_def enter_op_def Let_def)
qed

text \<open>The response loses its last character, which is the end of line only when nothing came after
  it.\<close>

lemma response_loses_last_character:
  assumes "r_ops r = [RReadReply]" "\<not> r_was_cancelled r" "r_response r = ''''" "xs \<noteq> ''''"
  shows "r_response (rop_done RReadReply Success xs r) = butlast xs"
  using assms by (simp add: rop_defs Let_def)

end
