(* ===== verification/ProgramMains.thy ===== *)
theory ProgramMains
  imports SampleClients TMsgServer TMsgClient
begin

text \<open>
  How the programs start and end: the server class and \<open>main\<close> of the two synchronous servers, \<open>main\<close> of
  the daytime server, of the two programs of \<open>bugs_server\<close>, and of the application
  (\<open>src/src/main.cpp\<close>). What happens while a program runs is the input of the component it starts.
\<close>

section \<open>The synchronous servers\<close>

text \<open>The server class of \<open>synchronous_iterative_tcp_server.cpp\<close> and
  \<open>synchronous_parallel_tcp_server.cpp\<close>: its flag, and whether it has a thread to join.\<close>

record sync_server =
  sync_m_stop :: bool
  sync_m_thread :: bool

definition new_sync_server :: sync_server where
  "new_sync_server = \<lparr>sync_m_stop = False, sync_m_thread = False\<rparr>"

definition sync_Start :: "sync_server \<Rightarrow> sync_server" where
  "sync_Start srv = srv\<lparr>sync_m_thread := True\<rparr>"

text \<open>\<open>run\<close> is how the thread's function ends. Without a thread the pointer is null.\<close>

definition sync_Stop :: "'a result \<Rightarrow> sync_server \<Rightarrow> ('a \<times> sync_server) result" where
  "sync_Stop run srv =
     (let srv = srv\<lparr>sync_m_stop := True\<rparr>
      in if \<not> sync_m_thread srv then Inl NullDeref
         else rbind run (\<lambda>a. Inr (a, srv\<lparr>sync_m_thread := False\<rparr>)))"

text \<open>The thread constructs the acceptor, which throws out of the thread when the port cannot be had.\<close>

definition sync_thread :: "bool \<Rightarrow> 'a result \<Rightarrow> 'a result" where
  "sync_thread opens run = (if opens then run else Inl Terminated)"

text \<open>The exit code, and the answers given or the clients whose handlers have been started.\<close>

definition iterative_main :: "bool \<Rightarrow> (bool \<times> incoming) list \<Rightarrow> (int \<times> string list) result" where
  "iterative_main opens turns =
     (let srv = sync_Start new_sync_server
      in rbind (sync_Stop (sync_thread opens (iterative_Run turns [])) srv) (\<lambda>(answers, srv). Inr (0, answers)))"

definition parallel_main :: "bool \<Rightarrow> (bool \<times> incoming) list \<Rightarrow> (int \<times> sync_client list) result" where
  "parallel_main opens turns =
     (let srv = sync_Start new_sync_server
      in rbind (sync_Stop (sync_thread opens (parallel_Run turns [])) srv) (\<lambda>(threads, srv). Inr (0, threads)))"

text \<open>A server that is stopped while it waits for a client does not end before the next one, and one
  whose accept fails takes the program with it, though \<open>main\<close> catches exceptions.\<close>

lemma sync_mains:
  "iterative_main True (map (\<lambda>c. (False, Client c)) cs @ [(True, inc)]) = Inr (0, map answer_to cs)"
  "parallel_main True (map (\<lambda>c. (False, Client c)) cs @ [(True, inc)]) = Inr (0, cs)"
  "iterative_main True (map (\<lambda>c. (False, Client c)) cs @ [(False, NoClient)]) = Inl Blocked"
  "parallel_main True (map (\<lambda>c. (False, Client c)) cs @ [(False, NoClient)]) = Inl Blocked"
  "iterative_main True (map (\<lambda>c. (False, Client c)) cs @ [(False, AcceptError)]) = Inl Terminated"
  "iterative_main False turns = Inl Terminated"
  by (simp_all add: iterative_main_def parallel_main_def sync_Stop_def sync_Start_def sync_thread_def Let_def
      iterative_Run_clients parallel_Run_clients iterative_Accept_def parallel_Accept_def)

section \<open>The daytime server\<close>

text \<open>The constructor of the server may throw; the context never runs out of work. The exit code and
  the error output, or the server as it is after the events given.\<close>

definition daytime_main :: "string option \<Rightarrow> daytime_event list \<Rightarrow> (int \<times> string) + daytime_server" where
  "daytime_main what es =
     (case what of Some w \<Rightarrow> Inl (0, w @ [CHR 0x0A]) | None \<Rightarrow> Inr (fold daytime_exec es new_daytime_server))"

section \<open>The message request programs\<close>

text \<open>\<open>server\<close>: the pool is joined, which returns once nothing is outstanding on it; a constructor that
  throws is reported. The result is the output.\<close>

definition server_idle :: "tmsg_server \<Rightarrow> bool" where
  "server_idle sv \<longleftrightarrow> \<not> accepting_next sv
     \<and> (\<forall>p < next_service sv. case services sv p of None \<Rightarrow> True | Some s \<Rightarrow> s_op s = None)"

definition tmsg_server_main :: "string option \<Rightarrow> tmsg_event list \<Rightarrow> string result" where
  "tmsg_server_main what es =
     (case what of
        Some w \<Rightarrow> Inr (''Exception: '' @ w @ [CHR 0x0A])
      | None \<Rightarrow> if server_idle (tmsg_run es new_tmsg_server) then Inr '''' else Inl Blocked)"

text \<open>Without a failed accept the server does not end.\<close>

lemma accepting_run:
  "accepting_next sv \<Longrightarrow> Accepted True \<notin> set es \<Longrightarrow> accepting_next (tmsg_run es sv)"
proof (induction es arbitrary: sv)
  case (Cons e es)
  have "accepting_next (tmsg_exec e sv)"
    using Cons.prems by (cases e) (auto simp: tmsg_accepted_def accept_loop_def)
  with Cons show ?case by simp
qed simp

lemma server_serves_until_accept_fails:
  "tmsg_server_main None es = Inr out \<Longrightarrow> Accepted True \<in> set es"
  using accepting_run [of new_tmsg_server es]
  by (auto simp: tmsg_server_main_def server_idle_def new_tmsg_server_def accept_loop_def split: if_splits)

text \<open>\<open>client\<close> calls \<open>sendMessage\<close>, which does not return: whatever has been typed, \<open>main\<close> is waiting for
  the next line, so \<open>join\<close> is never called.\<close>

definition tmsg_client_main :: "(string \<times> rop_event list) list \<Rightarrow> (size_t \<times> tmsg_client) result" where
  "tmsg_client_main rounds = rbind (send_rounds rounds 0 new_tmsg_client) (\<lambda>_. Inl Blocked)"

lemma tmsg_client_never_ends: "\<exists>e. tmsg_client_main rounds = Inl e"
  by (cases "send_rounds rounds 0 new_tmsg_client") (simp_all add: tmsg_client_main_def)

text \<open>The callback. \<open>std::quoted\<close> puts a backslash before a quote or a backslash; \<open>message\<close> is the text of
  an error.\<close>

definition quoted :: "string \<Rightarrow> string" where
  "quoted xs = [CHR 0x22] @ concat (map (\<lambda>c. if c = CHR 0x22 \<or> c = CHR 0x5C then [CHR 0x5C, c] else [c]) xs) @ [CHR 0x22]"

definition tmsg_handler :: "(nat \<Rightarrow> string) \<Rightarrow> u32 \<times> string \<times> error_code \<Rightarrow> string" where
  "tmsg_handler message call = (case call of (request_id, response, ec) \<Rightarrow>
     ''Request #'' @ dec (unat request_id) @ '' '' @
       (if ec = Success then quoted response @ [CHR 0x0A]
        else if ec = OperationAborted then ''Cancelled'' @ [CHR 0x0A]
        else (case ec of OtherError n \<Rightarrow> message n | _ \<Rightarrow> '''') @ [CHR 0x0A]))"

text \<open>What is printed can be read back: the quotes only end the text.\<close>

fun unquote :: "string \<Rightarrow> string" where
  "unquote [] = ''''"
| "unquote [c] = (if c = CHR 0x22 then '''' else [c])"
| "unquote (c # d # cs) = (if c = CHR 0x22 then '''' else if c = CHR 0x5C then d # unquote cs else c # unquote (d # cs))"

lemma unquote_escaped:
  "unquote (concat (map (\<lambda>c. if c = CHR 0x22 \<or> c = CHR 0x5C then [CHR 0x5C, c] else [c]) xs) @ CHR 0x22 # ys) = xs"
proof (induction xs)
  case Nil
  then show ?case by (cases ys) simp_all
next
  case (Cons x xs)
  let ?t = "concat (map (\<lambda>c. if c = CHR 0x22 \<or> c = CHR 0x5C then [CHR 0x5C, c] else [c]) xs) @ CHR 0x22 # ys"
  obtain c cs where "?t = c # cs" by (cases ?t) auto
  with Cons show ?case by auto
qed

lemma unquote_quoted: "unquote (tl (quoted xs)) = xs"
  using unquote_escaped [of xs "[]"] by (simp add: quoted_def)

section \<open>The application\<close>

text \<open>\<open>main\<close> installs the translation of the first of the user's languages for which there is one, and
  returns what the event loop returns. \<open>name\<close> normalises a language, \<open>loads\<close> tells which translations
  there are.\<close>

fun find_translation :: "(string \<Rightarrow> string) \<Rightarrow> (string \<Rightarrow> bool) \<Rightarrow> string list \<Rightarrow> string option" where
  "find_translation name loads [] = None"
| "find_translation name loads (locale # uiLanguages) =
     (let baseName = ''TPlayNow_'' @ name locale
      in if loads ('':/i18n/'' @ baseName) then Some baseName else find_translation name loads uiLanguages)"

definition app_main :: "(string \<Rightarrow> string) \<Rightarrow> (string \<Rightarrow> bool) \<Rightarrow> string list \<Rightarrow> int \<Rightarrow> int \<times> string option" where
  "app_main name loads uiLanguages exec = (exec, find_translation name loads uiLanguages)"

lemma first_translation:
  "find_translation name loads ls = map_option (\<lambda>l. ''TPlayNow_'' @ name l) (find (\<lambda>l. loads ('':/i18n/TPlayNow_'' @ name l)) ls)"
  by (induction ls) (simp_all add: Let_def)

end
