(* ===== verification/Spec2Isabelle.thy ===== *)
theory Spec2Isabelle
  imports TsQueueWait PingSystem RelaySystem ChatServerMain LoginWindow
    AsioEventLoop SampleMains RequestLocks AsyncMain ProgramMains
begin

text \<open>
  A verification library for TPlayNow, a chat program on Boost.Asio and Qt.

  \<^bold>\<open>The program.\<close> \<open>src/network/NetCommon\<close> is a small networking framework: messages with a header of an
  identifier and a size (\<open>net_message.hpp\<close>), a queue shared by threads (\<open>net_tsqueue.hpp\<close>), a connection that
  validates its peer and then reads and writes messages (\<open>net_connection.hpp\<close>), and the client and
  server interfaces on top of it (\<open>net_client.hpp\<close>, \<open>net_server.hpp\<close>), with an example of each
  (\<open>NetClient/SimpleClient.cpp\<close>, \<open>NetServer/SimpleServer.cpp\<close>). Beside it stand a chat room with text headers
  (\<open>chat_message.hpp\<close>, \<open>network/server.cpp\<close>, \<open>network/client.cpp\<close>), which the login window starts
  (\<open>loginwindow.cpp\<close>, \<open>utils.hpp\<close>), and a Qt event dispatcher that runs on an Asio context
  (\<open>qasioeventdispatcher.cpp\<close>). The directories \<open>sample_*\<close> and \<open>bugs_server\<close> hold smaller programs.

  \<^bold>\<open>How it is modelled.\<close> A class is a record, its methods and the handlers they pass to Asio are functions
  on it. Asio, the network and the other threads are events: an operation that was started may
  complete, with an error or with data, whenever and in whatever order; a run is a list of events.
  Undefined behaviour, failed assertions, uncaught exceptions and calls that do not return are
  values of the type \<open>fault\<close>, so a theorem that a run has a result excludes them. Machine integers
  have their width.

  \<^item> \<open>Prelude\<close>, \<open>Bytes\<close>, \<open>Text\<close>: results and runs, vectors, little-endian encodings, decimal text.
  \<^item> \<open>NetMessage\<close>, \<open>TsQueue\<close>: messages and the queue as functions. The locale of the queue's laws
    is interpreted on \<open>push_back\<close> and \<open>pop_front\<close>. \<open>TsQueueWait\<close> has the queue lock by lock, with any
    number of producers and one consumer: \<open>wait\<close> and \<open>pop_front\<close> are safe, the mutexes do not
    deadlock, and a wake-up can be lost.
  \<^item> \<open>NetConnection\<close>: the connection with its two chains of handlers and its handshake.
    \<open>NetHandshake\<close>: \<open>scramble\<close> is a bijection, honest peers validate each other, and nothing is
    delivered before. \<open>WritePump\<close> is the contract of a queue that is written message by message,
    a locale; \<open>NetWriter\<close> interprets it on the connection and shows that its bytes are the frames of
    what was sent; \<open>NetReader\<close> shows that a reader of such bytes delivers the messages, and where
    it does not (an empty message after one with a body). \<open>NetConversation\<close> joins two connections
    that send and read at once, and shows what each has received of the other at every moment;
    \<open>NetProgress\<close> shows that the two never get stuck: without failures they can always finish.
  \<^item> \<open>FrameStream\<close>: where a reader stands in a stream of headers and bodies, a locale, interpreted on
    the frames of \<open>NetConversation\<close> and on those of the chat (\<open>ChatFrames\<close>).
  \<^item> \<open>NetClient\<close>, \<open>NetServer\<close>: the interfaces, with the thread that runs the context. Shared pointers
    are addresses in a store with the references that keep an object alive; an object that is
    gone while it has operations outstanding is a fault of their handlers. The locale \<open>server_app\<close>
    is what the server needs of the virtual functions of an application. \<open>SimpleServer\<close> interprets it
    on the example server; \<open>SimpleClient\<close> has the example client's loop. \<open>NetLink\<close> is one end of
    a link seen apart from the queue it shares, and \<open>NetSystem\<close> the server and any number of clients
    with a network in between: the handlers keep both ends of every link in step, and \<open>linked_reached\<close>
    runs both programs to the start of such a system. Two systems extend it with what the programs do:
    in \<open>PingSystem\<close> the clients ping, and every client is told the time of its own pings, in order; in
    \<open>RelaySystem\<close> they send any messages, and the server refines a relay, whose history explains what
    everybody hears.
  \<^item> \<open>ChatMessage\<close>, \<open>ChatRoom\<close>, \<open>ChatClient\<close>: the header codec, the room with its sessions, the client
    with its connect deadline. Both ends interpret \<open>WritePump\<close>. A participant hears everything, the
    room keeps the last hundred messages, and the client prints what it reads. \<open>ChatSystem\<close> joins one
    server with any number of clients, and peers that are none of them, over a network that keeps
    the order of each connection: the room hears what its clients were given, and they print its
    history. \<open>ChatServerMain\<close> has \<open>main\<close>, which runs a server for each port.
  \<^item> \<open>LoginWindow\<close>: the button's handler and the number parser.
  \<^item> \<open>AsioDispatcher\<close>: socket notifiers with their revisions and pending operations, and the timer of
    the loop; it refines a map from descriptors and kinds to notifiers. \<open>AsioEventLoop\<close>: \<open>processEvents\<close>
    on a context that can be stopped, \<open>wakeUp\<close>, \<open>interrupt\<close>, and the calls about timers.
  \<^item> \<open>PartialIO\<close>: the read and write loops of \<open>sample_io_operations\<close>; the locale \<open>transfer\<close> is the
    contract of a chain of partial transfers, interpreted on the samples' callbacks.
  \<^item> \<open>Lifecycle\<close>: the contract of an object that passes through stages and answers once, a locale,
    interpreted on the requests of \<open>AsyncRequests\<close> and on the operations of \<open>TMsgClient\<close>.
  \<^item> \<open>AsyncRequests\<close>, \<open>RequestLocks\<close>: the client with cancellable requests, step by step and lock by
    lock; \<open>AsyncMain\<close> is its \<open>main\<close>, a script of three requests. \<open>TMsgClient\<close>, \<open>TMsgServer\<close>: the programs of \<open>bugs_server\<close>. \<open>SampleServers\<close>: three servers
    of \<open>sample_implementing_server\<close>. \<open>SampleClients\<close>: the synchronous clients of
    \<open>sample_implementing_client\<close> and the daytime server. \<open>ProgramMains\<close>: how these programs, and the
    application itself, start and end.
  \<^item> \<open>SocketCalls\<close>: the programs of \<open>sample_basic\<close> as sequences of calls that report the first error;
    \<open>SampleMains\<close>: the \<open>main\<close> functions around \<open>PartialIO\<close>, cancelling, and the web page sample.

  \<^bold>\<open>Bounds.\<close> Runs and schedules are lists of any length. Loops of the code are recursive functions with a
  termination proof (\<open>Update_loop\<close>: the distance of the counter to its limit; \<open>trim_recent\<close>: the
  length of the list) or, where the code's own argument is that it ends, \<open>partial_function\<close>s whose
  result is proved (\<open>busy_loop\<close>). The endless loops of the programs' \<open>main\<close> functions are functions of
  the list of their rounds. Sizes below \<open>2 ^ 32\<close> are a hypothesis where the code writes a length
  into 32 bits. \<open>FD_SETSIZE\<close> is 1024.

  \<^bold>\<open>Not modelled.\<close> Construction of windows, Qt's own list of timers (a
  parameter of \<open>AsioEventLoop\<close>), log output where nothing depends on it, and name
  resolution. What the system answers to a
  call is a parameter. Data races that C++
  calls undefined (the server's deque of connections is used by two threads without a lock) are
  not represented: the events of the two threads are interleaved whole.
\<close>

end
